(* ===== verification/Kvs_Prelude.thy ===== *)
theory Kvs_Prelude
  imports Main "HOL-Library.Word" "HOL-Library.Char_ord" "HOL-Library.List_Lexorder"
    "HOL-Library.Multiset"
begin

text \<open>
  Shared vocabulary of the development. Binary data (the \<open>void *data; size_t len\<close> pairs of
  the C code) is a list of \<^typ>\<open>char\<close>, Isabelle's type of bytes, ordered by their unsigned
  value. The theory fixes the type synonyms, \<open>memcmp\<close>, the two's complement reductions of
  the fixed-width signed types, and the generic lemmas on association lists that the storage
  engines share.
\<close>

unbundle bit_operations_syntax

named_theorems engine_simps \<open>unfolding rules for the operations of the storage engines\<close>

type_synonym bytes = "char list"

text \<open>
  Whether an allocation succeeds is decided by the environment. An operation that allocates
  takes an \<open>alloc_env\<close>: \<open>ok i\<close> says whether the \<open>kvs_malloc\<close> at its \<open>i\<close>-th call site
  (numbered in program order) returns memory; \<open>kvs_malloc 0\<close> always returns NULL, see
  \<open>malloc_ok\<close>.
\<close>

type_synonym alloc_env = "nat \<Rightarrow> bool"

definition malloc_ok :: "alloc_env \<Rightarrow> nat \<Rightarrow> nat \<Rightarrow> bool" where
  "malloc_ok ok i n = (n \<noteq> 0 \<and> ok i)"

abbreviation always_ok :: alloc_env where
  "always_ok \<equiv> \<lambda>_. True"

section \<open>Fixed-width signed integers\<close>

text \<open>\<open>i32\<close> and \<open>i64\<close> reduce an integer to the value a 32- or 64-bit signed variable holds.\<close>

definition i32 :: "int \<Rightarrow> int" where
  "i32 x = (x + 2 ^ 31) mod 2 ^ 32 - 2 ^ 31"

definition i64 :: "int \<Rightarrow> int" where
  "i64 x = (x + 2 ^ 63) mod 2 ^ 64 - 2 ^ 63"

lemma i32_id: "- (2 ^ 31) \<le> x \<Longrightarrow> x < 2 ^ 31 \<Longrightarrow> i32 x = x"
  by (simp add: i32_def)

lemma i64_id: "- (2 ^ 63) \<le> x \<Longrightarrow> x < 2 ^ 63 \<Longrightarrow> i64 x = x"
  by (simp add: i64_def)

lemma i32_bounds: "- (2 ^ 31) \<le> i32 x \<and> i32 x < 2 ^ 31"
  by (simp add: i32_def)

lemma i64_bounds: "- (2 ^ 63) \<le> i64 x \<and> i64 x < 2 ^ 63"
  by (simp add: i64_def)

section \<open>Byte comparison\<close>

text \<open>
  \<open>memcmp\<close> over the first \<open>n\<close> bytes: the difference of the first pair of bytes that
  differ, as unsigned values. The callers only look at the sign.
\<close>

fun memcmp :: "nat \<Rightarrow> bytes \<Rightarrow> bytes \<Rightarrow> int" where
  "memcmp (Suc n) (x # xs) (y # ys) =
     (if x = y then memcmp n xs ys else of_char x - of_char y)"
| "memcmp _ _ _ = 0"

lemma of_char_int_less_iff: "(of_char x < (of_char y :: int)) = (x < y)"
proof -
  have "(of_char c :: int) = int (of_char c)" for c
    by (cases c) (simp add: of_char_def)
  then show ?thesis
    by (simp only: of_nat_less_iff less_char_def)
qed

lemma memcmp_neg_iff:
  "memcmp (min (length a) (length b)) a b < 0 \<or>
   memcmp (min (length a) (length b)) a b = 0 \<and> length a < length b \<longleftrightarrow> a < b"
proof (induction a arbitrary: b)
  case Nil
  then show ?case by (cases b) auto
next
  case (Cons x xs)
  show ?case
  proof (cases b)
    case Nil
    then show ?thesis by simp
  next
    case (Cons y ys)
    then show ?thesis
      using Cons.IH [of ys] of_char_int_less_iff [of x y] by auto
  qed
qed

lemma memcmp_zero_iff:
  "length a = length b \<Longrightarrow> memcmp (length a) a b = 0 \<longleftrightarrow> a = b"
proof (induction a arbitrary: b)
  case Nil
  then show ?case by simp
next
  case (Cons x xs)
  then obtain y ys where b: "b = y # ys" and len: "length xs = length ys"
    by (cases b) auto
  show ?case
    using Cons.IH [OF len] by (auto simp: b)
qed

section \<open>Association lists\<close>

text \<open>Facts about \<^const>\<open>map_of\<close> on lists with distinct keys, shared by the engines.\<close>

lemma map_of_distinct_mset:
  assumes "distinct (map fst xs)" and "mset xs = mset ys"
  shows "map_of xs = map_of ys"
proof -
  have "mset (map fst xs) = mset (map fst ys)"
    using assms(2) by (simp only: mset_map)
  then have "distinct (map fst ys)"
    using assms(1) by (metis mset_eq_imp_distinct_iff)
  moreover have "set xs = set ys"
    using assms(2) by (metis set_mset_mset)
  ultimately show ?thesis
    using assms(1) by (metis map_of_inject_set)
qed

end
