(* ===== verification/Kv_Utils.thy ===== *)
theory Kv_Utils
  imports Kvs_Prelude
begin

text \<open>
  \<^verbatim>\<open>kv_utils.c\<close>: the binary data block \<open>kv_data_t\<close>, its copy, comparison and hash.
  \<open>kdata\<close> is the pointer \<open>data\<close> together with the \<open>len\<close> bytes it points to (\<open>None\<close> for
  NULL, which every writer of the field pairs with \<open>len = 0\<close>). The lemmas show that
  \<open>kv_data_compare\<close> is the lexicographic order of the bytes and that a cached hash never
  changes the slot of a key.
\<close>

record kv_data =
  kdata :: "bytes option"
  hash_cache :: "64 word"

definition kbytes :: "kv_data \<Rightarrow> bytes" where
  "kbytes d = (case kdata d of None \<Rightarrow> [] | Some s \<Rightarrow> s)"

definition klen :: "kv_data \<Rightarrow> nat" where
  "klen d = length (kbytes d)"

text \<open>The initialiser \<open>kv_data_t k = {ptr, len}\<close> of the command handlers.\<close>

definition kd :: "bytes \<Rightarrow> kv_data" where
  "kd s = \<lparr>kdata = Some s, hash_cache = 0\<rparr>"

definition kd_null :: kv_data where
  "kd_null = \<lparr>kdata = None, hash_cache = 0\<rparr>"

lemma kd_simps [simp]:
  "kbytes (kd s) = s" "klen (kd s) = length s" "kdata (kd s) = Some s" "hash_cache (kd s) = 0"
  "kbytes kd_null = []" "klen kd_null = 0" "kdata kd_null = None" "hash_cache kd_null = 0"
  by (simp_all add: kd_def kd_null_def kbytes_def klen_def)

lemma kbytes_Some [simp]: "kbytes \<lparr>kdata = Some s, hash_cache = c\<rparr> = s"
  by (simp add: kbytes_def)

section \<open>Hashing\<close>

text \<open>\<open>memcpy(&v, p, n)\<close> into a zeroed \<open>uint64_t\<close> on a little-endian machine.\<close>

fun le64 :: "bytes \<Rightarrow> 64 word" where
  "le64 [] = 0"
| "le64 (c # cs) = of_char c + 256 * le64 cs"

definition hash_mix :: "64 word \<Rightarrow> 64 word" where
  "hash_mix h0 =
     (let h1 = h0 XOR drop_bit 33 h0;
          h2 = h1 * 0xff51afd7ed558ccd;
          h3 = h2 XOR drop_bit 33 h2;
          h4 = h3 * 0xc4ceb9fe1a85ec53
      in h4 XOR drop_bit 33 h4)"

definition murmur_m :: "64 word" where
  "murmur_m = 0xc6a4a7935bd1e995"

text \<open>The loop over the 8-byte words of the key; it leaves the \<open>len & 7\<close> tail bytes.\<close>

function murmur_body :: "64 word \<Rightarrow> bytes \<Rightarrow> 64 word \<times> bytes" where
  "murmur_body h p =
     (if length p < 8 then (h, p)
      else let k1 = le64 (take 8 p) * murmur_m;
               k2 = k1 XOR drop_bit 47 k1;
               k3 = k2 * murmur_m
           in murmur_body ((h XOR k3) * murmur_m) (drop 8 p))"
  by pat_completeness auto
termination
  by (relation "measure (\<lambda>(h, p). length p)") auto

declare murmur_body.simps [simp del]

text \<open>
  The fall-through \<open>switch (len & 7)\<close>: tail byte \<open>i\<close> is xored in at bit \<open>8 * i\<close>, from the
  last byte to the first, and a non-empty tail multiplies once.
\<close>

fun murmur_tail_xor :: "64 word \<Rightarrow> bytes \<Rightarrow> nat \<Rightarrow> 64 word" where
  "murmur_tail_xor h d 0 = h"
| "murmur_tail_xor h d (Suc i) = murmur_tail_xor (h XOR push_bit (8 * i) (of_char (d ! i))) d i"

definition murmur_tail :: "64 word \<Rightarrow> bytes \<Rightarrow> 64 word" where
  "murmur_tail h d = (if d = [] then h else murmur_tail_xor h d (length d) * murmur_m)"

definition kv_hash_short :: "bytes \<Rightarrow> 64 word" where
  "kv_hash_short key =
     (let n = length key in
      if n \<le> 16 then
        hash_mix
          (if n \<le> 8 then le64 key * 0x9e3779b97f4a7c15
           else (le64 (take 8 key) * 0x9e3779b97f4a7c15) XOR
                (le64 (drop (n - 8) key) * 0x85ebca6b3a6b3f4e))
      else
        let h0 = 0x9e3779b97f4a7c15 XOR (of_nat n * murmur_m);
            (h1, d) = murmur_body h0 key;
            h2 = murmur_tail h1 d;
            h3 = (h2 XOR drop_bit 47 h2) * murmur_m
        in h3 XOR drop_bit 47 h3)"

text \<open>\<open>kv_data_hash_calc\<close> and \<open>kv_data_hash\<close> store the hash in the key they are given.\<close>

definition kv_data_hash_calc :: "kv_data \<Rightarrow> 64 word \<times> kv_data" where
  "kv_data_hash_calc key =
     (if hash_cache key \<noteq> 0 then (hash_cache key, key)
      else let h = kv_hash_short (kbytes key) in (h, key\<lparr>hash_cache := h\<rparr>))"

definition kv_data_hash :: "kv_data \<Rightarrow> int \<Rightarrow> 64 word \<times> kv_data" where
  "kv_data_hash key slots =
     (if kdata key = None \<or> slots \<le> 0 then (0, key)
      else let (h, key') = kv_data_hash_calc key in (h AND word_of_int (slots - 1), key'))"

section \<open>Construction, copy and comparison\<close>

text \<open>\<open>m\<close> says whether the one allocation of the function succeeds.\<close>

definition kv_data_create :: "bool \<Rightarrow> bytes option \<Rightarrow> nat \<Rightarrow> int \<times> kv_data" where
  "kv_data_create m src n =
     (if n = 0 then (0, kd_null)
      else case src of
        None \<Rightarrow> (-1, kd_null)
      | Some s \<Rightarrow> if \<not> m then (-1, kd_null)
                  else (0, \<lparr>kdata = Some (take n s), hash_cache = 0\<rparr>))"

definition kv_data_destroy :: "kv_data \<Rightarrow> kv_data" where
  "kv_data_destroy d = kd_null"

definition kv_data_dup :: "bool \<Rightarrow> kv_data \<Rightarrow> int \<times> kv_data" where
  "kv_data_dup m src =
     (if klen src = 0 \<or> kdata src = None then (0, kd_null)
      else let (ret, dst) = kv_data_create m (kdata src) (klen src)
           in (ret, if ret = 0 then dst\<lparr>hash_cache := hash_cache src\<rparr> else dst))"

text \<open>
  The tests \<open>a == b\<close> and \<open>a->data == b->data\<close> of the comparisons are shortcuts on
  addresses: equal addresses hold equal bytes, for which the rest returns the same answer.
\<close>

definition kv_data_equals :: "kv_data \<Rightarrow> kv_data \<Rightarrow> bool" where
  "kv_data_equals a b =
     (if klen a \<noteq> klen b then False else memcmp (klen a) (kbytes a) (kbytes b) = 0)"

definition kv_data_compare :: "kv_data \<Rightarrow> kv_data \<Rightarrow> int" where
  "kv_data_compare a b =
     (let min_len = (if klen a < klen b then klen a else klen b);
          cmp = memcmp min_len (kbytes a) (kbytes b)
      in if cmp \<noteq> 0 then cmp
         else if klen a < klen b then -1 else if klen a > klen b then 1 else 0)"

section \<open>Lemmas\<close>

lemma kv_data_compare_neg_iff [simp]: "kv_data_compare a b < 0 \<longleftrightarrow> kbytes a < kbytes b"
proof -
  have "min (klen a) (klen b) = (if klen a < klen b then klen a else klen b)"
    by simp
  then show ?thesis
    using memcmp_neg_iff [of "kbytes a" "kbytes b"]
    by (auto simp: kv_data_compare_def klen_def Let_def)
qed

lemma kv_data_compare_zero_iff [simp]: "kv_data_compare a b = 0 \<longleftrightarrow> kbytes a = kbytes b"
  using memcmp_zero_iff [of "kbytes a" "kbytes b"] memcmp_zero_iff [of "kbytes b" "kbytes b"]
  by (auto simp: kv_data_compare_def klen_def Let_def split: if_splits)

lemma kv_data_compare_pos_iff [simp]: "0 < kv_data_compare a b \<longleftrightarrow> kbytes b < kbytes a"
proof -
  have "0 < kv_data_compare a b \<longleftrightarrow> \<not> kv_data_compare a b < 0 \<and> kv_data_compare a b \<noteq> 0"
    by linarith
  also have "\<dots> \<longleftrightarrow> kbytes b < kbytes a"
    unfolding kv_data_compare_neg_iff kv_data_compare_zero_iff by auto
  finally show ?thesis .
qed

lemma kv_data_equals_iff [simp]: "kv_data_equals a b \<longleftrightarrow> kbytes a = kbytes b"
  using memcmp_zero_iff [of "kbytes a" "kbytes b"]
  by (auto simp: kv_data_equals_def klen_def)

lemma kv_data_dup_ok:
  "kv_data_dup m src = (ret, dst) \<Longrightarrow> ret = 0 \<Longrightarrow> kbytes dst = kbytes src"
  by (auto simp: kv_data_dup_def kv_data_create_def klen_def kbytes_def split: if_splits option.splits)

lemma kv_data_dup_True:
  "kv_data_dup True src =
     (0, if kbytes src = [] then kd_null
         else \<lparr>kdata = Some (kbytes src), hash_cache = hash_cache src\<rparr>)"
  by (auto simp: kv_data_dup_def kv_data_create_def klen_def kbytes_def split: option.splits)

lemma kv_data_dup_False:
  "kv_data_dup False src = (if kbytes src = [] then 0 else -1, kd_null)"
  by (auto simp: kv_data_dup_def kv_data_create_def klen_def kbytes_def split: option.splits)

text \<open>
  A key is \<open>hash consistent\<close> when its cache is empty or holds the hash of its bytes; every
  key the program builds is. Its slot then only depends on the bytes.
\<close>

definition hash_consistent :: "kv_data \<Rightarrow> bool" where
  "hash_consistent d \<longleftrightarrow> kdata d \<noteq> None \<and> (hash_cache d = 0 \<or> hash_cache d = kv_hash_short (kbytes d))"

definition key_slot :: "bytes \<Rightarrow> int \<Rightarrow> 64 word" where
  "key_slot k slots = kv_hash_short k AND word_of_int (slots - 1)"

lemma hash_consistent_kd [simp, intro]: "hash_consistent (kd s)"
  by (simp add: hash_consistent_def)

lemma kv_data_hash_consistent:
  assumes "hash_consistent d" and "0 < slots"
  shows "kv_data_hash d slots =
    (key_slot (kbytes d) slots, d\<lparr>hash_cache := kv_hash_short (kbytes d)\<rparr>)"
proof (cases "hash_cache d = 0")
  case True
  with assms show ?thesis
    by (auto simp: kv_data_hash_def kv_data_hash_calc_def hash_consistent_def key_slot_def Let_def)
next
  case False
  with assms have "hash_cache d = kv_hash_short (kbytes d)"
    by (simp add: hash_consistent_def)
  with False assms show ?thesis
    by (auto simp: kv_data_hash_def kv_data_hash_calc_def hash_consistent_def key_slot_def)
qed

lemma and_mask_less:
  assumes "0 < n" and "n < 2 ^ 63"
  shows "unat ((w :: 64 word) AND word_of_int (n - 1)) < nat n"
proof -
  have "unat (w AND word_of_int (n - 1)) \<le> unat (word_of_int (n - 1) :: 64 word)"
    by (rule word_and_le1 [THEN word_le_nat_alt [THEN iffD1]])
  also have "\<dots> = nat (n - 1)"
    using assms by (simp add: unsigned_of_int take_bit_int_eq_self del: of_int_diff)
  finally show ?thesis
    using assms(1) by linarith
qed

lemma key_slot_less: "0 < n \<Longrightarrow> n < 2 ^ 63 \<Longrightarrow> unat (key_slot k n) < nat n"
  unfolding key_slot_def by (rule and_mask_less)

end
