(* ===== verification/Kv_Engine.thy ===== *)
theory Kv_Engine
  imports Kv_Utils
begin

text \<open>
  The interface the four storage engines share (\<^verbatim>\<open>kvstore.h\<close>: \<open>kvs_X_set\<close>, \<open>_get\<close>, \<open>_del\<close>,
  \<open>_exist\<close>, \<open>_del_if_expired\<close> for X in array, rbtree, hash, skip), stated against an abstract
  partial map from keys to a value and an absolute expiry time in milliseconds. The client
  lemmas are proved once in the locale; every engine theory interprets it.
\<close>

type_synonym entry = "bytes \<times> int"

type_synonym store_map = "bytes \<Rightarrow> entry option"

text \<open>An entry is expired when TTL is enabled, it has an expiry time and that time is past.\<close>

definition expired :: "bool \<Rightarrow> int \<Rightarrow> int \<Rightarrow> bool" where
  "expired ttl now e \<longleftrightarrow> ttl \<and> 0 < e \<and> e < now"

text \<open>
  The operations of a client as data, what they mean on the abstract map, and their
  execution by an engine.
\<close>

datatype store_op =
    OpSet bytes bytes int
  | OpGet bool int bytes
  | OpDel bytes
  | OpDelIfExpired bytes int

fun spec_op :: "store_map \<Rightarrow> store_op \<Rightarrow> store_map" where
  "spec_op m (OpSet k v e) = m(k \<mapsto> (v, e))"
| "spec_op m (OpGet ttl now k) =
     (case m k of Some (v, e) \<Rightarrow> if expired ttl now e then m(k := None) else m | None \<Rightarrow> m)"
| "spec_op m (OpDel k) = m(k := None)"
| "spec_op m (OpDelIfExpired k x) =
     (case m k of Some (v, e) \<Rightarrow> if e = x then m(k := None) else m | None \<Rightarrow> m)"

fun op_key :: "store_op \<Rightarrow> bytes" where
  "op_key (OpSet k v e) = k"
| "op_key (OpGet ttl now k) = k"
| "op_key (OpDel k) = k"
| "op_key (OpDelIfExpired k x) = k"

text \<open>
  \<open>run_op\<close> gives the new state, or \<open>None\<close> when a SET reports failure.
\<close>

fun run_op ::
  "('s \<Rightarrow> kv_data \<Rightarrow> kv_data \<Rightarrow> int \<Rightarrow> int \<times> 's) \<Rightarrow>
   (bool \<Rightarrow> int \<Rightarrow> 's \<Rightarrow> kv_data \<Rightarrow> kv_data option \<times> 's) \<Rightarrow>
   ('s \<Rightarrow> kv_data \<Rightarrow> int \<times> 's) \<Rightarrow>
   ('s \<Rightarrow> kv_data \<Rightarrow> int \<Rightarrow> int \<times> 's) \<Rightarrow> 's \<Rightarrow> store_op \<Rightarrow> 's option" where
  "run_op st gt dl di s (OpSet k v e) =
     (let (r, s') = st s (kd k) (kd v) e in if r = 0 then Some s' else None)"
| "run_op st gt dl di s (OpGet ttl now k) = Some (snd (gt ttl now s (kd k)))"
| "run_op st gt dl di s (OpDel k) = Some (snd (dl s (kd k)))"
| "run_op st gt dl di s (OpDelIfExpired k x) = Some (snd (di s (kd k) x))"

fun run_ops where
  "run_ops st gt dl di s [] = Some s"
| "run_ops st gt dl di s (x # xs) =
     (case run_op st gt dl di s x of None \<Rightarrow> None | Some s' \<Rightarrow> run_ops st gt dl di s' xs)"

locale kv_engine =
  fixes invar :: "'s \<Rightarrow> bool"
    and valid_key :: "bytes \<Rightarrow> bool"
    and contents :: "'s \<Rightarrow> store_map"
    and e_set :: "alloc_env \<Rightarrow> 's \<Rightarrow> kv_data \<Rightarrow> kv_data \<Rightarrow> int \<Rightarrow> int \<times> 's"
    and e_get :: "bool \<Rightarrow> int \<Rightarrow> 's \<Rightarrow> kv_data \<Rightarrow> kv_data option \<times> 's"
    and e_del :: "'s \<Rightarrow> kv_data \<Rightarrow> int \<times> 's"
    and e_exist :: "bool \<Rightarrow> int \<Rightarrow> 's \<Rightarrow> kv_data \<Rightarrow> int \<times> 's"
    and e_del_if_expired :: "'s \<Rightarrow> kv_data \<Rightarrow> int \<Rightarrow> int \<times> 's"
  assumes set_invar:
      "invar s \<Longrightarrow> valid_key k \<Longrightarrow> e_set ok s (kd k) (kd v) e = (r, s') \<Longrightarrow> invar s'"
    and set_ok:
      "invar s \<Longrightarrow> valid_key k \<Longrightarrow> e_set ok s (kd k) (kd v) e = (0, s') \<Longrightarrow>
       contents s' = (contents s)(k \<mapsto> (v, e))"
    and set_frame:
      "invar s \<Longrightarrow> valid_key k \<Longrightarrow> e_set ok s (kd k) (kd v) e = (r, s') \<Longrightarrow> k' \<noteq> k \<Longrightarrow>
       contents s' k' = contents s k'"
    and get_none:
      "invar s \<Longrightarrow> contents s k = None \<Longrightarrow> e_get ttl now s (kd k) = (None, s)"
    and get_live:
      "invar s \<Longrightarrow> contents s k = Some (v, e) \<Longrightarrow> \<not> expired ttl now e \<Longrightarrow>
       \<exists>d. e_get ttl now s (kd k) = (Some d, s) \<and> kbytes d = v"
    and get_expired:
      "invar s \<Longrightarrow> contents s k = Some (v, e) \<Longrightarrow> expired ttl now e \<Longrightarrow>
       e_get ttl now s (kd k) = (None, snd (e_del s (kd k)))"
    and del_none:
      "invar s \<Longrightarrow> contents s k = None \<Longrightarrow> e_del s (kd k) = (1, s)"
    and del_some:
      "invar s \<Longrightarrow> contents s k = Some ent \<Longrightarrow>
       \<exists>s'. e_del s (kd k) = (0, s') \<and> invar s' \<and> contents s' = (contents s)(k := None)"
    and exist_get:
      "invar s \<Longrightarrow> e_exist ttl now s (kd k) =
         (if fst (e_get ttl now s (kd k)) = None then 1 else 0, snd (e_get ttl now s (kd k)))"
    and del_if_expired_eq:
      "invar s \<Longrightarrow> e_del_if_expired s (kd k) x =
         (case contents s k of
            Some (v, e) \<Rightarrow> if e = x then (1, snd (e_del s (kd k))) else (0, s)
          | None \<Rightarrow> (0, s))"
begin

lemma del_invar: "invar s \<Longrightarrow> invar (snd (e_del s (kd k)))"
  using del_none [of s k] del_some [of s k] by (cases "contents s k") auto

lemma del_contents: "invar s \<Longrightarrow> contents (snd (e_del s (kd k))) = (contents s)(k := None)"
  using del_none [of s k] del_some [of s k] by (cases "contents s k") auto

lemma get_state:
  "invar s \<Longrightarrow> snd (e_get ttl now s (kd k)) =
     (case contents s k of
        Some (v, e) \<Rightarrow> if expired ttl now e then snd (e_del s (kd k)) else s
      | None \<Rightarrow> s)"
  using get_none [of s k ttl now] get_live [of s k _ _ ttl now] get_expired [of s k _ _ ttl now]
  by (cases "contents s k") fastforce+

lemma get_invar: "invar s \<Longrightarrow> invar (snd (e_get ttl now s (kd k)))"
  by (auto simp: get_state del_invar split: option.split)

lemma get_contents:
  "invar s \<Longrightarrow> contents (snd (e_get ttl now s (kd k))) = spec_op (contents s) (OpGet ttl now k)"
  by (auto simp: get_state del_contents split: option.split)

lemma del_if_expired_invar: "invar s \<Longrightarrow> invar (snd (e_del_if_expired s (kd k) x))"
  by (auto simp: del_if_expired_eq del_invar split: option.split)

lemma del_if_expired_contents:
  "invar s \<Longrightarrow> contents (snd (e_del_if_expired s (kd k) x)) = spec_op (contents s) (OpDelIfExpired k x)"
  by (auto simp: del_if_expired_eq del_contents split: option.split)

text \<open>A timer deletion reports 1 exactly if it removed something.\<close>

lemma del_if_expired_result:
  "invar s \<Longrightarrow> fst (e_del_if_expired s (kd k) x) = 0 \<longleftrightarrow> spec_op (contents s) (OpDelIfExpired k x) = contents s"
  by (auto simp: del_if_expired_eq split: option.split dest: fun_cong [of _ _ k])

text \<open>What a GET returns is the live entry, and it changes nothing.\<close>

lemma get_SomeD:
  assumes "invar s" and "e_get ttl now s (kd k) = (Some d, s')"
  shows "s' = s \<and> (\<exists>e. contents s k = Some (kbytes d, e) \<and> \<not> expired ttl now e)"
proof (cases "contents s k")
  case None
  with assms show ?thesis using get_none [of s k ttl now] by simp
next
  case (Some ent)
  obtain v e where ent: "ent = (v, e)" by (cases ent)
  show ?thesis
  proof (cases "expired ttl now e")
    case True
    with assms Some ent show ?thesis using get_expired [of s k v e ttl now] by simp
  next
    case False
    with assms Some ent show ?thesis using get_live [of s k v e ttl now] by auto
  qed
qed

text \<open>The effect of an operation on the contents, in the form the command handlers use it.\<close>

lemma set_effect:
  "e_set ok s (kd k) (kd v) e = (r, s') \<Longrightarrow> invar s \<Longrightarrow> valid_key k \<Longrightarrow>
   invar s' \<and> (r = 0 \<longrightarrow> contents s' = (contents s)(k \<mapsto> (v, e)))"
  using set_invar set_ok by blast

lemma del_effect:
  "e_del s (kd k) = (r, s') \<Longrightarrow> invar s \<Longrightarrow> invar s' \<and> contents s' = (contents s)(k := None)"
  using del_invar [of s k] del_contents [of s k] by simp

lemma get_effect:
  "e_get ttl now s (kd k) = (r, s') \<Longrightarrow> invar s \<Longrightarrow>
   invar s' \<and> (\<not> ttl \<longrightarrow> s' = s) \<and> contents s' \<subseteq>\<^sub>m contents s"
  using get_invar [of s ttl now k] get_contents [of s ttl now k] get_state [of s ttl now k]
  by (auto simp: expired_def map_le_def split: option.splits if_splits)

lemma exist_effect:
  "e_exist ttl now s (kd k) = (r, s') \<Longrightarrow> invar s \<Longrightarrow>
   invar s' \<and> (\<not> ttl \<longrightarrow> s' = s) \<and> contents s' \<subseteq>\<^sub>m contents s"
  using exist_get [of s ttl now k] get_effect [of ttl now s k "fst (e_get ttl now s (kd k))" s'] by auto

text \<open>A value just stored is what a GET returns, until it expires.\<close>

lemma get_after_set:
  assumes "invar s" and "valid_key k" and "e_set ok s (kd k) (kd v) e = (0, s')"
    and "\<not> expired ttl now e"
  shows "\<exists>d. e_get ttl now s' (kd k) = (Some d, s') \<and> kbytes d = v"
  using assms by (intro get_live [of s' k v e]) (auto simp: set_ok intro: set_invar)

text \<open>A timer registered for an overwritten expiry time never deletes the new value.\<close>

lemma stale_timer_harmless:
  assumes "invar s" and "valid_key k" and "e_set ok s (kd k) (kd v) e = (0, s')" and "x \<noteq> e"
  shows "e_del_if_expired s' (kd k) x = (0, s')"
  using assms set_invar [OF assms(1-3)] by (simp add: del_if_expired_eq set_ok)

text \<open>Every operation, and every sequence of them, implements the abstract map.\<close>

lemma run_op_refines:
  assumes "invar s" and "valid_key (op_key x)"
    and "run_op (e_set ok) e_get e_del e_del_if_expired s x = Some s'"
  shows "invar s' \<and> contents s' = spec_op (contents s) x"
proof (cases x)
  case (OpSet k v e)
  with assms show ?thesis
    by (auto simp: set_ok intro: set_invar split: prod.splits if_splits)
next
  case (OpGet ttl now k)
  with assms show ?thesis
    using get_contents get_invar by auto
next
  case (OpDel k)
  with assms show ?thesis
    using del_contents del_invar by auto
next
  case (OpDelIfExpired k e)
  with assms show ?thesis
    using del_if_expired_contents del_if_expired_invar by auto
qed

lemma run_ops_refines:
  assumes "invar s" and "\<forall>x\<in>set xs. valid_key (op_key x)"
    and "run_ops (e_set ok) e_get e_del e_del_if_expired s xs = Some s'"
  shows "invar s' \<and> contents s' = foldl spec_op (contents s) xs"
  using assms
proof (induction xs arbitrary: s)
  case Nil
  then show ?case by simp
next
  case (Cons x xs)
  then obtain s1 where s1: "run_op (e_set ok) e_get e_del e_del_if_expired s x = Some s1"
    and rest: "run_ops (e_set ok) e_get e_del e_del_if_expired s1 xs = Some s'"
    by (auto split: option.splits)
  have "invar s1 \<and> contents s1 = spec_op (contents s) x"
    using Cons.prems(1,2) s1 by (intro run_op_refines) auto
  with Cons.IH [OF _ _ rest] Cons.prems(2) show ?case by simp
qed

text \<open>Where SET cannot fail, every sequence of operations runs to its end.\<close>

lemma run_ops_total:
  assumes "\<And>s k v e. invar s \<Longrightarrow> valid_key k \<Longrightarrow> fst (e_set ok s (kd k) (kd v) e) = 0"
    and "invar s" and "\<forall>x\<in>set xs. valid_key (op_key x)"
  shows "\<exists>s'. run_ops (e_set ok) e_get e_del e_del_if_expired s xs = Some s'"
  using assms(2,3)
proof (induction xs arbitrary: s)
  case (Cons x xs)
  have "\<exists>s1. run_op (e_set ok) e_get e_del e_del_if_expired s x = Some s1"
  proof (cases x)
    case (OpSet k v e)
    then show ?thesis
      using assms(1) [of s k v e] Cons.prems by (cases "e_set ok s (kd k) (kd v) e") auto
  qed simp_all
  then obtain s1 where s1: "run_op (e_set ok) e_get e_del e_del_if_expired s x = Some s1"
    by blast
  then have "invar s1"
    using run_op_refines [OF _ _ s1] Cons.prems by simp
  with Cons s1 show ?case by simp
qed simp

end

end
