(* ===== verification/Kvs_Array.thy ===== *)
theory Kvs_Array
  imports Kv_Engine
begin

text \<open>
  \<^verbatim>\<open>kvs_array.c\<close>: the array engine. A table of \<open>KVS_ARRAY_SIZE\<close> slots of which the first
  \<open>total\<close> are in use; a delete moves the last slot into the hole. The table is a function
  from indices to slots (\<open>None\<close>: the pointer is NULL); \<open>array_inv\<close> keeps \<open>total\<close> within the
  allocated size, and the engine is an instance of the \<open>kv_engine\<close> contract for non-empty keys.
\<close>

record kvs_array_item =
  akey :: kv_data
  avalue :: kv_data
  aexpire_time :: int

record kvs_array =
  arr_table :: "(nat \<Rightarrow> kvs_array_item) option"
  arr_idx :: nat
  arr_total :: nat

definition KVS_ARRAY_SIZE :: nat where
  "KVS_ARRAY_SIZE = 100000"

text \<open>A slot after \<open>memset(slot, 0, sizeof slot)\<close>.\<close>

definition item_zero :: kvs_array_item where
  "item_zero = \<lparr>akey = kd_null, avalue = kd_null, aexpire_time = 0\<rparr>"

text \<open>The static initialiser \<open>{0}\<close> of \<open>global_array\<close>.\<close>

definition array_static :: kvs_array where
  "array_static = \<lparr>arr_table = None, arr_idx = 0, arr_total = 0\<rparr>"

definition kvs_array_create :: "bool \<Rightarrow> kvs_array \<Rightarrow> int \<times> kvs_array" where
  "kvs_array_create m inst =
     (case arr_table inst of
        Some _ \<Rightarrow> (-1, inst)
      | None \<Rightarrow> if \<not> m then (-1, inst)
                else (0, \<lparr>arr_table = Some (\<lambda>_. item_zero), arr_idx = 0, arr_total = 0\<rparr>))"

definition kvs_array_destroy :: "kvs_array \<Rightarrow> kvs_array" where
  "kvs_array_destroy inst = inst\<lparr>arr_table := None, arr_total := 0, arr_idx := 0\<rparr>"

text \<open>The loop of \<open>find_key_index\<close> at index \<open>i\<close> with \<open>n\<close> slots left; \<open>None\<close> is its \<open>-1\<close>.\<close>

fun find_key_from :: "(nat \<Rightarrow> kvs_array_item) \<Rightarrow> kv_data \<Rightarrow> nat \<Rightarrow> nat \<Rightarrow> nat option" where
  "find_key_from t key i 0 = None"
| "find_key_from t key i (Suc n) =
     (if kdata (akey (t i)) \<noteq> None \<and> kv_data_compare (akey (t i)) key = 0 then Some i
      else find_key_from t key (Suc i) n)"

definition find_key_index :: "kvs_array \<Rightarrow> kv_data \<Rightarrow> nat option" where
  "find_key_index inst key =
     (case arr_table inst of None \<Rightarrow> None | Some t \<Rightarrow> find_key_from t key 0 (arr_total inst))"

text \<open>
  \<open>kvs_array_set\<close>. Allocation sites: 0 the copy of the value over an existing slot, 1 the
  copy of the key and 2 the copy of the value into a new slot. A NULL table (never the case
  once \<open>kvs_array_create\<close> succeeded) would be dereferenced; the model reports \<open>-1\<close>.
\<close>

definition kvs_array_set ::
  "alloc_env \<Rightarrow> kvs_array \<Rightarrow> kv_data \<Rightarrow> kv_data \<Rightarrow> int \<Rightarrow> int \<times> kvs_array" where
  "kvs_array_set ok inst key value expire =
     (case arr_table inst of None \<Rightarrow> (-1, inst) | Some t \<Rightarrow>
      (case find_key_index inst key of
        Some i \<Rightarrow>
          (let (ret, v) = kv_data_dup (ok 0) value
           in if ret \<noteq> 0 then (-2, inst\<lparr>arr_table := Some (t(i := (t i)\<lparr>avalue := v\<rparr>))\<rparr>)
              else (0, inst\<lparr>arr_table := Some (t(i := (t i)\<lparr>avalue := v, aexpire_time := expire\<rparr>))\<rparr>))
      | None \<Rightarrow>
          if arr_total inst \<ge> KVS_ARRAY_SIZE then (-1, inst)
          else
            let i = arr_total inst;
                (kret, k) = kv_data_dup (ok 1) key
            in if kret \<noteq> 0 then (-2, inst\<lparr>arr_table := Some (t(i := (t i)\<lparr>akey := k\<rparr>))\<rparr>)
               else
                 let (vret, v) = kv_data_dup (ok 2) value
                 in if vret \<noteq> 0
                    then (-2, inst\<lparr>arr_table := Some (t(i := (t i)\<lparr>akey := kv_data_destroy k, avalue := v\<rparr>))\<rparr>)
                    else (0, \<lparr>arr_table = Some (t(i := \<lparr>akey = k, avalue = v, aexpire_time = expire\<rparr>)),
                              arr_idx = arr_total inst + 1, arr_total = arr_total inst + 1\<rparr>)))"

definition kvs_array_mod ::
  "alloc_env \<Rightarrow> kvs_array \<Rightarrow> kv_data \<Rightarrow> kv_data \<Rightarrow> int \<Rightarrow> int \<times> kvs_array" where
  "kvs_array_mod ok inst key value expire = kvs_array_set ok inst key value expire"

definition kvs_array_del :: "kvs_array \<Rightarrow> kv_data \<Rightarrow> int \<times> kvs_array" where
  "kvs_array_del inst key =
     (case arr_table inst of None \<Rightarrow> (1, inst) | Some t \<Rightarrow>
      (case find_key_index inst key of
        None \<Rightarrow> (1, inst)
      | Some i \<Rightarrow>
          let last = arr_total inst - 1;
              t' = (if i \<noteq> last then (t(i := t last))(last := item_zero) else t(i := item_zero))
          in (0, inst\<lparr>arr_table := Some t', arr_total := last, arr_idx := last\<rparr>)))"

text \<open>
  \<open>kvs_array_get\<close>: \<open>ttl\<close> is \<open>g_enable_ttl\<close>, \<open>now\<close> the clock reading. The returned pointer is
  the value it points to.
\<close>

definition kvs_array_get :: "bool \<Rightarrow> int \<Rightarrow> kvs_array \<Rightarrow> kv_data \<Rightarrow> kv_data option \<times> kvs_array" where
  "kvs_array_get ttl now inst key =
     (case arr_table inst of None \<Rightarrow> (None, inst) | Some t \<Rightarrow>
      (case find_key_index inst key of
        None \<Rightarrow> (None, inst)
      | Some i \<Rightarrow>
          if ttl \<and> aexpire_time (t i) > 0 \<and> now > aexpire_time (t i)
          then (None, snd (kvs_array_del inst key))
          else (Some (avalue (t i)), inst)))"

definition kvs_array_del_if_expired :: "kvs_array \<Rightarrow> kv_data \<Rightarrow> int \<Rightarrow> int \<times> kvs_array" where
  "kvs_array_del_if_expired inst key expected =
     (case arr_table inst of None \<Rightarrow> (0, inst) | Some t \<Rightarrow>
      (case find_key_index inst key of
        None \<Rightarrow> (0, inst)
      | Some i \<Rightarrow>
          if aexpire_time (t i) \<noteq> expected then (0, inst)
          else (1, snd (kvs_array_del inst key))))"

definition kvs_array_exist :: "bool \<Rightarrow> int \<Rightarrow> kvs_array \<Rightarrow> kv_data \<Rightarrow> int \<times> kvs_array" where
  "kvs_array_exist ttl now inst key =
     (let (res, inst') = kvs_array_get ttl now inst key in (if res = None then 1 else 0, inst'))"

text \<open>\<open>kvs_array_get_value_len\<close>, with \<open>global_array\<close> passed in; the \<open>int\<close> result is truncated.\<close>

definition kvs_array_get_value_len :: "bool \<Rightarrow> int \<Rightarrow> kvs_array \<Rightarrow> bytes \<Rightarrow> int \<times> kvs_array" where
  "kvs_array_get_value_len ttl now inst key =
     (if key = [] then (0, inst)
      else case kvs_array_get ttl now inst (kd key) of
        (Some v, inst') \<Rightarrow> (if kdata v \<noteq> None then i32 (int (klen v)) else 0, inst')
      | (None, inst') \<Rightarrow> (0, inst'))"

text \<open>
  \<open>kvs_array_foreach\<close>: the slots its callback is called on, in order. The whole loop is
  inside \<open>if (g_enable_ttl)\<close>.
\<close>

definition kvs_array_foreach :: "bool \<Rightarrow> int \<Rightarrow> kvs_array \<Rightarrow> kvs_array_item list" where
  "kvs_array_foreach ttl now inst =
     (case arr_table inst of None \<Rightarrow> [] | Some t \<Rightarrow>
        if ttl then
          filter (\<lambda>x. kdata (akey x) \<noteq> None \<and> \<not> (aexpire_time x > 0 \<and> now > aexpire_time x))
            (map t [0..<arr_total inst])
        else [])"

section \<open>Invariant and abstraction\<close>

definition array_inv :: "kvs_array \<Rightarrow> bool" where
  "array_inv a \<longleftrightarrow>
     (\<exists>t. arr_table a = Some t \<and> arr_idx a = arr_total a \<and> arr_total a \<le> KVS_ARRAY_SIZE \<and>
       (\<forall>i < arr_total a. kdata (akey (t i)) \<noteq> Some []) \<and>
       (\<forall>i < arr_total a. \<forall>j < arr_total a.
          kdata (akey (t i)) = kdata (akey (t j)) \<longrightarrow> kdata (akey (t i)) \<noteq> None \<longrightarrow> i = j))"

definition array_contents :: "kvs_array \<Rightarrow> store_map" where
  "array_contents a k =
     (case arr_table a of None \<Rightarrow> None | Some t \<Rightarrow>
       map_option (\<lambda>i. (kbytes (avalue (t i)), aexpire_time (t i))) (find_key_index a (kd k)))"

section \<open>Lemmas\<close>

definition slot_holds :: "(nat \<Rightarrow> kvs_array_item) \<Rightarrow> nat \<Rightarrow> bytes \<Rightarrow> bool" where
  "slot_holds t i k \<longleftrightarrow> kdata (akey (t i)) = Some k"

lemma slot_match_iff:
  "kdata (akey (t i)) \<noteq> None \<and> kv_data_compare (akey (t i)) key = 0 \<longleftrightarrow> slot_holds t i (kbytes key)"
  by (auto simp: slot_holds_def kbytes_def)

lemma find_key_from_Some:
  "find_key_from t key i n = Some j \<Longrightarrow> i \<le> j \<and> j < i + n \<and> slot_holds t j (kbytes key)"
  by (induction t key i n rule: find_key_from.induct)
    (auto simp: slot_holds_def kbytes_def split: if_splits)

lemma find_key_from_None:
  "find_key_from t key i n = None \<Longrightarrow> i \<le> j \<Longrightarrow> j < i + n \<Longrightarrow> \<not> slot_holds t j (kbytes key)"
proof (induction t key i n rule: find_key_from.induct)
  case (2 t key i n)
  then show ?case
    by (cases "j = i") (auto simp: slot_holds_def kbytes_def split: if_splits)
qed simp

lemma array_inv_iff:
  "array_inv \<lparr>arr_table = Some t, arr_idx = m, arr_total = n\<rparr> \<longleftrightarrow>
     m = n \<and> n \<le> KVS_ARRAY_SIZE \<and> (\<forall>i<n. \<not> slot_holds t i []) \<and>
     (\<forall>i<n. \<forall>j<n. \<forall>k. slot_holds t i k \<longrightarrow> slot_holds t j k \<longrightarrow> i = j)"
  by (fastforce simp: array_inv_def slot_holds_def)

lemma array_invE:
  assumes "array_inv a"
  obtains t n where "a = \<lparr>arr_table = Some t, arr_idx = n, arr_total = n\<rparr>" and "n \<le> KVS_ARRAY_SIZE"
    and "\<And>i. i < n \<Longrightarrow> \<not> slot_holds t i []"
    and "\<And>i j k. i < n \<Longrightarrow> j < n \<Longrightarrow> slot_holds t i k \<Longrightarrow> slot_holds t j k \<Longrightarrow> i = j"
proof -
  obtain tb m n where a: "a = \<lparr>arr_table = tb, arr_idx = m, arr_total = n\<rparr>"
    by (cases a)
  moreover from assms a obtain t where "tb = Some t"
    by (auto simp: array_inv_def)
  ultimately show ?thesis
    using assms that by (simp add: array_inv_iff)
qed

text \<open>What a search and the abstraction give when a slot holds the key, and when none does.\<close>

lemma find_key_index_hit:
  assumes "array_inv \<lparr>arr_table = Some t, arr_idx = n, arr_total = n\<rparr>" (is "array_inv ?a")
    and "i < n" and "slot_holds t i (kbytes key)"
  shows "find_key_index ?a key = Some i"
proof (cases "find_key_from t key 0 n")
  case None
  then show ?thesis
    using find_key_from_None [OF None, of i] assms by simp
next
  case (Some j)
  then have "j < n" "slot_holds t j (kbytes key)"
    using find_key_from_Some [OF Some] by auto
  with assms have "j = i"
    by (auto simp: array_inv_iff)
  with Some show ?thesis by (simp add: find_key_index_def)
qed

lemma find_key_index_miss:
  assumes "\<And>i. i < n \<Longrightarrow> \<not> slot_holds t i (kbytes key)"
  shows "find_key_index \<lparr>arr_table = Some t, arr_idx = m, arr_total = n\<rparr> key = None"
proof (cases "find_key_from t key 0 n")
  case (Some j)
  then show ?thesis
    using find_key_from_Some [OF Some] assms [of j] by simp
qed (simp add: find_key_index_def)

lemma array_contents_hit:
  assumes "array_inv \<lparr>arr_table = Some t, arr_idx = n, arr_total = n\<rparr>"
    and "i < n" and "slot_holds t i k"
  shows "array_contents \<lparr>arr_table = Some t, arr_idx = n, arr_total = n\<rparr> k =
    Some (kbytes (avalue (t i)), aexpire_time (t i))"
  using find_key_index_hit [of t n i "kd k"] assms by (simp add: array_contents_def)

lemma array_contents_miss:
  assumes "\<And>i. i < n \<Longrightarrow> \<not> slot_holds t i k"
  shows "array_contents \<lparr>arr_table = Some t, arr_idx = m, arr_total = n\<rparr> k = None"
  using find_key_index_miss [of n t "kd k"] assms by (simp add: array_contents_def)

lemma find_key_index_cases:
  assumes "array_inv \<lparr>arr_table = Some t, arr_idx = n, arr_total = n\<rparr>" (is "array_inv ?a")
  obtains (miss) "find_key_index ?a key = None" and "\<And>i. i < n \<Longrightarrow> \<not> slot_holds t i (kbytes key)"
    and "array_contents ?a (kbytes key) = None"
  | (hit) i where "find_key_index ?a key = Some i" and "i < n" and "slot_holds t i (kbytes key)"
    and "array_contents ?a (kbytes key) = Some (kbytes (avalue (t i)), aexpire_time (t i))"
proof (cases "\<exists>i<n. slot_holds t i (kbytes key)")
  case True
  then obtain i where "i < n" "slot_holds t i (kbytes key)" by blast
  with assms show ?thesis
    by (intro hit) (simp_all add: find_key_index_hit array_contents_hit)
next
  case False
  then show ?thesis
    by (intro miss) (simp_all add: find_key_index_miss array_contents_miss)
qed

text \<open>Rewriting one slot without changing its key.\<close>

lemma array_update_value:
  assumes inv: "array_inv \<lparr>arr_table = Some t, arr_idx = n, arr_total = n\<rparr>" (is "array_inv ?a")
    and i: "i < n" and k: "slot_holds t i k" and x: "akey x = akey (t i)"
  defines "a' \<equiv> \<lparr>arr_table = Some (t(i := x)), arr_idx = n, arr_total = n\<rparr>"
  shows "array_inv a'" and "array_contents a' = (array_contents ?a)(k \<mapsto> (kbytes (avalue x), aexpire_time x))"
proof -
  have same: "slot_holds (t(i := x)) j = slot_holds t j" for j
    using x by (auto simp: slot_holds_def fun_eq_iff)
  show inv': "array_inv a'"
    using inv by (simp add: a'_def array_inv_iff same)
  show "array_contents a' = (array_contents ?a)(k \<mapsto> (kbytes (avalue x), aexpire_time x))"
  proof
    fix k'
    show "array_contents a' k' = ((array_contents ?a)(k \<mapsto> (kbytes (avalue x), aexpire_time x))) k'"
    proof (cases "\<exists>j<n. slot_holds t j k'")
      case True
      then obtain j where j: "j < n" "slot_holds t j k'" by blast
      have "(j = i) = (k' = k)"
        using inv i k j by (auto simp: array_inv_iff slot_holds_def)
      then show ?thesis
        using inv inv' j by (auto simp: a'_def array_contents_hit same)
    next
      case False
      then have "k' \<noteq> k" using i k by blast
      with False show ?thesis
        by (simp add: a'_def array_contents_miss same)
    qed
  qed
qed

text \<open>Writing beyond \<open>total\<close> changes nothing the engine can see.\<close>

lemma array_update_unused:
  assumes "array_inv \<lparr>arr_table = Some t, arr_idx = n, arr_total = n\<rparr>" (is "array_inv ?a")
  shows "array_inv \<lparr>arr_table = Some (t(n := x)), arr_idx = n, arr_total = n\<rparr>" (is "array_inv ?b")
    and "array_contents \<lparr>arr_table = Some (t(n := x)), arr_idx = n, arr_total = n\<rparr> = array_contents ?a"
proof -
  have same: "slot_holds (t(n := x)) j = slot_holds t j" if "j < n" for j
    using that by (auto simp: slot_holds_def)
  show inv': "array_inv ?b"
    using assms by (simp add: array_inv_iff same)
  show "array_contents ?b = array_contents ?a"
  proof
    fix k
    show "array_contents ?b k = array_contents ?a k"
    proof (cases "\<exists>j<n. slot_holds t j k")
      case True
      then obtain j where j: "j < n" "slot_holds t j k" by blast
      then show ?thesis
        using assms inv' by (auto simp: array_contents_hit same)
    qed (simp add: array_contents_miss same)
  qed
qed

text \<open>Appending a slot whose key (if it has one) is new.\<close>

lemma array_append:
  assumes inv: "array_inv \<lparr>arr_table = Some t, arr_idx = n, arr_total = n\<rparr>" (is "array_inv ?a")
    and n: "n < KVS_ARRAY_SIZE" and new: "\<And>i. i < n \<Longrightarrow> \<not> slot_holds t i (kbytes (akey x))"
    and ne: "kdata (akey x) \<noteq> Some []"
  defines "a' \<equiv> \<lparr>arr_table = Some (t(n := x)), arr_idx = n + 1, arr_total = n + 1\<rparr>"
  shows "array_inv a'"
    and "kdata (akey x) = Some k \<Longrightarrow>
      array_contents a' = (array_contents ?a)(k \<mapsto> (kbytes (avalue x), aexpire_time x))"
    and "kdata (akey x) = None \<Longrightarrow> array_contents a' = array_contents ?a"
proof -
  have old: "slot_holds (t(n := x)) j = slot_holds t j" if "j < n" for j
    using that by (auto simp: slot_holds_def)
  have at_n: "slot_holds (t(n := x)) n k' \<longleftrightarrow> kdata (akey x) = Some k'" for k'
    by (simp add: slot_holds_def)
  have fresh: "\<not> slot_holds t i k'" if "i < n" "kdata (akey x) = Some k'" for i k'
    using new [OF that(1)] that(2) by (simp add: kbytes_def)
  have split: "i < n + 1 \<longleftrightarrow> i = n \<or> i < n" for i by auto
  show inv': "array_inv a'"
    using inv n ne fresh unfolding a'_def array_inv_iff split
    by (auto simp: old at_n)
  have other: "array_contents a' k' = array_contents ?a k'" if "kdata (akey x) \<noteq> Some k'" for k'
  proof (cases "\<exists>j<n. slot_holds t j k'")
    case True
    then obtain j where j: "j < n" "slot_holds t j k'" by blast
    then have "array_contents a' k' = Some (kbytes (avalue ((t(n := x)) j)), aexpire_time ((t(n := x)) j))"
      using inv' old by (unfold a'_def, intro array_contents_hit) auto
    with j inv show ?thesis by (simp add: array_contents_hit)
  next
    case False
    then have "\<not> slot_holds (t(n := x)) i k'" if "i < n + 1" for i
      using that \<open>kdata (akey x) \<noteq> Some k'\<close> by (auto simp: less_Suc_eq old at_n)
    with False show ?thesis by (simp add: a'_def array_contents_miss)
  qed
  show "array_contents a' = (array_contents ?a)(k \<mapsto> (kbytes (avalue x), aexpire_time x))"
    if "kdata (akey x) = Some k"
  proof
    fix k'
    have "array_contents a' k = Some (kbytes (avalue ((t(n := x)) n)), aexpire_time ((t(n := x)) n))"
      using inv' at_n that by (unfold a'_def, intro array_contents_hit) auto
    then show "array_contents a' k' = ((array_contents ?a)(k \<mapsto> (kbytes (avalue x), aexpire_time x))) k'"
      using other [of k'] that by auto
  qed
  show "array_contents a' = array_contents ?a" if "kdata (akey x) = None"
    using other that by (simp add: fun_eq_iff)
qed

section \<open>The operations\<close>

lemma kvs_array_set_spec:
  assumes inv: "array_inv a" and set: "kvs_array_set ok a (kd k) (kd v) e = (r, a')"
  shows "array_inv a'"
    and "k \<noteq> [] \<Longrightarrow> r = 0 \<Longrightarrow> array_contents a' = (array_contents a)(k \<mapsto> (v, e))"
    and "k' \<noteq> k \<Longrightarrow> array_contents a' k' = array_contents a k'"
proof -
  obtain t n where a: "a = \<lparr>arr_table = Some t, arr_idx = n, arr_total = n\<rparr>"
    and n: "n \<le> KVS_ARRAY_SIZE"
    using inv by (rule array_invE)
  have inv_t: "array_inv \<lparr>arr_table = Some t, arr_idx = n, arr_total = n\<rparr>"
    using inv a by simp
  have "array_inv a' \<and> (k \<noteq> [] \<longrightarrow> r = 0 \<longrightarrow> array_contents a' = (array_contents a)(k \<mapsto> (v, e)))
    \<and> (\<forall>k'. k' \<noteq> k \<longrightarrow> array_contents a' k' = array_contents a k')"
    using inv_t
  proof (cases rule: find_key_index_cases [where key = "kd k"])
    case (hit i)
    have key: "slot_holds t i k" using hit by simp
    show ?thesis
      using set hit(1,2)
        array_update_value [OF inv_t hit(2) key, of "(t i)\<lparr>avalue := kd_null\<rparr>"]
        array_update_value [OF inv_t hit(2) key, of "(t i)\<lparr>avalue := snd (kv_data_dup (ok 0) (kd v)), aexpire_time := e\<rparr>"]
      by (cases "ok 0") (auto simp: kvs_array_set_def a kv_data_dup_True kv_data_dup_False split: if_splits)
  next
    case miss
    then have new: "\<And>i. i < n \<Longrightarrow> \<not> slot_holds t i k" by simp
    show ?thesis
    proof (cases "n < KVS_ARRAY_SIZE")
      case False
      then show ?thesis
        using set miss(1) inv by (auto simp: kvs_array_set_def a)
    next
      case True
      let ?k = "snd (kv_data_dup (ok 1) (kd k))"
      let ?v = "snd (kv_data_dup (ok 2) (kd v))"
      have kb: "kbytes ?k = k \<and> kdata ?k = (if k = [] then None else Some k)" if "ok 1 \<or> k = []"
        using that by (cases "ok 1") (auto simp: kv_data_dup_True kv_data_dup_False)
      show ?thesis
      proof (cases "(ok 1 \<or> k = []) \<and> (ok 2 \<or> v = [])")
        case good: True
        have vb: "kbytes ?v = v"
          using good by (cases "ok 2") (auto simp: kv_data_dup_True kv_data_dup_False)
        have a': "r = 0 \<and> a' = \<lparr>arr_table = Some (t(n := \<lparr>akey = ?k, avalue = ?v, aexpire_time = e\<rparr>)),
            arr_idx = n + 1, arr_total = n + 1\<rparr>"
          using set miss(1) True good
          by (cases "ok 1"; cases "ok 2") (auto simp: kvs_array_set_def a kv_data_dup_True kv_data_dup_False)
        show ?thesis
          using array_append [OF inv_t True, of "\<lparr>akey = ?k, avalue = ?v, aexpire_time = e\<rparr>"] kb good vb new a'
          by (cases "k = []") (auto simp: a)
      next
        case bad: False
        have "r \<noteq> 0 \<and> (\<exists>x. a' = \<lparr>arr_table = Some (t(n := x)), arr_idx = n, arr_total = n\<rparr>)"
          using set miss(1) True bad
          by (cases "ok 1"; cases "ok 2") (auto simp: kvs_array_set_def a kv_data_dup_True kv_data_dup_False split: if_splits)
        then show ?thesis
          using array_update_unused [OF inv_t] by (auto simp: a)
      qed
    qed
  qed
  then show "array_inv a'"
    and "k \<noteq> [] \<Longrightarrow> r = 0 \<Longrightarrow> array_contents a' = (array_contents a)(k \<mapsto> (v, e))"
    and "k' \<noteq> k \<Longrightarrow> array_contents a' k' = array_contents a k'"
    by blast+
qed

text \<open>Moving the last slot into the hole removes exactly the one key.\<close>

lemma array_remove:
  assumes inv: "array_inv \<lparr>arr_table = Some t, arr_idx = n, arr_total = n\<rparr>" (is "array_inv ?a")
    and i: "i < n" and k: "slot_holds t i k"
  defines "t' \<equiv> (if i \<noteq> n - 1 then (t(i := t (n - 1)))(n - 1 := item_zero) else t(i := item_zero))"
  defines "a' \<equiv> \<lparr>arr_table = Some t', arr_idx = n - 1, arr_total = n - 1\<rparr>"
  shows "array_inv a'" and "array_contents a' = (array_contents ?a)(k := None)"
proof -
  define src where "src j = (if j = i then n - 1 else j)" for j
  have src: "src j < n" "src j \<noteq> i" "t' j = t (src j)" if "j < n - 1" for j
    using that i by (auto simp: src_def t'_def)
  have inj: "src j = src j' \<Longrightarrow> j = j'" if "j < n - 1" "j' < n - 1" for j j'
    using that by (auto simp: src_def split: if_splits)
  have holds: "slot_holds t' j = slot_holds t (src j)" if "j < n - 1" for j
    using src(3) [OF that] by (simp add: slot_holds_def fun_eq_iff)
  have uniq: "\<And>j j' k. j < n \<Longrightarrow> j' < n \<Longrightarrow> slot_holds t j k \<Longrightarrow> slot_holds t j' k \<Longrightarrow> j = j'"
    and ne: "\<And>j. j < n \<Longrightarrow> \<not> slot_holds t j []" and n: "n \<le> KVS_ARRAY_SIZE"
    using inv by (auto simp: array_inv_iff)
  show inv': "array_inv a'"
    unfolding a'_def array_inv_iff
  proof (intro conjI allI impI)
    show "j = j'" if "j < n - 1" "j' < n - 1" "slot_holds t' j k" "slot_holds t' j' k" for j j' k
      using that inj uniq [of "src j" "src j'" k] src(1) by (simp add: holds)
  qed (use n ne src(1) in \<open>auto simp: holds\<close>)
  show "array_contents a' = (array_contents ?a)(k := None)"
  proof
    fix k'
    show "array_contents a' k' = ((array_contents ?a)(k := None)) k'"
    proof (cases "\<exists>j<n - 1. slot_holds t' j k'")
      case True
      then obtain j where j: "j < n - 1" "slot_holds t' j k'" by blast
      then have sj: "slot_holds t (src j) k'" by (simp add: holds)
      then have "k' \<noteq> k"
        using uniq [of "src j" i k] src(1,2) [OF j(1)] i k by blast
      moreover have "array_contents a' k' = Some (kbytes (avalue (t' j)), aexpire_time (t' j))"
        using inv' j by (simp add: a'_def array_contents_hit)
      ultimately show ?thesis
        using inv src(1,3) [OF j(1)] sj by (simp add: array_contents_hit)
    next
      case False
      have "\<not> slot_holds t j k'" if "j < n" "k' \<noteq> k" for j
      proof
        assume h: "slot_holds t j k'"
        then have "j \<noteq> i" using k that(2) by (auto simp: slot_holds_def)
        define j' where "j' = (if j = n - 1 then i else j)"
        have "j' < n - 1" "src j' = j"
          using \<open>j \<noteq> i\<close> that(1) i by (auto simp: j'_def src_def)
        with False h show False by (auto simp: holds)
      qed
      with False show ?thesis
        by (auto simp: a'_def array_contents_miss)
    qed
  qed
qed

lemma kvs_array_del_hit:
  assumes "array_inv a" and "array_contents a k = Some x"
  shows "\<exists>a'. kvs_array_del a (kd k) = (0, a') \<and> array_inv a' \<and> array_contents a' = (array_contents a)(k := None)"
  using assms(1)
proof (rule array_invE)
  fix t n
  assume a: "a = \<lparr>arr_table = Some t, arr_idx = n, arr_total = n\<rparr>"
  have inv_t: "array_inv \<lparr>arr_table = Some t, arr_idx = n, arr_total = n\<rparr>"
    using assms(1) a by simp
  show ?thesis
    using inv_t
  proof (cases rule: find_key_index_cases [where key = "kd k"])
    case miss
    then show ?thesis using assms(2) by (simp add: a)
  next
    case (hit i)
    then show ?thesis
      using array_remove [OF inv_t hit(2), of k]
      by (cases "i = n - 1") (auto simp: kvs_array_del_def a Let_def)
  qed
qed

lemma array_find_contents:
  assumes "array_inv a"
  shows "array_contents a k = None \<longleftrightarrow> find_key_index a (kd k) = None"
  using assms by (rule array_invE) (simp add: array_contents_def)

interpretation arr: kv_engine array_inv "\<lambda>k. k \<noteq> []" array_contents
  kvs_array_set kvs_array_get kvs_array_del kvs_array_exist kvs_array_del_if_expired
proof (unfold_locales, goal_cases)
  case (1 s k ok v e r s')
  then show ?case using kvs_array_set_spec(1) by blast
next
  case (2 s k ok v e s')
  then show ?case using kvs_array_set_spec(2) by blast
next
  case (3 s k ok v e r s' k')
  then show ?case using kvs_array_set_spec(3) by blast
next
  case (4 s k ttl now)
  then show ?case
    by (elim array_invE) (auto simp: kvs_array_get_def array_contents_def)
next
  case (5 s k v e ttl now)
  then show ?case
    by (elim array_invE) (auto simp: kvs_array_get_def array_contents_def expired_def)
next
  case (6 s k v e ttl now)
  then show ?case
    by (elim array_invE) (auto simp: kvs_array_get_def array_contents_def expired_def)
next
  case (7 s k)
  then show ?case
    by (elim array_invE) (auto simp: kvs_array_del_def array_contents_def)
next
  case (8 s k ent)
  then show ?case using kvs_array_del_hit by blast
next
  case (9 s ttl now k)
  show ?case
    by (simp add: kvs_array_exist_def split: prod.split)
next
  case (10 s k x)
  then show ?case
    by (elim array_invE) (auto simp: kvs_array_del_if_expired_def array_contents_def split: option.split)
qed

lemma kvs_array_create_inv:
  "kvs_array_create True array_static = (0, a) \<Longrightarrow> array_inv a \<and> array_contents a = (\<lambda>_. None)"
  by (auto simp: kvs_array_create_def array_static_def array_inv_iff array_contents_def
      find_key_index_def)

section \<open>Properties\<close>

text \<open>
  C1. The array engine implements the abstract map: any sequence of SET, GET (with its lazy
  expiry), DEL and timer deletions on non-empty keys that reports no failed SET leaves the
  engine with exactly the contents the abstract map has after the same operations, and keeps
  its invariant.
\<close>

theorem array_refines_map:
  assumes "array_inv s" and "\<forall>x\<in>set xs. op_key x \<noteq> []"
    and "run_ops (kvs_array_set ok) kvs_array_get kvs_array_del kvs_array_del_if_expired s xs = Some s'"
  shows "array_inv s' \<and> array_contents s' = foldl spec_op (array_contents s) xs"
  using assms by (rule arr.run_ops_refines)

definition array_demo :: "kvs_array option" where
  "array_demo =
     run_ops (kvs_array_set always_ok) kvs_array_get kvs_array_del kvs_array_del_if_expired
       (snd (kvs_array_create True array_static))
       [OpSet ''a'' ''1'' 0, OpSet ''b'' ''2'' 5, OpDel ''a'', OpDelIfExpired ''b'' 7]"

lemma array_demo_runs: "array_demo \<noteq> None"
  by (simp add: array_demo_def kvs_array_set_def kvs_array_create_def array_static_def
      find_key_index_def kv_data_dup_True KVS_ARRAY_SIZE_def kbytes_def)

theorem array_refines_map_witness:
  "\<exists>s'. array_demo = Some s' \<and> array_contents s' ''a'' = None \<and> array_contents s' ''b'' = Some (''2'', 5)"
proof -
  obtain s' where s': "array_demo = Some s'"
    using array_demo_runs by blast
  have "array_inv (snd (kvs_array_create True array_static))"
    and start: "array_contents (snd (kvs_array_create True array_static)) = (\<lambda>_. None)"
    using kvs_array_create_inv by (simp_all add: kvs_array_create_def array_static_def)
  then have "array_contents s' = foldl spec_op (\<lambda>_. None)
      [OpSet ''a'' ''1'' 0, OpSet ''b'' ''2'' 5, OpDel ''a'', OpDelIfExpired ''b'' 7]"
    using array_refines_map [OF _ _ s' [unfolded array_demo_def]] by (simp add: start)
  with s' show ?thesis by (intro exI [of _ s']) simp
qed

end
