(* ===== verification/Kvs_Hash.thy ===== *)
theory Kvs_Hash
  imports Kv_Engine
begin

text \<open>
  \<^verbatim>\<open>kvs_hash.c\<close>: the chained hash table with growth, shrinking and the cached hash of each
  node. A bucket is the list of the nodes of its chain, head first. The guards on the
  address of a node (\<open>(uintptr_t)node < 0x1000\<close>) only fire on corrupted memory, which the
  model has none of. \<open>hash_inv\<close> keeps the number of buckets a power of two between 16 and
  \<open>2^30\<close>, every node in the bucket of its hash, keys unique and \<open>count\<close> exact; the table is an
  instance of \<open>kv_engine\<close>. The last section covers the comma-separated ID lists.
\<close>

record hashnode =
  hexpire_time :: int
  hkey :: kv_data
  hvalue :: kv_data

record kvs_hash =
  buckets :: "hashnode list list option"
  max_slots :: int
  hcount :: int

definition INIT_HASH_SLOTS :: int where
  "INIT_HASH_SLOTS = 16"

definition hash_static :: kvs_hash where
  "hash_static = \<lparr>buckets = None, max_slots = 0, hcount = 0\<rparr>"

text \<open>Pushing one node on the bucket \<open>hash_cache & (new_slots - 1)\<close>.\<close>

definition rehash_node :: "int \<Rightarrow> hashnode list list \<Rightarrow> hashnode \<Rightarrow> hashnode list list" where
  "rehash_node slots nb n =
     (let h = unat (hash_cache (hkey n) AND word_of_int (slots - 1)) in nb[h := n # nb ! h])"

definition kvs_hash_resize :: "bool \<Rightarrow> kvs_hash \<Rightarrow> int \<Rightarrow> int \<times> kvs_hash" where
  "kvs_hash_resize m hash new_slots =
     (if new_slots < INIT_HASH_SLOTS then (-1, hash)
      else if \<not> m then (-1, hash)
      else case buckets hash of
        None \<Rightarrow> (-1, hash)
      | Some bs \<Rightarrow>
          (0, hash\<lparr>buckets :=
                 Some (foldl (foldl (rehash_node new_slots)) (replicate (nat new_slots) []) bs),
               max_slots := new_slots\<rparr>))"

definition kvs_hash_create :: "bool \<Rightarrow> kvs_hash \<Rightarrow> int \<times> kvs_hash" where
  "kvs_hash_create m hash =
     (let hash1 = hash\<lparr>max_slots := INIT_HASH_SLOTS, hcount := 0\<rparr>
      in if m then (0, hash1\<lparr>buckets := Some (replicate (nat INIT_HASH_SLOTS) [])\<rparr>)
         else (-1, hash1\<lparr>buckets := None\<rparr>))"

definition kvs_hash_destroy :: "kvs_hash \<Rightarrow> kvs_hash" where
  "kvs_hash_destroy hash =
     (case buckets hash of None \<Rightarrow> hash | Some _ \<Rightarrow> \<lparr>buckets = None, max_slots = 0, hcount = 0\<rparr>)"

text \<open>\<open>hash_create_node\<close> copies key and value into the node; \<open>data\<close> is never NULL there.\<close>

definition hash_create_node :: "kv_data \<Rightarrow> kv_data \<Rightarrow> int \<Rightarrow> hashnode" where
  "hash_create_node key value expire =
     \<lparr>hexpire_time = expire,
      hkey = \<lparr>kdata = Some (kbytes key), hash_cache = hash_cache key\<rparr>,
      hvalue = \<lparr>kdata = Some (kbytes value), hash_cache = 0\<rparr>\<rparr>"

text \<open>The chain walks: first node with the key, removal of it, overwrite of it in place.\<close>

fun chain_search :: "kv_data \<Rightarrow> hashnode list \<Rightarrow> hashnode option" where
  "chain_search key [] = None"
| "chain_search key (n # ns) =
     (if kv_data_compare (hkey n) key = 0 then Some n else chain_search key ns)"

fun chain_remove :: "kv_data \<Rightarrow> hashnode list \<Rightarrow> hashnode list" where
  "chain_remove key [] = []"
| "chain_remove key (n # ns) =
     (if kv_data_compare (hkey n) key = 0 then ns else n # chain_remove key ns)"

fun chain_write :: "kv_data \<Rightarrow> kv_data \<Rightarrow> int \<Rightarrow> hashnode list \<Rightarrow> hashnode list" where
  "chain_write key value expire [] = []"
| "chain_write key value expire (n # ns) =
     (if kv_data_compare (hkey n) key = 0
      then n\<lparr>hvalue := (hvalue n)\<lparr>kdata := Some (kbytes value)\<rparr>, hexpire_time := expire\<rparr> # ns
      else n # chain_write key value expire ns)"

text \<open>
  \<open>kvs_hash_set\<close>. Allocation sites: 0 the new bucket array, 1 the node that replaces a
  shorter one, 2 a new node. Doubling \<open>max_slots\<close> is 32-bit signed arithmetic.
\<close>

definition kvs_hash_set ::
  "alloc_env \<Rightarrow> kvs_hash \<Rightarrow> kv_data \<Rightarrow> kv_data \<Rightarrow> int \<Rightarrow> int \<times> kvs_hash" where
  "kvs_hash_set ok hash key value expire =
     (if buckets hash = None then (-1, hash) else
      let (rret, hash1) =
            (if hcount hash \<ge> max_slots hash
             then kvs_hash_resize (ok 0) hash (i32 (max_slots hash * 2)) else (0, hash))
      in if rret \<noteq> 0 then (-1, hash1) else
      let (hw, key') = kv_data_hash key (max_slots hash1); h = unat hw
      in if int h \<ge> max_slots hash1 then (-1, hash1) else
      let bs = the (buckets hash1); chain = bs ! h
      in case chain_search key' chain of
        Some node \<Rightarrow>
          if klen value \<le> klen (hvalue node)
          then (0, hash1\<lparr>buckets := Some (bs[h := chain_write key' value expire chain])\<rparr>)
          else
            let chain1 = chain_remove key' chain;
                hash2 = hash1\<lparr>buckets := Some (bs[h := chain1]), hcount := hcount hash1 - 1\<rparr>
            in if \<not> ok 1 then (-1, hash2)
               else (0, hash2\<lparr>buckets := Some (bs[h := hash_create_node key' value expire # chain1]),
                              hcount := hcount hash2 + 1\<rparr>)
      | None \<Rightarrow>
          if \<not> ok 2 then (-1, hash1)
          else (0, hash1\<lparr>buckets := Some (bs[h := hash_create_node key' value expire # chain]),
                         hcount := hcount hash1 + 1\<rparr>))"

definition kvs_hash_mod ::
  "alloc_env \<Rightarrow> kvs_hash \<Rightarrow> kv_data \<Rightarrow> kv_data \<Rightarrow> int \<Rightarrow> int \<times> kvs_hash" where
  "kvs_hash_mod ok hash key value expire = kvs_hash_set ok hash key value expire"

text \<open>\<open>kvs_hash_del\<close>; \<open>m\<close> is the outcome of the allocation of a shrinking resize.\<close>

definition kvs_hash_del :: "bool \<Rightarrow> kvs_hash \<Rightarrow> kv_data \<Rightarrow> int \<times> kvs_hash" where
  "kvs_hash_del m hash key =
     (case buckets hash of None \<Rightarrow> (-1, hash) | Some bs \<Rightarrow>
      let (hw, key') = kv_data_hash key (max_slots hash); h = unat hw
      in if int h \<ge> max_slots hash then (-1, hash) else
      case chain_search key' (bs ! h) of
        None \<Rightarrow> (1, hash)
      | Some node \<Rightarrow>
          let hash1 = hash\<lparr>buckets := Some (bs[h := chain_remove key' (bs ! h)]), hcount := hcount hash - 1\<rparr>
          in (0, if hcount hash1 < max_slots hash1 div 4 \<and> max_slots hash1 > INIT_HASH_SLOTS
                 then snd (kvs_hash_resize m hash1 (max_slots hash1 div 2)) else hash1))"

definition kvs_hash_get :: "bool \<Rightarrow> bool \<Rightarrow> int \<Rightarrow> kvs_hash \<Rightarrow> kv_data \<Rightarrow> kv_data option \<times> kvs_hash" where
  "kvs_hash_get m ttl now hash key =
     (case buckets hash of None \<Rightarrow> (None, hash) | Some bs \<Rightarrow>
      let (hw, key') = kv_data_hash key (max_slots hash); h = unat hw
      in if int h \<ge> max_slots hash then (None, hash) else
      case chain_search key' (bs ! h) of
        None \<Rightarrow> (None, hash)
      | Some node \<Rightarrow>
          if ttl \<and> hexpire_time node > 0 \<and> now > hexpire_time node
          then (None, snd (kvs_hash_del m hash key'))
          else (Some (hvalue node), hash))"

definition kvs_hash_del_if_expired :: "bool \<Rightarrow> kvs_hash \<Rightarrow> kv_data \<Rightarrow> int \<Rightarrow> int \<times> kvs_hash" where
  "kvs_hash_del_if_expired m hash key expected =
     (case buckets hash of None \<Rightarrow> (0, hash) | Some bs \<Rightarrow>
      let (hw, key') = kv_data_hash key (max_slots hash); h = unat hw
      in if int h \<ge> max_slots hash then (0, hash) else
      case chain_search key' (bs ! h) of
        None \<Rightarrow> (0, hash)
      | Some node \<Rightarrow>
          if hexpire_time node = expected then (1, snd (kvs_hash_del m hash key')) else (0, hash))"

definition kvs_hash_exist :: "bool \<Rightarrow> bool \<Rightarrow> int \<Rightarrow> kvs_hash \<Rightarrow> kv_data \<Rightarrow> int \<times> kvs_hash" where
  "kvs_hash_exist m ttl now hash key =
     (case buckets hash of None \<Rightarrow> (1, hash) | Some bs \<Rightarrow>
      let (hw, key') = kv_data_hash key (max_slots hash); h = unat hw
      in if int h \<ge> max_slots hash then (1, hash) else
      case chain_search key' (bs ! h) of
        None \<Rightarrow> (1, hash)
      | Some node \<Rightarrow>
          if ttl \<and> hexpire_time node > 0 \<and> now > hexpire_time node
          then (1, snd (kvs_hash_del m hash key'))
          else (0, hash))"

definition kvs_hash_get_value_len :: "bool \<Rightarrow> bool \<Rightarrow> int \<Rightarrow> kvs_hash \<Rightarrow> kv_data \<Rightarrow> int \<times> kvs_hash" where
  "kvs_hash_get_value_len m ttl now hash key =
     (case kvs_hash_get m ttl now hash key of
        (Some v, hash') \<Rightarrow> (i32 (int (klen v)), hash')
      | (None, hash') \<Rightarrow> (-1, hash'))"

text \<open>The nodes the callback of \<open>kvs_hash_foreach\<close> is called on, in order.\<close>

definition kvs_hash_foreach :: "bool \<Rightarrow> int \<Rightarrow> kvs_hash \<Rightarrow> hashnode list" where
  "kvs_hash_foreach ttl now hash =
     (case buckets hash of None \<Rightarrow> [] | Some bs \<Rightarrow>
        filter (\<lambda>n. \<not> (ttl \<and> hexpire_time n > 0 \<and> now > hexpire_time n)) (concat bs))"

section \<open>Invariant and abstraction\<close>

abbreviation nkey :: "hashnode \<Rightarrow> bytes" where
  "nkey n \<equiv> kbytes (hkey n)"

definition node_entry :: "hashnode \<Rightarrow> entry" where
  "node_entry n = (kbytes (hvalue n), hexpire_time n)"

definition node_ok :: "int \<Rightarrow> nat \<Rightarrow> hashnode \<Rightarrow> bool" where
  "node_ok slots i n \<longleftrightarrow> hash_cache (hkey n) = kv_hash_short (nkey n) \<and> unat (key_slot (nkey n) slots) = i"

definition uniq_keys :: "hashnode list \<Rightarrow> bool" where
  "uniq_keys c \<longleftrightarrow> (\<forall>k. length (filter (\<lambda>n. nkey n = k) c) \<le> 1)"

definition slots_ok :: "int \<Rightarrow> bool" where
  "slots_ok s \<longleftrightarrow> (\<exists>k\<le>26. s = 16 * 2 ^ k)"

definition buckets_ok :: "int \<Rightarrow> hashnode list list \<Rightarrow> bool" where
  "buckets_ok slots bs \<longleftrightarrow> int (length bs) = slots \<and>
     (\<forall>i<length bs. uniq_keys (bs ! i) \<and> (\<forall>n\<in>set (bs ! i). node_ok slots i n))"

definition hash_inv :: "kvs_hash \<Rightarrow> bool" where
  "hash_inv h \<longleftrightarrow> (\<exists>bs. buckets h = Some bs \<and> slots_ok (max_slots h) \<and>
     buckets_ok (max_slots h) bs \<and> hcount h = int (length (concat bs)))"

definition bucket_lookup :: "int \<Rightarrow> hashnode list list \<Rightarrow> store_map" where
  "bucket_lookup slots bs k = map_option node_entry (chain_search (kd k) (bs ! unat (key_slot k slots)))"

definition hash_contents :: "kvs_hash \<Rightarrow> store_map" where
  "hash_contents h k = (case buckets h of None \<Rightarrow> None | Some bs \<Rightarrow> bucket_lookup (max_slots h) bs k)"

section \<open>Chains\<close>

lemma chain_search_filter:
  "chain_search key c = (case filter (\<lambda>n. nkey n = kbytes key) c of [] \<Rightarrow> None | n # _ \<Rightarrow> Some n)"
  by (induction c) auto

lemma chain_search_key: "kbytes key = k \<Longrightarrow> chain_search key c = chain_search (kd k) c"
  by (simp add: chain_search_filter)

lemma chain_search_Some: "chain_search key c = Some n \<Longrightarrow> n \<in> set c \<and> nkey n = kbytes key"
  by (induction c) (auto split: if_splits)

lemma filter_chain_remove:
  "filter (\<lambda>n. nkey n = k) (chain_remove key c) =
     (if k = kbytes key then tl (filter (\<lambda>n. nkey n = k) c) else filter (\<lambda>n. nkey n = k) c)"
  by (induction c) auto

lemma uniq_keys_remove: "uniq_keys c \<Longrightarrow> uniq_keys (chain_remove key c)"
  unfolding uniq_keys_def filter_chain_remove by (auto intro: le_trans [OF diff_le_self])

lemma set_chain_remove: "set (chain_remove key c) \<subseteq> set c"
  by (induction c) auto

lemma length_chain_remove:
  "chain_search key c \<noteq> None \<Longrightarrow> Suc (length (chain_remove key c)) = length c"
  by (induction c) auto

lemma chain_search_remove:
  assumes "uniq_keys c"
  shows "chain_search (kd k) (chain_remove key c) =
    (if k = kbytes key then None else chain_search (kd k) c)"
proof -
  have "tl (filter (\<lambda>n. nkey n = kbytes key) c) = []"
    using assms unfolding uniq_keys_def
    by (metis One_nat_def diff_is_0_eq length_0_conv length_tl)
  then show ?thesis
    by (simp add: chain_search_filter filter_chain_remove)
qed

lemma filter_chain_write:
  "filter (\<lambda>n. nkey n = k) (chain_write key v e c) =
     (if k = kbytes key then chain_write key v e (filter (\<lambda>n. nkey n = k) c)
      else filter (\<lambda>n. nkey n = k) c)"
  by (induction c) auto

lemma length_chain_write [simp]: "length (chain_write key v e c) = length c"
  by (induction c) auto

lemma uniq_keys_write: "uniq_keys c \<Longrightarrow> uniq_keys (chain_write key v e c)"
  unfolding uniq_keys_def filter_chain_write by simp

lemma node_ok_payload [simp]: "node_ok s i (n\<lparr>hvalue := v, hexpire_time := e\<rparr>) = node_ok s i n"
  by (simp add: node_ok_def)

lemma node_ok_write:
  "\<forall>n\<in>set c. node_ok s i n \<Longrightarrow> \<forall>n\<in>set (chain_write key v e c). node_ok s i n"
  by (induction c) auto

lemma chain_search_write:
  "chain_search key c = Some n \<Longrightarrow>
   map_option node_entry (chain_search (kd k) (chain_write key v e c)) =
     (if k = kbytes key then Some (kbytes v, e) else map_option node_entry (chain_search (kd k) c))"
  by (induction c) (auto simp: node_entry_def kbytes_def split: if_splits)

lemma uniq_keys_Cons:
  "uniq_keys c \<Longrightarrow> chain_search (kd (nkey n)) c = None \<Longrightarrow> uniq_keys (n # c)"
  unfolding uniq_keys_def by (auto simp: chain_search_filter split: list.splits)

section \<open>Buckets\<close>

lemma slots_okD:
  assumes "slots_ok s"
  shows "16 \<le> s" "s \<le> 2 ^ 30" "0 < s" "s < 2 ^ 63"
proof -
  from assms obtain k where k: "k \<le> 26" "s = 16 * 2 ^ k"
    by (auto simp: slots_ok_def)
  then have "(1::int) \<le> 2 ^ k" "(2::int) ^ k \<le> 2 ^ 26"
    using power_increasing [of k 26 "2::int"] by simp_all
  with k show "16 \<le> s" "s \<le> 2 ^ 30" "0 < s" "s < 2 ^ 63" by simp_all
qed

lemma slots_ok_double: "slots_ok s \<Longrightarrow> s < 2 ^ 30 \<Longrightarrow> slots_ok (s * 2)"
proof -
  assume "slots_ok s" "s < 2 ^ 30"
  then obtain k where k: "k \<le> 26" "s = 16 * 2 ^ k"
    by (auto simp: slots_ok_def)
  with \<open>s < 2 ^ 30\<close> have "k \<noteq> 26" by auto
  with k show ?thesis
    unfolding slots_ok_def by (intro exI [of _ "Suc k"]) simp
qed

lemma slots_ok_half: "slots_ok s \<Longrightarrow> 16 < s \<Longrightarrow> slots_ok (s div 2)"
proof -
  assume "slots_ok s" "16 < s"
  then obtain k where k: "k \<le> 26" "s = 16 * 2 ^ k"
    by (auto simp: slots_ok_def)
  with \<open>16 < s\<close> obtain j where "k = Suc j" by (cases k) auto
  with k show ?thesis
    unfolding slots_ok_def by (intro exI [of _ j]) simp
qed

lemma length_concat_update:
  "i < length bs \<Longrightarrow> length (concat (bs[i := c])) + length (bs ! i) = length (concat bs) + length c"
proof (induction bs arbitrary: i)
  case (Cons b bs)
  then show ?case by (cases i) auto
qed simp

lemma slot_in_range:
  "buckets_ok s bs \<Longrightarrow> slots_ok s \<Longrightarrow> unat (key_slot k s) < length bs"
  using key_slot_less [of s k] slots_okD [of s] by (auto simp: buckets_ok_def)

lemma buckets_ok_update:
  assumes "buckets_ok s bs" and "i < length bs" and "uniq_keys c" and "\<forall>n\<in>set c. node_ok s i n"
  shows "buckets_ok s (bs[i := c])"
  using assms unfolding buckets_ok_def by (auto simp: nth_list_update)

lemma bucket_lookup_update:
  assumes "i < length bs"
  shows "bucket_lookup s (bs[i := c]) k =
    (if unat (key_slot k s) = i then map_option node_entry (chain_search (kd k) c)
     else bucket_lookup s bs k)"
  using assms by (auto simp: bucket_lookup_def)

lemma chain_search_wrong_bucket:
  assumes "\<forall>n\<in>set c. node_ok s i n" and "unat (key_slot k s) \<noteq> i"
  shows "filter (\<lambda>n. nkey n = k) c = []"
  using assms by (auto simp: node_ok_def filter_empty_conv)

text \<open>All nodes of a key are in the bucket of its slot.\<close>

lemma filter_concat_bucket:
  assumes ok: "buckets_ok s bs" and i: "unat (key_slot k s) < length bs"
  shows "filter (\<lambda>n. nkey n = k) (concat bs) = filter (\<lambda>n. nkey n = k) (bs ! unat (key_slot k s))"
proof -
  let ?i = "unat (key_slot k s)"
  have other: "filter (\<lambda>n. nkey n = k) (bs ! j) = []" if "j < length bs" "j \<noteq> ?i" for j
    using ok that by (intro chain_search_wrong_bucket [of _ s j]) (auto simp: buckets_ok_def)
  have "filter (\<lambda>n. nkey n = k) c = []" if "c \<in> set (take ?i bs)" for c
    using that other by (auto simp: in_set_conv_nth)
  then have "filter (\<lambda>n. nkey n = k) (concat (take ?i bs)) = []"
    by (simp add: filter_concat concat_eq_Nil_conv)
  moreover have "filter (\<lambda>n. nkey n = k) c = []" if "c \<in> set (drop (Suc ?i) bs)" for c
    using that other by (auto simp: in_set_conv_nth)
  then have "filter (\<lambda>n. nkey n = k) (concat (drop (Suc ?i) bs)) = []"
    by (simp add: filter_concat concat_eq_Nil_conv)
  moreover have "concat bs = concat (take ?i bs) @ bs ! ?i @ concat (drop (Suc ?i) bs)"
    using id_take_nth_drop [OF i] by (metis concat.simps(2) concat_append)
  ultimately show ?thesis
    by simp
qed

section \<open>Resizing\<close>

lemma foldl_foldl_concat: "foldl (foldl f) z bs = foldl f z (concat bs)"
  by (induction bs arbitrary: z) auto

lemma length_rehash [simp]: "length (foldl (rehash_node s) nb ns) = length nb"
  by (induction ns arbitrary: nb) (auto simp: rehash_node_def Let_def)

lemma rehash_nth:
  assumes "j < length nb"
  shows "foldl (rehash_node s) nb ns ! j =
    rev (filter (\<lambda>n. unat (hash_cache (hkey n) AND word_of_int (s - 1)) = j) ns) @ nb ! j"
  using assms
  by (induction ns arbitrary: nb) (auto simp: rehash_node_def Let_def nth_list_update)

lemma rehash_count:
  assumes "\<forall>n\<in>set ns. unat (hash_cache (hkey n) AND word_of_int (s - 1)) < length nb"
  shows "length (concat (foldl (rehash_node s) nb ns)) = length (concat nb) + length ns"
  using assms
proof (induction ns arbitrary: nb)
  case (Cons n ns)
  let ?h = "unat (hash_cache (hkey n) AND word_of_int (s - 1))"
  have "length (concat (rehash_node s nb n)) = Suc (length (concat nb))"
    using length_concat_update [of ?h nb "n # nb ! ?h"] Cons.prems
    by (simp add: rehash_node_def Let_def)
  moreover have "length (rehash_node s nb n) = length nb"
    by (simp add: rehash_node_def Let_def)
  ultimately show ?case
    using Cons by simp
qed simp

lemma rehash_ok:
  assumes ok: "buckets_ok s bs" "slots_ok s" "slots_ok s'"
  defines "nb \<equiv> foldl (foldl (rehash_node s')) (replicate (nat s') []) bs"
  shows "buckets_ok s' nb" and "bucket_lookup s' nb = bucket_lookup s bs"
    and "length (concat nb) = length (concat bs)"
proof -
  let ?slot = "\<lambda>n. unat (key_slot (nkey n) s')"
  have cache: "hash_cache (hkey n) = kv_hash_short (nkey n)" if "n \<in> set (concat bs)" for n
    using that ok(1) unfolding buckets_ok_def node_ok_def
    by (metis (no_types, lifting) UN_iff in_set_conv_nth set_concat)
  have slot: "unat (hash_cache (hkey n) AND word_of_int (s' - 1)) = ?slot n" if "n \<in> set (concat bs)" for n
    using cache [OF that] by (simp add: key_slot_def)
  have s': "0 < s'" "s' < 2 ^ 63" using slots_okD [OF ok(3)] by auto
  have nb: "nb = foldl (rehash_node s') (replicate (nat s') []) (concat bs)"
    by (simp add: nb_def foldl_foldl_concat)
  have len: "length nb = nat s'" by (simp add: nb)
  have at: "nb ! j = rev (filter (\<lambda>n. ?slot n = j) (concat bs))" if "j < nat s'" for j
  proof -
    have "filter (\<lambda>n. unat (hash_cache (hkey n) AND word_of_int (s' - 1)) = j) (concat bs) =
        filter (\<lambda>n. ?slot n = j) (concat bs)"
      by (rule filter_cong [OF refl]) (simp only: slot)
    then show ?thesis
      using that by (simp add: nb rehash_nth)
  qed
  have flt: "filter (\<lambda>n. nkey n = k) (concat bs) = filter (\<lambda>n. nkey n = k) (bs ! unat (key_slot k s))" for k
    using filter_concat_bucket slot_in_range ok by blast
  have one: "length (filter (\<lambda>n. nkey n = k) (concat bs)) \<le> 1" for k
    using ok(1) slot_in_range [OF ok(1,2)] by (simp add: flt buckets_ok_def uniq_keys_def)
  have uniq: "uniq_keys (nb ! j)" if "j < nat s'" for j
    unfolding uniq_keys_def
  proof
    fix k
    have "length (filter (\<lambda>n. nkey n = k) (nb ! j)) \<le> length (filter (\<lambda>n. nkey n = k) (concat bs))"
      using that length_filter_le [of "\<lambda>n. ?slot n = j" "filter (\<lambda>n. nkey n = k) (concat bs)"]
      by (simp add: at rev_filter [symmetric] conj_commute)
    then show "length (filter (\<lambda>n. nkey n = k) (nb ! j)) \<le> 1"
      using one [of k] by linarith
  qed
  show "buckets_ok s' nb"
    unfolding buckets_ok_def len
    using s' uniq at cache by (auto simp: node_ok_def)
  show "bucket_lookup s' nb = bucket_lookup s bs"
  proof
    fix k
    let ?j = "unat (key_slot k s')"
    have j: "?j < nat s'" using key_slot_less s' by blast
    have "filter (\<lambda>n. nkey n = k) (nb ! ?j) = rev (filter (\<lambda>n. nkey n = k) (concat bs))"
      by (simp add: at [OF j] rev_filter [symmetric]) (rule filter_cong, auto)
    also have "\<dots> = filter (\<lambda>n. nkey n = k) (concat bs)"
      using one [of k] by (cases "filter (\<lambda>n. nkey n = k) (concat bs)") auto
    finally show "bucket_lookup s' nb k = bucket_lookup s bs k"
      by (simp add: bucket_lookup_def chain_search_filter flt)
  qed
  have "\<forall>n\<in>set (concat bs). unat (hash_cache (hkey n) AND word_of_int (s' - 1)) < length (replicate (nat s') ([] :: hashnode list))"
    using slot key_slot_less s' by auto
  then show "length (concat nb) = length (concat bs)"
    using rehash_count by (fastforce simp: nb)
qed

lemma hash_invE:
  assumes "hash_inv h"
  obtains bs s where "h = \<lparr>buckets = Some bs, max_slots = s, hcount = int (length (concat bs))\<rparr>"
    and "slots_ok s" and "buckets_ok s bs"
  using assms unfolding hash_inv_def by (cases h) auto

lemma kvs_hash_resize_spec:
  assumes "hash_inv h" and "slots_ok s'" and "kvs_hash_resize m h s' = (r, h')"
  shows "hash_inv h'" and "hash_contents h' = hash_contents h"
proof -
  obtain bs s where h: "h = \<lparr>buckets = Some bs, max_slots = s, hcount = int (length (concat bs))\<rparr>"
    and ok: "slots_ok s" "buckets_ok s bs"
    using assms(1) by (rule hash_invE)
  have "16 \<le> s'" using slots_okD assms(2) by blast
  then show "hash_inv h'" "hash_contents h' = hash_contents h"
    using rehash_ok [OF ok(2,1) assms(2)] assms
    by (auto simp: kvs_hash_resize_def INIT_HASH_SLOTS_def h hash_inv_def hash_contents_def fun_eq_iff
        split: if_splits)
qed

section \<open>The operations\<close>

text \<open>Replacing the bucket of a slot, the step every operation ends with.\<close>

lemma hash_replace_bucket:
  assumes h: "h = \<lparr>buckets = Some bs, max_slots = s, hcount = int (length (concat bs))\<rparr>"
    and ok: "slots_ok s" "buckets_ok s bs" and i: "i = unat (key_slot k s)"
    and c: "uniq_keys c" "\<forall>n\<in>set c. node_ok s i n"
    and upd: "\<And>k'. map_option node_entry (chain_search (kd k') c) =
        (if k' = k then x else map_option node_entry (chain_search (kd k') (bs ! i)))"
  defines "h' \<equiv> \<lparr>buckets = Some (bs[i := c]), max_slots = s,
      hcount = int (length (concat bs)) - int (length (bs ! i)) + int (length c)\<rparr>"
  shows "hash_inv h'" and "hash_contents h' = (hash_contents h)(k := x)"
proof -
  have i': "i < length bs" using slot_in_range ok i by blast
  then show "hash_inv h'"
    using ok buckets_ok_update [OF ok(2) i' c] length_concat_update [OF i', of c]
    by (simp add: hash_inv_def h'_def)
  show "hash_contents h' = (hash_contents h)(k := x)"
  proof
    fix k'
    have "hash_contents h' k' =
        (if unat (key_slot k' s) = i then map_option node_entry (chain_search (kd k') c)
         else bucket_lookup s bs k')"
      by (simp add: h'_def hash_contents_def bucket_lookup_update [OF i'])
    then show "hash_contents h' k' = ((hash_contents h)(k := x)) k'"
      using i upd [of k'] by (auto simp: h hash_contents_def bucket_lookup_def)
  qed
qed

lemma hash_slot_kd:
  "slots_ok s \<Longrightarrow> kv_data_hash (kd k) s = (key_slot k s, \<lparr>kdata = Some k, hash_cache = kv_hash_short k\<rparr>)"
  using kv_data_hash_consistent [OF hash_consistent_kd, of s k] slots_okD [of s] by (simp add: kd_def)

lemma hash_slot_cached:
  "slots_ok s \<Longrightarrow> kv_data_hash \<lparr>kdata = Some k, hash_cache = kv_hash_short k\<rparr> s =
     (key_slot k s, \<lparr>kdata = Some k, hash_cache = kv_hash_short k\<rparr>)"
  using kv_data_hash_consistent [of "\<lparr>kdata = Some k, hash_cache = kv_hash_short k\<rparr>" s] slots_okD [of s]
  by (simp add: hash_consistent_def)

lemma node_ok_create:
  "node_ok s (unat (key_slot k s)) (hash_create_node \<lparr>kdata = Some k, hash_cache = kv_hash_short k\<rparr> v e)"
  by (simp add: node_ok_def hash_create_node_def)

lemma node_create_simps [simp]:
  "nkey (hash_create_node key v e) = kbytes key" "node_entry (hash_create_node key v e) = (kbytes v, e)"
  by (simp_all add: hash_create_node_def node_entry_def)

text \<open>A table with room or after a successful growth: the insertion proper.\<close>

definition hash_insert ::
  "alloc_env \<Rightarrow> kvs_hash \<Rightarrow> kv_data \<Rightarrow> kv_data \<Rightarrow> int \<Rightarrow> int \<times> kvs_hash" where
  "hash_insert ok hash1 key value expire =
     (let (hw, key') = kv_data_hash key (max_slots hash1); h = unat hw
      in if int h \<ge> max_slots hash1 then (-1, hash1) else
      let bs = the (buckets hash1); chain = bs ! h
      in case chain_search key' chain of
        Some node \<Rightarrow>
          if klen value \<le> klen (hvalue node)
          then (0, hash1\<lparr>buckets := Some (bs[h := chain_write key' value expire chain])\<rparr>)
          else
            let chain1 = chain_remove key' chain;
                hash2 = hash1\<lparr>buckets := Some (bs[h := chain1]), hcount := hcount hash1 - 1\<rparr>
            in if \<not> ok 1 then (-1, hash2)
               else (0, hash2\<lparr>buckets := Some (bs[h := hash_create_node key' value expire # chain1]),
                              hcount := hcount hash2 + 1\<rparr>)
      | None \<Rightarrow>
          if \<not> ok 2 then (-1, hash1)
          else (0, hash1\<lparr>buckets := Some (bs[h := hash_create_node key' value expire # chain]),
                         hcount := hcount hash1 + 1\<rparr>))"

lemma kvs_hash_set_insert:
  assumes "hash_inv h"
  shows "kvs_hash_set ok h key value e =
    (if hcount h \<ge> max_slots h then
       (let (r, h1) = kvs_hash_resize (ok 0) h (i32 (max_slots h * 2))
        in if r \<noteq> 0 then (-1, h1) else hash_insert ok h1 key value e)
     else hash_insert ok h key value e)"
  using assms by (auto simp: kvs_hash_set_def hash_insert_def hash_inv_def Let_def split: prod.splits)

lemma hash_insert_spec:
  assumes inv: "hash_inv h" and ins: "hash_insert ok h (kd k) (kd v) e = (r, h')"
  shows "hash_inv h' \<and> (r = 0 \<longrightarrow> hash_contents h' = (hash_contents h)(k \<mapsto> (v, e))) \<and>
    (\<forall>k'. k' \<noteq> k \<longrightarrow> hash_contents h' k' = hash_contents h k')"
  using inv
proof (rule hash_invE)
  fix bs s
  assume h: "h = \<lparr>buckets = Some bs, max_slots = s, hcount = int (length (concat bs))\<rparr>"
    and ok: "slots_ok s" "buckets_ok s bs"
  define i where "i = unat (key_slot k s)"
  define key where "key = \<lparr>kdata = Some k, hash_cache = kv_hash_short k\<rparr>"
  have kb: "kbytes key = k" by (simp add: key_def)
  have i: "i < length bs" using slot_in_range ok i_def by blast
  moreover have "uint (key_slot k s) = int i" by (simp add: i_def)
  ultimately have ni: "\<not> uint (key_slot k s) \<ge> s" using ok(2) by (auto simp: buckets_ok_def)
  have bucket: "uniq_keys (bs ! i)" "\<forall>n\<in>set (bs ! i). node_ok s i n"
    using ok(2) i by (auto simp: buckets_ok_def)
  let ?new = "hash_create_node key (kd v) e"
  have hashed: "kv_data_hash (kd k) s = (key_slot k s, key)"
    using hash_slot_kd ok(1) by (simp add: key_def)
  note replace = hash_replace_bucket [OF h ok i_def]
  show ?thesis
  proof (cases "chain_search key (bs ! i)")
    case None
    then have none: "chain_search (kd k) (bs ! i) = None"
      using chain_search_key [OF kb] by simp
    let ?hN = "\<lparr>buckets = Some (bs[i := ?new # bs ! i]), max_slots = s,
        hcount = int (length (concat bs)) + 1\<rparr>"
    have "uniq_keys (?new # bs ! i)"
      using bucket(1) none by (intro uniq_keys_Cons) (simp_all add: kb)
    moreover have "\<forall>n\<in>set (?new # bs ! i). node_ok s i n"
      using bucket(2) node_ok_create by (simp add: key_def i_def)
    ultimately have new: "hash_inv ?hN" "hash_contents ?hN = (hash_contents h)(k \<mapsto> (v, e))"
      using replace [of "?new # bs ! i" "Some (v, e)"] kb by simp_all
    have "(r, h') = (if ok 2 then (0, ?hN) else (-1, h))"
      using ins None hashed ni by (auto simp: hash_insert_def h i_def Let_def split: if_splits)
    then show ?thesis
      using new inv by (auto split: if_splits)
  next
    case (Some n)
    have overwrite: "uniq_keys (chain_write key (kd v) e (bs ! i))"
        "\<forall>n\<in>set (chain_write key (kd v) e (bs ! i)). node_ok s i n"
      using bucket by (auto intro: uniq_keys_write simp: node_ok_write)
    have remove: "uniq_keys (chain_remove key (bs ! i))" "\<forall>n\<in>set (chain_remove key (bs ! i)). node_ok s i n"
      using bucket set_chain_remove by (auto intro: uniq_keys_remove)
    have gone: "chain_search (kd k') (chain_remove key (bs ! i)) =
        (if k' = k then None else chain_search (kd k') (bs ! i))" for k'
      using chain_search_remove [OF bucket(1)] kb by simp
    have cons: "uniq_keys (?new # chain_remove key (bs ! i))"
        "\<forall>n\<in>set (?new # chain_remove key (bs ! i)). node_ok s i n"
      using remove gone node_ok_create by (auto intro!: uniq_keys_Cons simp: kb key_def i_def)
    have len: "Suc (length (chain_remove key (bs ! i))) = length (bs ! i)"
      using length_chain_remove Some by blast
    let ?hW = "\<lparr>buckets = Some (bs[i := chain_write key (kd v) e (bs ! i)]), max_slots = s,
        hcount = int (length (concat bs))\<rparr>"
    let ?hR = "\<lparr>buckets = Some (bs[i := chain_remove key (bs ! i)]), max_slots = s,
        hcount = int (length (concat bs)) - 1\<rparr>"
    let ?hC = "\<lparr>buckets = Some (bs[i := ?new # chain_remove key (bs ! i)]), max_slots = s,
        hcount = int (length (concat bs))\<rparr>"
    have wr_upd: "map_option node_entry (chain_search (kd k') (chain_write key (kd v) e (bs ! i))) =
        (if k' = k then Some (v, e) else map_option node_entry (chain_search (kd k') (bs ! i)))" for k'
      using chain_search_write [OF Some] kb by simp
    have rm_upd: "map_option node_entry (chain_search (kd k') (chain_remove key (bs ! i))) =
        (if k' = k then None else map_option node_entry (chain_search (kd k') (bs ! i)))" for k'
      using gone by simp
    have cons_upd: "map_option node_entry (chain_search (kd k') (?new # chain_remove key (bs ! i))) =
        (if k' = k then Some (v, e) else map_option node_entry (chain_search (kd k') (bs ! i)))" for k'
      using gone kb by simp
    have hW: "hash_inv ?hW" "hash_contents ?hW = (hash_contents h)(k \<mapsto> (v, e))"
      using replace [OF overwrite wr_upd] by simp_all
    have hR: "hash_inv ?hR" "hash_contents ?hR = (hash_contents h)(k := None)"
      using replace [OF remove rm_upd] by (simp_all flip: len)
    have hC: "hash_inv ?hC" "hash_contents ?hC = (hash_contents h)(k \<mapsto> (v, e))"
      using replace [OF cons cons_upd] by (simp_all flip: len)
    have "(r, h') = (if length v \<le> klen (hvalue n) then (0, ?hW) else if ok 1 then (0, ?hC) else (-1, ?hR))"
      using ins Some hashed ni by (auto simp: hash_insert_def h i_def Let_def split: if_splits)
    then show ?thesis
      using hW hR hC by (auto split: if_splits)
  qed
qed

lemma kvs_hash_set_spec:
  assumes inv: "hash_inv h" and set: "kvs_hash_set ok h (kd k) (kd v) e = (r, h')"
  shows "hash_inv h' \<and> (r = 0 \<longrightarrow> hash_contents h' = (hash_contents h)(k \<mapsto> (v, e))) \<and>
    (\<forall>k'. k' \<noteq> k \<longrightarrow> hash_contents h' k' = hash_contents h k')"
proof (cases "hcount h \<ge> max_slots h")
  case False
  then show ?thesis
    using hash_insert_spec [OF inv] set by (simp add: kvs_hash_set_insert [OF inv])
next
  case True
  obtain r1 h1 where grow: "kvs_hash_resize (ok 0) h (i32 (max_slots h * 2)) = (r1, h1)"
    by fastforce
  have "hash_inv h1 \<and> hash_contents h1 = hash_contents h"
  proof (cases "max_slots h < 2 ^ 30")
    case True
    have s: "slots_ok (max_slots h)" using inv by (auto simp: hash_inv_def)
    then have "i32 (max_slots h * 2) = max_slots h * 2"
      using True slots_okD [OF s] by (intro i32_id) auto
    then show ?thesis
      using kvs_hash_resize_spec [OF inv slots_ok_double [OF s True]] grow by auto
  next
    case False
    have "slots_ok (max_slots h)" using inv by (auto simp: hash_inv_def)
    then have "max_slots h = 2 ^ 30"
      using False slots_okD(2) [of "max_slots h"] by linarith
    then have "h1 = h"
      using grow by (simp add: kvs_hash_resize_def i32_def INIT_HASH_SLOTS_def)
    with inv show ?thesis by simp
  qed
  then show ?thesis
    using True grow set hash_insert_spec [of h1 ok k v e r h']
    by (auto simp: kvs_hash_set_insert [OF inv] split: if_splits)
qed

text \<open>Search of a key, with a fresh or a cached hash, as the operations do it.\<close>

lemma hash_lookup_node:
  assumes "h = \<lparr>buckets = Some bs, max_slots = s, hcount = c\<rparr>" and "slots_ok s" and "buckets_ok s bs"
  shows "\<not> s \<le> uint (key_slot k s)"
    and "hash_contents h k = map_option node_entry
      (chain_search \<lparr>kdata = Some k, hash_cache = kv_hash_short k\<rparr> (bs ! unat (key_slot k s)))"
proof -
  have "uint (key_slot k s) = int (unat (key_slot k s))" by simp
  then show "\<not> s \<le> uint (key_slot k s)"
    using slot_in_range [OF assms(3,2), of k] assms(3) unfolding buckets_ok_def by linarith
  show "hash_contents h k = map_option node_entry
      (chain_search \<lparr>kdata = Some k, hash_cache = kv_hash_short k\<rparr> (bs ! unat (key_slot k s)))"
    using assms(1) chain_search_key [of "\<lparr>kdata = Some k, hash_cache = kv_hash_short k\<rparr>" k]
    by (simp add: hash_contents_def bucket_lookup_def)
qed

lemma kvs_hash_del_cached:
  "hash_inv h \<Longrightarrow> kvs_hash_del m h \<lparr>kdata = Some k, hash_cache = kv_hash_short k\<rparr> = kvs_hash_del m h (kd k)"
  by (auto simp: kvs_hash_del_def hash_inv_def hash_slot_kd hash_slot_cached)

lemma kvs_hash_del_none:
  assumes "hash_inv h" and "hash_contents h k = None"
  shows "kvs_hash_del m h (kd k) = (1, h)"
  using assms(1)
proof (rule hash_invE)
  fix bs s
  assume h: "h = \<lparr>buckets = Some bs, max_slots = s, hcount = int (length (concat bs))\<rparr>"
    and ok: "slots_ok s" "buckets_ok s bs"
  show ?thesis
    using assms(2) hash_lookup_node [OF h ok]
    by (simp add: kvs_hash_del_def h hash_slot_kd [OF ok(1)])
qed

lemma kvs_hash_del_some:
  assumes inv: "hash_inv h" and some: "hash_contents h k = Some x"
  shows "\<exists>h'. kvs_hash_del m h (kd k) = (0, h') \<and> hash_inv h' \<and> hash_contents h' = (hash_contents h)(k := None)"
  using inv
proof (rule hash_invE)
  fix bs s
  assume h: "h = \<lparr>buckets = Some bs, max_slots = s, hcount = int (length (concat bs))\<rparr>"
    and ok: "slots_ok s" "buckets_ok s bs"
  define i where "i = unat (key_slot k s)"
  define key where "key = \<lparr>kdata = Some k, hash_cache = kv_hash_short k\<rparr>"
  have kb: "kbytes key = k" by (simp add: key_def)
  have i: "i < length bs" using slot_in_range ok i_def by blast
  have bucket: "uniq_keys (bs ! i)" "\<forall>n\<in>set (bs ! i). node_ok s i n"
    using ok(2) i by (auto simp: buckets_ok_def)
  obtain n where n: "chain_search key (bs ! i) = Some n"
    using some hash_lookup_node(2) [OF h ok, of k] by (auto simp: key_def i_def)
  let ?h1 = "\<lparr>buckets = Some (bs[i := chain_remove key (bs ! i)]), max_slots = s,
      hcount = int (length (concat bs)) - 1\<rparr>"
  have len: "Suc (length (chain_remove key (bs ! i))) = length (bs ! i)"
    using length_chain_remove n by blast
  have remove: "uniq_keys (chain_remove key (bs ! i))" "\<forall>n\<in>set (chain_remove key (bs ! i)). node_ok s i n"
    using bucket set_chain_remove by (auto intro: uniq_keys_remove)
  have rm_upd: "map_option node_entry (chain_search (kd k') (chain_remove key (bs ! i))) =
      (if k' = k then None else map_option node_entry (chain_search (kd k') (bs ! i)))" for k'
    using chain_search_remove [OF bucket(1)] kb by simp
  have h1: "hash_inv ?h1" "hash_contents ?h1 = (hash_contents h)(k := None)"
    using hash_replace_bucket [OF h ok i_def remove rm_upd] by (simp_all flip: len)
  have shrink: "hash_inv (snd (kvs_hash_resize m ?h1 (s div 2))) \<and>
      hash_contents (snd (kvs_hash_resize m ?h1 (s div 2))) = hash_contents ?h1" if "16 < s"
    using kvs_hash_resize_spec [OF h1(1) slots_ok_half [OF ok(1) that]] by (metis prod.collapse)
  have "kvs_hash_del m h (kd k) =
      (0, if hcount ?h1 < s div 4 \<and> s > 16 then snd (kvs_hash_resize m ?h1 (s div 2)) else ?h1)"
    using n hash_lookup_node(1) [OF h ok, of k]
    by (simp add: kvs_hash_del_def h hash_slot_kd [OF ok(1)] INIT_HASH_SLOTS_def i_def key_def Let_def)
  then show ?thesis
    using h1 shrink by auto
qed

interpretation hsh: kv_engine hash_inv "\<lambda>_. True" hash_contents kvs_hash_set
  "kvs_hash_get m" "kvs_hash_del m" "kvs_hash_exist m" "kvs_hash_del_if_expired m" for m
proof (unfold_locales, goal_cases)
  case (1 s k ok v e r s')
  then show ?case using kvs_hash_set_spec by blast
next
  case (2 s k ok v e s')
  then show ?case using kvs_hash_set_spec by blast
next
  case (3 s k ok v e r s' k')
  then show ?case using kvs_hash_set_spec by blast
next
  case (4 s k ttl now)
  then show ?case
    by (elim hash_invE) (auto simp: kvs_hash_get_def hash_slot_kd hash_lookup_node)
next
  case (5 s k v e ttl now)
  then show ?case
    by (elim hash_invE)
      (auto simp: kvs_hash_get_def hash_slot_kd hash_lookup_node node_entry_def expired_def)
next
  case (6 s k v e ttl now)
  then show ?case
    using kvs_hash_del_cached [OF 6(1), of m k]
    by (elim hash_invE)
      (auto simp: kvs_hash_get_def hash_slot_kd hash_lookup_node node_entry_def expired_def)
next
  case (7 s k)
  then show ?case by (rule kvs_hash_del_none)
next
  case (8 s k ent)
  then show ?case by (rule kvs_hash_del_some)
next
  case (9 s ttl now k)
  then show ?case
    by (elim hash_invE) (auto simp: kvs_hash_get_def kvs_hash_exist_def Let_def split: option.split prod.split)
next
  case (10 s k x)
  then show ?case
    using kvs_hash_del_cached [OF 10, of m k]
    by (elim hash_invE)
      (auto simp: kvs_hash_del_if_expired_def hash_slot_kd hash_lookup_node node_entry_def
        split: option.split)
qed

section \<open>Comma-separated ID lists\<close>

text \<open>
  The duplicate scan of \<open>kvs_hash_append\<close>: the tokens between commas, each compared by
  length and \<open>memcmp\<close>; the loop stops at the end of the data.
\<close>

function has_id :: "bytes \<Rightarrow> bytes \<Rightarrow> bool" where
  "has_id x s =
     (if s = [] then False
      else let tok = takeWhile (\<lambda>c. c \<noteq> CHR '','') s
           in if length tok = length x \<and> memcmp (length x) tok x = 0 then True
              else has_id x (drop (Suc (length tok)) s))"
  by pat_completeness auto
termination
  by (relation "measure (\<lambda>(x, s). length s)") auto

declare has_id.simps [simp del]

text \<open>
  \<open>kvs_hash_append\<close>. Allocation sites beyond those of \<open>kvs_hash_set\<close>: 3 the copy of the old
  list, 4 the new list, 5 a shrinking resize when the lookup drops an expired entry.
\<close>

definition kvs_hash_append ::
  "alloc_env \<Rightarrow> bool \<Rightarrow> int \<Rightarrow> kvs_hash \<Rightarrow> kv_data \<Rightarrow> kv_data \<Rightarrow> int \<times> kvs_hash" where
  "kvs_hash_append ok ttl now hash key x =
     (if buckets hash = None then (-1, hash)
      else if klen x = 0 \<or> kdata x = None then (-1, hash)
      else case kvs_hash_get (ok 5) ttl now hash key of
        (None, hash1) \<Rightarrow> kvs_hash_set ok hash1 key x 0
      | (Some existing, hash1) \<Rightarrow>
          if klen existing = 0 then kvs_hash_set ok hash1 key x 0
          else if has_id (kbytes x) (kbytes existing) then (0, hash1)
          else if \<not> ok 3 then (-1, hash1)
          else if \<not> ok 4 then (-1, hash1)
          else kvs_hash_set ok hash1 key (kd (kbytes existing @ CHR '','' # kbytes x)) 0)"

text \<open>The collecting loop of \<open>kvs_hash_get_list\<close>; \<open>cur\<close> is the token read so far.\<close>

fun id_tokens :: "bytes \<Rightarrow> bytes \<Rightarrow> bytes list" where
  "id_tokens cur [] = [cur]"
| "id_tokens cur (c # cs) =
     (if c = CHR '','' then cur # id_tokens [] cs else id_tokens (cur @ [c]) cs)"

text \<open>
  \<open>kvs_hash_get_list\<close>: status and IDs (each is also NUL-terminated in C). Allocation sites:
  0 the array, \<open>Suc j\<close> the \<open>j\<close>-th ID, and \<open>m\<close> for the lookup.
\<close>

definition kvs_hash_get_list ::
  "bool \<Rightarrow> alloc_env \<Rightarrow> bool \<Rightarrow> int \<Rightarrow> kvs_hash \<Rightarrow> kv_data \<Rightarrow> int \<times> bytes list \<times> kvs_hash" where
  "kvs_hash_get_list m ok ttl now hash key =
     (case kvs_hash_get m ttl now hash key of
        (None, hash1) \<Rightarrow> (0, [], hash1)
      | (Some value, hash1) \<Rightarrow>
          if klen value = 0 then (0, [], hash1)
          else if \<not> ok 0 then (-1, [], hash1)
          else let ids = id_tokens [] (kbytes value)
               in if \<forall>j<length ids. ok (Suc j) then (0, ids, hash1) else (-1, [], hash1))"

lemma id_tokens_append: "id_tokens cur (xs @ CHR '','' # ys) = id_tokens cur xs @ id_tokens [] ys"
  by (induction cur xs rule: id_tokens.induct) auto

lemma id_tokens_no_comma: "CHR '','' \<notin> set s \<Longrightarrow> id_tokens cur s = [cur @ s]"
  by (induction cur s rule: id_tokens.induct) auto

lemma id_tokens_unfold:
  "id_tokens cur s =
     (let tok = takeWhile (\<lambda>c. c \<noteq> CHR '','') s
      in (cur @ tok) # (if CHR '','' \<in> set s then id_tokens [] (drop (Suc (length tok)) s) else []))"
  by (induction cur s rule: id_tokens.induct) (auto simp: Let_def)

lemma has_id_step:
  "s \<noteq> [] \<Longrightarrow> has_id x s \<longleftrightarrow>
     takeWhile (\<lambda>c. c \<noteq> CHR '','') s = x \<or> has_id x (drop (Suc (length (takeWhile (\<lambda>c. c \<noteq> CHR '','') s))) s)"
  using memcmp_zero_iff [of "takeWhile (\<lambda>c. c \<noteq> CHR '','') s" x]
  by (subst has_id.simps) (auto simp: Let_def)

lemma has_id_Nil [simp]: "\<not> has_id x []"
  by (simp add: has_id.simps)

lemma has_id_iff: "x \<noteq> [] \<Longrightarrow> has_id x s \<longleftrightarrow> x \<in> set (id_tokens [] s)"
proof (induction "length s" arbitrary: s rule: less_induct)
  case less
  let ?tok = "takeWhile (\<lambda>c. c \<noteq> CHR '','') s"
  let ?rest = "drop (Suc (length ?tok)) s"
  show ?case
  proof (cases "s = []")
    case True
    with less.prems show ?thesis by simp
  next
    case False
    then have IH: "has_id x ?rest \<longleftrightarrow> x \<in> set (id_tokens [] ?rest)"
      using less by simp
    show ?thesis
    proof (cases "CHR '','' \<in> set s")
      case True
      then have "id_tokens [] s = ?tok # id_tokens [] ?rest"
        by (subst id_tokens_unfold) (simp add: Let_def)
      then show ?thesis
        using has_id_step [OF False, of x] IH by auto
    next
      case no: False
      then have tok: "?tok = s" by (auto simp: takeWhile_eq_all_conv)
      have "has_id x s \<longleftrightarrow> s = x"
        using has_id_step [OF False, of x] unfolding tok by simp
      then show ?thesis
        using id_tokens_no_comma [OF no, of "[]"] by auto
    qed
  qed
qed

lemma kvs_hash_append_contents:
  assumes inv: "hash_inv h" and x: "x \<noteq> []" and old: "hash_contents h k = Some (l, e)" "l \<noteq> []"
    and live: "\<not> expired ttl now e" and app: "kvs_hash_append ok ttl now h (kd k) (kd x) = (0, h')"
  shows "hash_inv h' \<and> hash_contents h' =
    (if x \<in> set (id_tokens [] l) then hash_contents h else (hash_contents h)(k \<mapsto> (l @ CHR '','' # x, 0)))"
proof -
  obtain d where d: "kvs_hash_get (ok 5) ttl now h (kd k) = (Some d, h)" "kbytes d = l"
    using hsh.get_live [OF inv old(1) live] by blast
  have "buckets h \<noteq> None" using inv by (auto simp: hash_inv_def)
  then show ?thesis
    using app d x old(2) inv kvs_hash_set_spec [OF inv]
    by (auto simp: kvs_hash_append_def klen_def has_id_iff split: if_splits)
qed

lemma kvs_hash_get_list_live:
  assumes "hash_inv h" and "hash_contents h k = Some (l, e)" and "l \<noteq> []" and "\<not> expired ttl now e"
  shows "kvs_hash_get_list m always_ok ttl now h (kd k) = (0, id_tokens [] l, h)"
  using hsh.get_live [OF assms(1,2,4), of m] assms(3)
  by (auto simp: kvs_hash_get_list_def klen_def)

section \<open>Properties\<close>

text \<open>The table after \<open>kvs_hash_create\<close> is empty and satisfies the invariant.\<close>

lemma kvs_hash_create_inv:
  "kvs_hash_create True h0 = (0, h) \<Longrightarrow> hash_inv h \<and> hash_contents h = (\<lambda>_. None)"
proof -
  assume "kvs_hash_create True h0 = (0, h)"
  then have h: "buckets h = Some (replicate 16 [])" "max_slots h = 16" "hcount h = 0"
    by (auto simp: kvs_hash_create_def INIT_HASH_SLOTS_def)
  have s: "slots_ok 16"
    unfolding slots_ok_def by (intro exI [of _ 0]) simp
  have "buckets_ok 16 (replicate 16 [])"
    by (simp add: buckets_ok_def uniq_keys_def)
  moreover have "unat (key_slot k 16) < 16" for k
    using key_slot_less [of 16 k] by simp
  ultimately show ?thesis
    using h s by (auto simp: hash_inv_def hash_contents_def bucket_lookup_def fun_eq_iff)
qed

text \<open>
  C2. The hash engine implements the abstract map through all of its chain updates, node
  replacements and rehashes: any sequence of SET, GET, DEL and timer deletions that reports
  no failed SET leaves it with exactly the contents of the abstract map, whatever the
  allocator answers.
\<close>

theorem hash_refines_map:
  assumes "hash_inv s"
    and "run_ops (kvs_hash_set ok) (kvs_hash_get m) (kvs_hash_del m) (kvs_hash_del_if_expired m) s xs = Some s'"
  shows "hash_inv s' \<and> hash_contents s' = foldl spec_op (hash_contents s) xs"
  using assms by (intro hsh.run_ops_refines) auto

definition hash_demo0 :: kvs_hash where
  "hash_demo0 = snd (kvs_hash_create True hash_static)"

lemma hash_demo0_inv: "hash_inv hash_demo0" "hash_contents hash_demo0 = (\<lambda>_. None)"
  using kvs_hash_create_inv [of hash_static hash_demo0]
  by (simp_all add: hash_demo0_def kvs_hash_create_def Let_def)

theorem hash_refines_map_witness:
  "\<exists>s'. run_ops (kvs_hash_set always_ok) (kvs_hash_get True) (kvs_hash_del True)
      (kvs_hash_del_if_expired True) hash_demo0
      [OpSet ''a'' ''1'' 0, OpSet ''b'' ''2'' 5, OpSet ''a'' ''longer'' 9, OpGet True 6 ''b''] = Some s' \<and>
    hash_contents s' ''a'' = Some (''longer'', 9) \<and> hash_contents s' ''b'' = None"
proof -
  let ?ops = "[OpSet ''a'' ''1'' 0, OpSet ''b'' ''2'' 5, OpSet ''a'' ''longer'' 9, OpGet True 6 ''b'']"
  have "run_ops (kvs_hash_set always_ok) (kvs_hash_get True) (kvs_hash_del True)
      (kvs_hash_del_if_expired True) hash_demo0 ?ops \<noteq> None"
    by code_simp
  then obtain s' where s': "run_ops (kvs_hash_set always_ok) (kvs_hash_get True) (kvs_hash_del True)
      (kvs_hash_del_if_expired True) hash_demo0 ?ops = Some s'"
    by blast
  have "hash_contents s' = foldl spec_op (\<lambda>_. None) ?ops"
    using hash_refines_map [OF hash_demo0_inv(1) s'] hash_demo0_inv(2) by simp
  then show ?thesis
    using s' by (intro exI [of _ s']) (simp add: expired_def)
qed

text \<open>
  C3. A SET on the hash table never loses another key, even when an allocation fails half
  way (after the old node is unlinked, or when the table cannot grow), and the number of
  buckets stays a power of two between 16 and \<open>2^30\<close>, so the bucket mask is always exact.
\<close>

theorem hash_set_frame_and_bounds:
  assumes "hash_inv h" and "kvs_hash_set ok h (kd k) (kd v) e = (r, h')"
  shows "(\<forall>k'. k' \<noteq> k \<longrightarrow> hash_contents h' k' = hash_contents h k') \<and>
    (\<exists>j\<le>26. max_slots h' = 16 * 2 ^ j)"
  using kvs_hash_set_spec [OF assms] by (auto simp: hash_inv_def slots_ok_def)

theorem hash_set_frame_and_bounds_witness:
  "\<exists>r h'. kvs_hash_set (\<lambda>_. False) hash_demo0 (kd ''a'') (kd ''1'') 0 = (r, h') \<and>
     hash_contents h' ''b'' = None \<and> (\<exists>j\<le>26. max_slots h' = 16 * 2 ^ j)"
proof -
  obtain r h' where set: "kvs_hash_set (\<lambda>_. False) hash_demo0 (kd ''a'') (kd ''1'') 0 = (r, h')"
    by fastforce
  show ?thesis
    using hash_set_frame_and_bounds [OF hash_demo0_inv(1) set] set hash_demo0_inv(2)
    by (intro exI [of _ r] exI [of _ h']) auto
qed

text \<open>
  C4. The ID list of a keyword is a set in insertion order: appending an ID without a comma
  to a live, non-empty list makes \<open>kvs_hash_get_list\<close> return the old IDs, followed by the new
  one exactly when it was not there yet.
\<close>

theorem hash_append_then_get_list:
  assumes "hash_inv h" and "hash_contents h k = Some (l, e)" and "l \<noteq> []" and "\<not> expired ttl now e"
    and "x \<noteq> []" and "CHR '','' \<notin> set x"
    and "kvs_hash_append ok ttl now h (kd k) (kd x) = (0, h')"
  shows "kvs_hash_get_list m always_ok ttl now h' (kd k) =
    (0, if x \<in> set (id_tokens [] l) then id_tokens [] l else id_tokens [] l @ [x], h')"
proof -
  have h': "hash_inv h'" "hash_contents h' =
      (if x \<in> set (id_tokens [] l) then hash_contents h else (hash_contents h)(k \<mapsto> (l @ CHR '','' # x, 0)))"
    using kvs_hash_append_contents [OF assms(1,5,2,3,4,7)] by auto
  show ?thesis
  proof (cases "x \<in> set (id_tokens [] l)")
    case True
    then show ?thesis
      using kvs_hash_get_list_live [OF h'(1)] h'(2) assms by simp
  next
    case False
    then have "hash_contents h' k = Some (l @ CHR '','' # x, 0)" using h'(2) by simp
    then show ?thesis
      using kvs_hash_get_list_live [OF h'(1), of k "l @ CHR '','' # x" 0 ttl now m] False assms(6)
      by (simp add: expired_def id_tokens_append id_tokens_no_comma)
  qed
qed

definition hash_demo1 :: kvs_hash where
  "hash_demo1 = snd (kvs_hash_set always_ok hash_demo0 (kd ''kw'') (kd ''id1'') 0)"

lemma hash_demo1_contents: "hash_inv hash_demo1" "hash_contents hash_demo1 ''kw'' = Some (''id1'', 0)"
proof -
  have "fst (kvs_hash_set always_ok hash_demo0 (kd ''kw'') (kd ''id1'') 0) = 0"
    by code_simp
  then have "kvs_hash_set always_ok hash_demo0 (kd ''kw'') (kd ''id1'') 0 = (0, hash_demo1)"
    by (simp add: hash_demo1_def prod_eq_iff)
  then show "hash_inv hash_demo1" "hash_contents hash_demo1 ''kw'' = Some (''id1'', 0)"
    using kvs_hash_set_spec [OF hash_demo0_inv(1)] by auto
qed

theorem hash_append_then_get_list_witness:
  "\<exists>h'. kvs_hash_append always_ok True 100 hash_demo1 (kd ''kw'') (kd ''id2'') = (0, h') \<and>
     kvs_hash_get_list True always_ok True 100 h' (kd ''kw'') = (0, [''id1'', ''id2''], h')"
proof -
  have "fst (kvs_hash_append always_ok True 100 hash_demo1 (kd ''kw'') (kd ''id2'')) = 0"
    by code_simp
  then obtain h' where h': "kvs_hash_append always_ok True 100 hash_demo1 (kd ''kw'') (kd ''id2'') = (0, h')"
    by (metis prod.collapse)
  have "kvs_hash_get_list True always_ok True 100 h' (kd ''kw'') = (0, [''id1'', ''id2''], h')"
    using hash_append_then_get_list [OF hash_demo1_contents, of True 100 "''id2''" always_ok h' True] h'
    by (simp add: expired_def)
  with h' show ?thesis by blast
qed

end
