(* ===== verification/Kvs_Rbtree.thy ===== *)
theory Kvs_Rbtree
  imports Kv_Engine
begin

text \<open>
  \<^verbatim>\<open>kvs_rbtree.c\<close>: the red-black tree engine. The C code keeps parent pointers and a black
  sentinel \<open>nil\<close>; the model keeps the node a loop works on as a subtree (the focus) together
  with the list of its ancestors (the path, nearest first), so \<open>x->parent\<close> is the head of the
  path, also when \<open>x\<close> is the sentinel. Rotations and recolourings are those of the code, in
  its order. The lemmas show that both fix-up loops keep the search-tree order and restore
  the colour and black-height invariants, and that the engine is an instance of \<open>kv_engine\<close>.
\<close>

datatype color = RED | BLACK

record rbnode =
  rexpire_time :: int
  rkey :: kv_data
  rvalue :: kv_data

datatype rbt = Nil_node | Node color rbt rbnode rbt

datatype rbframe =
    InLeft color rbnode rbt   \<comment> \<open>the focus is the left child; colour, payload, right child\<close>
  | InRight color rbt rbnode  \<comment> \<open>the focus is the right child; colour, left child, payload\<close>

type_synonym rbpath = "rbframe list"

text \<open>\<open>rb_nil\<close>: the sentinel is allocated. \<open>rb_root\<close>: the tree, \<open>Nil_node\<close> for \<open>root == nil\<close>.\<close>

record kvs_rbtree =
  rb_nil :: bool
  rb_root :: rbt

fun node_color :: "rbt \<Rightarrow> color" where
  "node_color Nil_node = BLACK"
| "node_color (Node c l n r) = c"

fun paint :: "color \<Rightarrow> rbt \<Rightarrow> rbt" where
  "paint c Nil_node = Nil_node"
| "paint c (Node _ l n r) = Node c l n r"

fun plug1 :: "rbt \<Rightarrow> rbframe \<Rightarrow> rbt" where
  "plug1 t (InLeft c n r) = Node c t n r"
| "plug1 t (InRight c l n) = Node c l n t"

fun plug :: "rbt \<Rightarrow> rbpath \<Rightarrow> rbt" where
  "plug t [] = t"
| "plug t (f # p) = plug (plug1 t f) p"

fun frame_color :: "rbframe \<Rightarrow> color" where
  "frame_color (InLeft c n r) = c"
| "frame_color (InRight c l n) = c"

definition rbtree_node_create :: "kv_data \<Rightarrow> kv_data \<Rightarrow> int \<Rightarrow> rbnode" where
  "rbtree_node_create key value expire =
     \<lparr>rexpire_time = expire,
      rkey = \<lparr>kdata = Some (kbytes key), hash_cache = 0\<rparr>,
      rvalue = \<lparr>kdata = Some (kbytes value), hash_cache = 0\<rparr>\<rparr>"

section \<open>Rotations and fix-up loops\<close>

fun rbtree_left_rotate :: "rbt \<Rightarrow> rbt" where
  "rbtree_left_rotate (Node cx a x (Node cy b y c)) = Node cy (Node cx a x b) y c"
| "rbtree_left_rotate t = t"

fun rbtree_right_rotate :: "rbt \<Rightarrow> rbt" where
  "rbtree_right_rotate (Node cy (Node cx a x b) y c) = Node cx a x (Node cy b y c)"
| "rbtree_right_rotate t = t"

text \<open>
  \<open>rbtree_insert_fixup\<close> with \<open>z\<close> the focus: the loop runs while the parent is red. The last
  step colours the root black. (A red parent without a grandparent would be a red root.)
\<close>

fun rbtree_insert_fixup :: "rbt \<Rightarrow> rbpath \<Rightarrow> rbt" where
  "rbtree_insert_fixup z (f # InLeft gc gn y # path) =
     (if frame_color f = RED then
        if node_color y = RED
        then rbtree_insert_fixup (Node RED (paint BLACK (plug1 z f)) gn (paint BLACK y)) path
        else
          let p = plug1 z f;
              p1 = (case f of InRight _ _ _ \<Rightarrow> rbtree_left_rotate p | InLeft _ _ _ \<Rightarrow> p)
          in paint BLACK (plug (rbtree_right_rotate (Node RED (paint BLACK p1) gn y)) path)
      else paint BLACK (plug z (f # InLeft gc gn y # path)))"
| "rbtree_insert_fixup z (f # InRight gc y gn # path) =
     (if frame_color f = RED then
        if node_color y = RED
        then rbtree_insert_fixup (Node RED (paint BLACK y) gn (paint BLACK (plug1 z f))) path
        else
          let p = plug1 z f;
              p1 = (case f of InLeft _ _ _ \<Rightarrow> rbtree_right_rotate p | InRight _ _ _ \<Rightarrow> p)
          in paint BLACK (plug (rbtree_left_rotate (Node RED y gn (paint BLACK p1))) path)
      else paint BLACK (plug z (f # InRight gc y gn # path)))"
| "rbtree_insert_fixup z path = paint BLACK (plug z path)"

text \<open>The children of the sibling \<open>w\<close>; the sentinel's children are the sentinel.\<close>

fun left_child :: "rbt \<Rightarrow> rbt" where
  "left_child Nil_node = Nil_node"
| "left_child (Node c l n r) = l"

fun right_child :: "rbt \<Rightarrow> rbt" where
  "right_child Nil_node = Nil_node"
| "right_child (Node c l n r) = r"

fun set_left :: "rbt \<Rightarrow> rbt \<Rightarrow> rbt" where
  "set_left Nil_node l = Nil_node"
| "set_left (Node c _ n r) l = Node c l n r"

fun set_right :: "rbt \<Rightarrow> rbt \<Rightarrow> rbt" where
  "set_right Nil_node r = Nil_node"
| "set_right (Node c l n _) r = Node c l n r"

text \<open>
  The end of one iteration of \<open>rbtree_delete_fixup\<close> when \<open>w\<close> has a red child: the rotations
  at \<open>w\<close> and at the parent (colour \<open>pc\<close>, payload \<open>pn\<close>), \<open>x\<close> on the left or on the right.
\<close>

definition delete_rotate_left :: "rbt \<Rightarrow> color \<Rightarrow> rbnode \<Rightarrow> rbt \<Rightarrow> rbt" where
  "delete_rotate_left x pc pn w =
     (let w1 = (if node_color (right_child w) = BLACK
                then rbtree_right_rotate (paint RED (set_left w (paint BLACK (left_child w)))) else w);
          w2 = paint pc w1;
          w3 = set_right w2 (paint BLACK (right_child w2))
      in rbtree_left_rotate (Node BLACK x pn w3))"

definition delete_rotate_right :: "rbt \<Rightarrow> color \<Rightarrow> rbnode \<Rightarrow> rbt \<Rightarrow> rbt" where
  "delete_rotate_right x pc pn w =
     (let w1 = (if node_color (left_child w) = BLACK
                then rbtree_left_rotate (paint RED (set_right w (paint BLACK (right_child w)))) else w);
          w2 = paint pc w1;
          w3 = set_left w2 (paint BLACK (left_child w2))
      in rbtree_right_rotate (Node BLACK w3 pn x))"

text \<open>
  \<open>rbtree_delete_fixup\<close>. A red sibling is rotated above the parent first, which leaves the
  parent red with \<open>w'\<close> the new sibling; then \<open>x\<close> moves up, or the rotations end the loop
  (\<open>x = root\<close>). The last step colours \<open>x\<close>, or the root, black.
\<close>

function rbtree_delete_fixup :: "rbt \<Rightarrow> rbpath \<Rightarrow> rbt" where
  "rbtree_delete_fixup x [] = paint BLACK x"
| "rbtree_delete_fixup x (InLeft pc pn w # path) =
     (if node_color x = RED then plug (paint BLACK x) (InLeft pc pn w # path)
      else if node_color w = RED then
        let w' = left_child w;
            path' = (case w of Node _ _ wn wr \<Rightarrow> InLeft BLACK wn wr # path | Nil_node \<Rightarrow> path)
        in if node_color (left_child w') = BLACK \<and> node_color (right_child w') = BLACK
           then rbtree_delete_fixup (Node RED x pn (paint RED w')) path'
           else paint BLACK (plug (delete_rotate_left x RED pn w') path')
      else if node_color (left_child w) = BLACK \<and> node_color (right_child w) = BLACK
      then rbtree_delete_fixup (Node pc x pn (paint RED w)) path
      else paint BLACK (plug (delete_rotate_left x pc pn w) path))"
| "rbtree_delete_fixup x (InRight pc w pn # path) =
     (if node_color x = RED then plug (paint BLACK x) (InRight pc w pn # path)
      else if node_color w = RED then
        let w' = right_child w;
            path' = (case w of Node _ wl wn _ \<Rightarrow> InRight BLACK wl wn # path | Nil_node \<Rightarrow> path)
        in if node_color (left_child w') = BLACK \<and> node_color (right_child w') = BLACK
           then rbtree_delete_fixup (Node RED (paint RED w') pn x) path'
           else paint BLACK (plug (delete_rotate_right x RED pn w') path')
      else if node_color (left_child w) = BLACK \<and> node_color (right_child w) = BLACK
      then rbtree_delete_fixup (Node pc (paint RED w) pn x) path
      else paint BLACK (plug (delete_rotate_right x pc pn w) path))"
  by pat_completeness auto
termination
  by (relation "measure (\<lambda>(x, p). if node_color x = RED then 0 else Suc (length p))") auto

declare rbtree_delete_fixup.simps [simp del]

section \<open>Search, minimum and deletion\<close>

fun rbtree_search :: "rbt \<Rightarrow> kv_data \<Rightarrow> rbnode option" where
  "rbtree_search Nil_node key = None"
| "rbtree_search (Node c l n r) key =
     (if kdata (rkey n) = None then None
      else let cmp = kv_data_compare key (rkey n)
           in if cmp < 0 then rbtree_search l key
              else if cmp > 0 then rbtree_search r key else Some n)"

text \<open>
  \<open>rbtree_find_parent\<close>: the node with the key and its path, or the sentinel and the path of
  the place where the key belongs (whose head tells the parent and the side \<open>cmp\<close> chose).
\<close>

fun rbtree_find_parent :: "kv_data \<Rightarrow> rbt \<Rightarrow> rbpath \<Rightarrow> rbt \<times> rbpath" where
  "rbtree_find_parent key Nil_node path = (Nil_node, path)"
| "rbtree_find_parent key (Node c l n r) path =
     (let cmp = kv_data_compare key (rkey n)
      in if cmp < 0 then rbtree_find_parent key l (InLeft c n r # path)
         else if cmp > 0 then rbtree_find_parent key r (InRight c l n # path)
         else (Node c l n r, path))"

text \<open>\<open>rbtree_mini\<close>: the leftmost node (colour, payload, right child) and the path down to it.\<close>

fun rbtree_mini :: "rbt \<Rightarrow> rbpath \<Rightarrow> (color \<times> rbnode \<times> rbt \<times> rbpath) option" where
  "rbtree_mini Nil_node path = None"
| "rbtree_mini (Node c l n r) path =
     (if l = Nil_node then Some (c, n, r, path) else rbtree_mini l (InLeft c n r # path))"

text \<open>
  \<open>rbtree_delete\<close> with its transplants: a node with at most one child is replaced by that
  child; otherwise its successor \<open>y\<close> takes its place and colour, and \<open>x\<close> is the right child \<open>y\<close>
  had. The result is the new root.
\<close>

fun rbtree_delete :: "rbt \<Rightarrow> rbpath \<Rightarrow> rbt" where
  "rbtree_delete Nil_node path = plug Nil_node path"
| "rbtree_delete (Node zc l n r) path =
     (if l = Nil_node then
        (if zc = BLACK then rbtree_delete_fixup r path else plug r path)
      else if r = Nil_node then
        (if zc = BLACK then rbtree_delete_fixup l path else plug l path)
      else case rbtree_mini r [] of
        None \<Rightarrow> plug (Node zc l n r) path
      | Some (yc, yn, x, ypath) \<Rightarrow>
          let xpath = ypath @ InRight zc l yn # path
          in if yc = BLACK then rbtree_delete_fixup x xpath else plug x xpath)"

section \<open>Public interface\<close>

definition rb_static :: kvs_rbtree where
  "rb_static = \<lparr>rb_nil = False, rb_root = Nil_node\<rparr>"

definition kvs_rbtree_create :: "bool \<Rightarrow> kvs_rbtree \<Rightarrow> int \<times> kvs_rbtree" where
  "kvs_rbtree_create m inst =
     (if m then (0, \<lparr>rb_nil = True, rb_root = Nil_node\<rparr>) else (-1, inst\<lparr>rb_nil := False\<rparr>))"

definition kvs_rbtree_destroy :: "kvs_rbtree \<Rightarrow> kvs_rbtree" where
  "kvs_rbtree_destroy inst = \<lparr>rb_nil = False, rb_root = Nil_node\<rparr>"

text \<open>
  \<open>kvs_rbtree_set\<close>. Allocation sites: 0 the node that replaces one with a shorter value, 1 a
  new node. Without the sentinel (before \<open>kvs_rbtree_create\<close>) the C code would dereference
  NULL; the model reports \<open>-1\<close>.
\<close>

definition kvs_rbtree_set ::
  "alloc_env \<Rightarrow> kvs_rbtree \<Rightarrow> kv_data \<Rightarrow> kv_data \<Rightarrow> int \<Rightarrow> int \<times> kvs_rbtree" where
  "kvs_rbtree_set ok inst key value expire =
     (if \<not> rb_nil inst then (-1, inst) else
      case rbtree_find_parent key (rb_root inst) [] of
        (Node c l n r, path) \<Rightarrow>
          if klen value \<le> klen (rvalue n)
          then (0, inst\<lparr>rb_root := plug (Node c l (n\<lparr>rvalue := (rvalue n)\<lparr>kdata := Some (kbytes value)\<rparr>,
                                                    rexpire_time := expire\<rparr>) r) path\<rparr>)
          else
            let inst1 = inst\<lparr>rb_root := rbtree_delete (Node c l n r) path\<rparr>
            in if \<not> ok 0 then (-1, inst1)
               else case rbtree_find_parent key (rb_root inst1) [] of
                 (Node _ _ _ _, _) \<Rightarrow> (-1, inst1)
               | (Nil_node, path1) \<Rightarrow>
                   (0, inst1\<lparr>rb_root := rbtree_insert_fixup
                          (Node RED Nil_node (rbtree_node_create key value expire) Nil_node) path1\<rparr>)
      | (Nil_node, path) \<Rightarrow>
          if \<not> ok 1 then (-1, inst)
          else (0, inst\<lparr>rb_root := rbtree_insert_fixup
                     (Node RED Nil_node (rbtree_node_create key value expire) Nil_node) path\<rparr>))"

definition kvs_rbtree_mod ::
  "alloc_env \<Rightarrow> kvs_rbtree \<Rightarrow> kv_data \<Rightarrow> kv_data \<Rightarrow> int \<Rightarrow> int \<times> kvs_rbtree" where
  "kvs_rbtree_mod ok inst key value expire = kvs_rbtree_set ok inst key value expire"

text \<open>\<open>kvs_rbtree_del\<close>: the node \<open>rbtree_search\<close> finds is the one \<open>rbtree_find_parent\<close> reaches.\<close>

definition kvs_rbtree_del :: "kvs_rbtree \<Rightarrow> kv_data \<Rightarrow> int \<times> kvs_rbtree" where
  "kvs_rbtree_del inst key =
     (case rbtree_search (rb_root inst) key of
        None \<Rightarrow> (1, inst)
      | Some _ \<Rightarrow>
          let (z, path) = rbtree_find_parent key (rb_root inst) []
          in (0, inst\<lparr>rb_root := rbtree_delete z path\<rparr>))"

definition kvs_rbtree_get :: "bool \<Rightarrow> int \<Rightarrow> kvs_rbtree \<Rightarrow> kv_data \<Rightarrow> kv_data option \<times> kvs_rbtree" where
  "kvs_rbtree_get ttl now inst key =
     (case rbtree_search (rb_root inst) key of
        None \<Rightarrow> (None, inst)
      | Some n \<Rightarrow>
          if ttl \<and> rexpire_time n > 0 \<and> now > rexpire_time n
          then (None, snd (kvs_rbtree_del inst key))
          else (Some (rvalue n), inst))"

definition kvs_rbtree_del_if_expired :: "kvs_rbtree \<Rightarrow> kv_data \<Rightarrow> int \<Rightarrow> int \<times> kvs_rbtree" where
  "kvs_rbtree_del_if_expired inst key expected =
     (case rbtree_search (rb_root inst) key of
        None \<Rightarrow> (0, inst)
      | Some n \<Rightarrow> if rexpire_time n \<noteq> expected then (0, inst)
                  else (1, snd (kvs_rbtree_del inst key)))"

definition kvs_rbtree_exist :: "bool \<Rightarrow> int \<Rightarrow> kvs_rbtree \<Rightarrow> kv_data \<Rightarrow> int \<times> kvs_rbtree" where
  "kvs_rbtree_exist ttl now inst key =
     (let (res, inst') = kvs_rbtree_get ttl now inst key in (if res = None then 1 else 0, inst'))"

text \<open>The nodes the callback is called on, in order: an in-order walk that skips expired ones.\<close>

fun rbtree_foreach_node :: "int \<Rightarrow> bool \<Rightarrow> rbt \<Rightarrow> rbnode list" where
  "rbtree_foreach_node now check Nil_node = []"
| "rbtree_foreach_node now check (Node c l n r) =
     rbtree_foreach_node now check l @
     (if check \<and> rexpire_time n > 0 \<and> now > rexpire_time n then [] else [n]) @
     rbtree_foreach_node now check r"

definition kvs_rbtree_foreach :: "bool \<Rightarrow> int \<Rightarrow> kvs_rbtree \<Rightarrow> rbnode list" where
  "kvs_rbtree_foreach ttl now inst = rbtree_foreach_node (if ttl then now else 0) ttl (rb_root inst)"

definition kvs_rbtree_get_value_len :: "bool \<Rightarrow> int \<Rightarrow> kvs_rbtree \<Rightarrow> bytes \<Rightarrow> int \<times> kvs_rbtree" where
  "kvs_rbtree_get_value_len ttl now inst key =
     (if key = [] \<or> \<not> rb_nil inst then (0, inst)
      else case kvs_rbtree_get ttl now inst (kd key) of
        (None, inst') \<Rightarrow> (0, inst')
      | (Some v, inst') \<Rightarrow>
          (if kdata v = None then 0 else if klen v > 0x7fffffff then 0 else int (klen v), inst'))"

section \<open>In-order contents\<close>

fun inorder :: "rbt \<Rightarrow> rbnode list" where
  "inorder Nil_node = []"
| "inorder (Node c l n r) = inorder l @ n # inorder r"

fun lefts :: "rbpath \<Rightarrow> rbnode list" where
  "lefts [] = []"
| "lefts (InLeft c n r # p) = lefts p"
| "lefts (InRight c l n # p) = lefts p @ inorder l @ [n]"

fun rights :: "rbpath \<Rightarrow> rbnode list" where
  "rights [] = []"
| "rights (InLeft c n r # p) = n # inorder r @ rights p"
| "rights (InRight c l n # p) = rights p"

lemma inorder_plug [simp]: "inorder (plug t p) = lefts p @ inorder t @ rights p"
proof (induction p arbitrary: t)
  case (Cons f p)
  then show ?case by (cases f) simp_all
qed simp

lemma inorder_paint [simp]: "inorder (paint c t) = inorder t"
  by (cases t) simp_all

lemma inorder_left_rotate [simp]: "inorder (rbtree_left_rotate t) = inorder t"
  by (cases t rule: rbtree_left_rotate.cases) simp_all

lemma inorder_right_rotate [simp]: "inorder (rbtree_right_rotate t) = inorder t"
  by (cases t rule: rbtree_right_rotate.cases) simp_all

lemma inorder_set_left: "inorder l = inorder (left_child t) \<Longrightarrow> inorder (set_left t l) = inorder t"
  by (cases t) simp_all

lemma inorder_set_right: "inorder r = inorder (right_child t) \<Longrightarrow> inorder (set_right t r) = inorder t"
  by (cases t) simp_all

lemmas inorder_set = inorder_set_left inorder_set_right

lemma inorder_delete_rotate_left [simp]:
  "inorder (delete_rotate_left x pc pn w) = inorder x @ pn # inorder w"
  by (simp add: delete_rotate_left_def Let_def inorder_set)

lemma inorder_delete_rotate_right [simp]:
  "inorder (delete_rotate_right x pc pn w) = inorder w @ pn # inorder x"
  by (simp add: delete_rotate_right_def Let_def inorder_set)

lemma inorder_insert_fixup [simp]:
  "inorder (rbtree_insert_fixup z p) = lefts p @ inorder z @ rights p"
proof (induction z p rule: rbtree_insert_fixup.induct)
  case (1 z f gc gn y path)
  then show ?case by (cases f) (simp_all add: Let_def)
next
  case (2 z f gc y gn path)
  then show ?case by (cases f) (simp_all add: Let_def)
qed (use inorder_plug [of _ "[_]"] in simp_all)

lemma inorder_delete_fixup [simp]:
  "inorder (rbtree_delete_fixup x p) = lefts p @ inorder x @ rights p"
proof (induction x p rule: rbtree_delete_fixup.induct)
  case (2 x pc pn w path)
  then show ?case
    by (cases w) (simp_all add: rbtree_delete_fixup.simps(2) Let_def)
next
  case (3 x pc w pn path)
  then show ?case
    by (cases w) (simp_all add: rbtree_delete_fixup.simps(3) Let_def)
qed (simp add: rbtree_delete_fixup.simps(1))

lemma lefts_append: "lefts (p @ q) = lefts q @ lefts p"
  by (induction p rule: lefts.induct) simp_all

lemma rights_append: "rights (p @ q) = rights p @ rights q"
  by (induction p rule: rights.induct) simp_all

lemma rbtree_mini_inorder:
  "rbtree_mini t q = Some (yc, yn, x, q') \<Longrightarrow>
   lefts q = [] \<Longrightarrow> lefts q' = [] \<and> yn # inorder x @ rights q' = inorder t @ rights q"
  by (induction t q rule: rbtree_mini.induct) (auto split: if_splits)

lemma rbtree_mini_Node: "t \<noteq> Nil_node \<Longrightarrow> \<exists>y. rbtree_mini t q = Some y"
  by (induction t q rule: rbtree_mini.induct) auto

lemma inorder_delete:
  "inorder (rbtree_delete (Node zc l n r) p) = lefts p @ inorder l @ inorder r @ rights p"
proof (cases "l = Nil_node \<or> r = Nil_node")
  case False
  then obtain yc yn x q where m: "rbtree_mini r [] = Some (yc, yn, x, q)"
    using rbtree_mini_Node [of r "[]"] by auto
  then have "lefts q = [] \<and> yn # inorder x @ rights q = inorder r"
    using rbtree_mini_inorder [OF m] by simp
  with False m show ?thesis
    by (auto simp: lefts_append rights_append Let_def)
qed auto

section \<open>Colours and black heights\<close>

fun invc :: "rbt \<Rightarrow> bool" where
  "invc Nil_node = True"
| "invc (Node c l n r) \<longleftrightarrow>
     (c = RED \<longrightarrow> node_color l = BLACK \<and> node_color r = BLACK) \<and> invc l \<and> invc r"

fun bheight :: "rbt \<Rightarrow> nat" where
  "bheight Nil_node = 0"
| "bheight (Node c l n r) = (if c = BLACK then bheight l + 1 else bheight l)"

fun invh :: "rbt \<Rightarrow> bool" where
  "invh Nil_node = True"
| "invh (Node c l n r) \<longleftrightarrow> bheight l = bheight r \<and> invh l \<and> invh r"

text \<open>What a context asks of the colour and the black height of the tree in its hole.\<close>

fun path_invc :: "color \<Rightarrow> rbpath \<Rightarrow> bool" where
  "path_invc c [] = True"
| "path_invc c (InLeft d n r # p) \<longleftrightarrow>
     (d = RED \<longrightarrow> c = BLACK \<and> node_color r = BLACK) \<and> invc r \<and> path_invc d p"
| "path_invc c (InRight d l n # p) \<longleftrightarrow>
     (d = RED \<longrightarrow> c = BLACK \<and> node_color l = BLACK) \<and> invc l \<and> path_invc d p"

fun path_invh :: "nat \<Rightarrow> rbpath \<Rightarrow> bool" where
  "path_invh h [] = True"
| "path_invh h (InLeft d n r # p) \<longleftrightarrow>
     h = bheight r \<and> invh r \<and> path_invh (if d = BLACK then h + 1 else h) p"
| "path_invh h (InRight d l n # p) \<longleftrightarrow>
     bheight l = h \<and> invh l \<and> path_invh (if d = BLACK then h + 1 else h) p"

text \<open>The outermost ancestor is the root, which is black.\<close>

definition path_root_black :: "rbpath \<Rightarrow> bool" where
  "path_root_black p \<longleftrightarrow> (p \<noteq> [] \<longrightarrow> frame_color (last p) = BLACK)"

definition rb_balanced :: "rbt \<Rightarrow> bool" where
  "rb_balanced t \<longleftrightarrow> invc t \<and> invh t \<and> node_color t = BLACK"

lemma not_RED [simp]: "c \<noteq> RED \<longleftrightarrow> c = BLACK"
  by (cases c) simp_all

lemma not_BLACK [simp]: "c \<noteq> BLACK \<longleftrightarrow> c = RED"
  by (cases c) simp_all

lemma invc_plug: "invc (plug t p) \<longleftrightarrow> invc t \<and> path_invc (node_color t) p"
proof (induction p arbitrary: t)
  case (Cons f p)
  then show ?case by (cases f) auto
qed simp

lemma invh_plug: "invh (plug t p) \<longleftrightarrow> invh t \<and> path_invh (bheight t) p"
proof (induction p arbitrary: t)
  case (Cons f p)
  then show ?case by (cases f) (simp_all add: conj_ac cong: conj_cong)
qed simp

lemma color_plug1 [simp]: "node_color (plug1 t f) = frame_color f"
  by (cases f) simp_all

lemma color_plug:
  "path_root_black p \<Longrightarrow> p \<noteq> [] \<or> node_color t = BLACK \<Longrightarrow> node_color (plug t p) = BLACK"
proof (induction p arbitrary: t)
  case (Cons f p)
  then show ?case
    by (cases "p = []") (simp_all add: path_root_black_def)
qed simp

lemma path_invc_BLACK: "path_invc c p \<Longrightarrow> path_invc BLACK p"
  by (cases "(c, p)" rule: path_invc.cases) auto

lemma path_root_black_Cons:
  "path_root_black (f # p) \<longleftrightarrow> (if p = [] then frame_color f = BLACK else path_root_black p)"
  by (simp add: path_root_black_def)

lemma paint_props [simp]:
  "node_color (paint BLACK t) = BLACK" "invh (paint c t) = invh t" "paint c (paint d t) = paint c t"
  by (cases t; simp)+

lemma paint_same: "node_color t = c \<Longrightarrow> paint c t = t"
  by (cases t) auto

lemma invc_paint_BLACK: "invc t \<Longrightarrow> invc (paint BLACK t)"
  by (cases t) auto

lemma bheight_paint_BLACK: "node_color t = RED \<Longrightarrow> bheight (paint BLACK t) = bheight t + 1"
  by (cases t) auto

lemma rb_balanced_plug:
  assumes "invc t" and "invh t" and "path_invc (node_color t) p" and "path_invh (bheight t) p"
    and "path_root_black p"
  shows "rb_balanced (paint BLACK (plug t p))"
  using assms by (simp add: rb_balanced_def invc_paint_BLACK invc_plug invh_plug)

text \<open>Insertion: the focus is red and may have a red parent; everything else is in order.\<close>

lemma insert_rotate_left_balanced:
  assumes "frame_color f = RED" and "node_color z = RED" and "node_color y = BLACK"
    and "invc z" and "invh z" and "invc y" and "path_invc BLACK [f]" and "invh (Node BLACK (plug1 z f) gn y)"
  defines "p1 \<equiv> (case f of InRight _ _ _ \<Rightarrow> rbtree_left_rotate (plug1 z f) | InLeft _ _ _ \<Rightarrow> plug1 z f)"
  defines "t \<equiv> rbtree_right_rotate (Node RED (paint BLACK p1) gn y)"
  shows "invc t \<and> invh t \<and> node_color t = BLACK \<and> bheight t = bheight (plug1 z f) + 1"
  using assms by (cases f; cases z) auto

lemma insert_rotate_right_balanced:
  assumes "frame_color f = RED" and "node_color z = RED" and "node_color y = BLACK"
    and "invc z" and "invh z" and "invc y" and "path_invc BLACK [f]" and "invh (Node BLACK y gn (plug1 z f))"
  defines "p1 \<equiv> (case f of InLeft _ _ _ \<Rightarrow> rbtree_right_rotate (plug1 z f) | InRight _ _ _ \<Rightarrow> plug1 z f)"
  defines "t \<equiv> rbtree_left_rotate (Node RED y gn (paint BLACK p1))"
  shows "invc t \<and> invh t \<and> node_color t = BLACK \<and> bheight t = bheight (plug1 z f) + 1"
  using assms by (cases f; cases z) auto

lemma path_inv_Cons:
  "path_invc BLACK (f # p) \<longleftrightarrow> path_invc BLACK [f] \<and> path_invc (frame_color f) p"
  "invh z \<Longrightarrow> path_invh (bheight z) (f # p) \<longleftrightarrow> invh (plug1 z f) \<and> path_invh (bheight (plug1 z f)) p"
  by (cases f; auto)+

text \<open>One level of the insertion loop: what the invariant says of the two nearest ancestors.\<close>

lemma insert_recolour_left:
  assumes "frame_color f = RED" and "node_color y = RED" and "node_color z = RED" and "invc z" and "invh z"
    and "path_invc BLACK (f # InLeft gc gn y # path)" and "path_invh (bheight z) (f # InLeft gc gn y # path)"
  defines "g \<equiv> Node RED (paint BLACK (plug1 z f)) gn (paint BLACK y)"
  shows "invc g \<and> invh g \<and> path_invc BLACK path \<and> path_invh (bheight g) path"
  using assms by (cases f; cases y) auto

lemma insert_recolour_right:
  assumes "frame_color f = RED" and "node_color y = RED" and "node_color z = RED" and "invc z" and "invh z"
    and "path_invc BLACK (f # InRight gc y gn # path)" and "path_invh (bheight z) (f # InRight gc y gn # path)"
  defines "g \<equiv> Node RED (paint BLACK y) gn (paint BLACK (plug1 z f))"
  shows "invc g \<and> invh g \<and> path_invc BLACK path \<and> path_invh (bheight g) path"
  using assms by (cases f; cases y) auto

lemma insert_short_balanced:
  assumes "length p \<le> 1" and "invc z" and "invh z"
    and "path_invc BLACK p" and "path_invh (bheight z) p" and "path_root_black p"
  shows "rb_balanced (paint BLACK (plug z p))"
proof (cases p)
  case Nil
  with assms show ?thesis by (simp add: rb_balanced_def invc_paint_BLACK)
next
  case (Cons f q)
  with assms have p: "p = [f]" and "frame_color f = BLACK"
    by (auto simp: path_root_black_def)
  then have "path_invc (node_color z) p"
    using assms(4) by (cases f) auto
  then show ?thesis
    using assms by (intro rb_balanced_plug)
qed

lemma insert_fixup_balanced:
  assumes "node_color z = RED" and "invc z" and "invh z"
    and "path_invc BLACK p" and "path_invh (bheight z) p" and "path_root_black p"
  shows "rb_balanced (rbtree_insert_fixup z p)"
  using assms
proof (induction z p rule: rbtree_insert_fixup.induct)
  case (1 z f gc gn y path)
  let ?p = "f # InLeft gc gn y # path"
  have last: "path_root_black path"
    using "1.prems"(6) by (auto simp: path_root_black_def)
  consider (stop) "frame_color f = BLACK" | (up) "frame_color f = RED" "node_color y = RED"
    | (rot) "frame_color f = RED" "node_color y = BLACK"
    using not_BLACK by blast
  then show ?case
  proof cases
    case stop
    then have "path_invc (node_color z) ?p"
      using "1.prems"(4) by (cases f) auto
    then have "rb_balanced (paint BLACK (plug z ?p))"
      using "1.prems" by (intro rb_balanced_plug) auto
    with stop show ?thesis by simp
  next
    case up
    then have "rb_balanced (rbtree_insert_fixup (Node RED (paint BLACK (plug1 z f)) gn (paint BLACK y)) path)"
      using insert_recolour_left [OF up "1.prems"(1-5)] last by (intro "1.IH") auto
    with up show ?thesis by simp
  next
    case rot
    have gc: "gc = BLACK" "path_invc BLACK path" "path_invh (bheight (plug1 z f) + 1) path"
      using "1.prems" rot by (cases f; auto)+
    have t: "invc y" "path_invc BLACK [f]" "invh (Node BLACK (plug1 z f) gn y)"
      using "1.prems" rot by (cases f; auto)+
    show ?thesis
      using insert_rotate_left_balanced [OF rot(1) "1.prems"(1) rot(2) "1.prems"(2,3) t] gc last rot
      by (simp add: Let_def rb_balanced_plug)
  qed
next
  case (2 z f gc y gn path)
  let ?p = "f # InRight gc y gn # path"
  have last: "path_root_black path"
    using "2.prems"(6) by (auto simp: path_root_black_def)
  consider (stop) "frame_color f = BLACK" | (up) "frame_color f = RED" "node_color y = RED"
    | (rot) "frame_color f = RED" "node_color y = BLACK"
    using not_BLACK by blast
  then show ?case
  proof cases
    case stop
    then have "path_invc (node_color z) ?p"
      using "2.prems"(4) by (cases f) auto
    then have "rb_balanced (paint BLACK (plug z ?p))"
      using "2.prems" by (intro rb_balanced_plug) auto
    with stop show ?thesis by simp
  next
    case up
    then have "rb_balanced (rbtree_insert_fixup (Node RED (paint BLACK y) gn (paint BLACK (plug1 z f))) path)"
      using insert_recolour_right [OF up "2.prems"(1-5)] last by (intro "2.IH") auto
    with up show ?thesis by simp
  next
    case rot
    have gc: "gc = BLACK" "path_invc BLACK path" "path_invh (bheight (plug1 z f) + 1) path"
      using "2.prems" rot by (cases f; auto)+
    have t: "invc y" "path_invc BLACK [f]" "invh (Node BLACK y gn (plug1 z f))"
      using "2.prems" rot by (cases f; auto)+
    show ?thesis
      using insert_rotate_right_balanced [OF rot(1) "2.prems"(1) rot(2) "2.prems"(2,3) t] gc last rot
      by (simp add: Let_def rb_balanced_plug)
  qed
qed (use insert_short_balanced [of "[]"] insert_short_balanced [of "[_]"] in simp_all)

text \<open>Deletion: the focus lacks one black node; painting it black would restore its colours.\<close>

lemma delete_rotate_left_balanced:
  assumes "invc x" "invh x" "invc w" "invh w" "node_color x = BLACK" "node_color w = BLACK"
    and "bheight w = bheight x + 1"
    and "\<not> (node_color (left_child w) = BLACK \<and> node_color (right_child w) = BLACK)"
  shows "invc (delete_rotate_left x pc pn w) \<and> invh (delete_rotate_left x pc pn w) \<and>
    node_color (delete_rotate_left x pc pn w) = pc \<and>
    bheight (delete_rotate_left x pc pn w) = (if pc = BLACK then bheight w + 1 else bheight w)"
proof -
  obtain wl wn wr where w: "w = Node BLACK wl wn wr"
    using assms by (cases w) auto
  show ?thesis
    using assms unfolding w delete_rotate_left_def Let_def by (cases wl; cases wr) auto
qed

lemma delete_rotate_right_balanced:
  assumes "invc x" "invh x" "invc w" "invh w" "node_color x = BLACK" "node_color w = BLACK"
    and "bheight w = bheight x + 1"
    and "\<not> (node_color (left_child w) = BLACK \<and> node_color (right_child w) = BLACK)"
  shows "invc (delete_rotate_right x pc pn w) \<and> invh (delete_rotate_right x pc pn w) \<and>
    node_color (delete_rotate_right x pc pn w) = pc \<and>
    bheight (delete_rotate_right x pc pn w) = (if pc = BLACK then bheight w + 1 else bheight w)"
proof -
  obtain wl wn wr where w: "w = Node BLACK wl wn wr"
    using assms by (cases w) auto
  show ?thesis
    using assms unfolding w delete_rotate_right_def Let_def by (cases wl; cases wr) auto
qed

text \<open>The loop invariant of \<open>rbtree_delete_fixup\<close>.\<close>

definition del_inv :: "rbt \<Rightarrow> rbpath \<Rightarrow> bool" where
  "del_inv x p \<longleftrightarrow> invc (paint BLACK x) \<and> invh x \<and> path_invc BLACK p \<and>
     path_invh (bheight x + 1) p \<and> path_root_black p"

lemma del_inv_red:
  assumes "del_inv x p" and "node_color x = RED" and "p \<noteq> []"
  shows "rb_balanced (plug (paint BLACK x) p)"
  using assms
  by (simp add: del_inv_def rb_balanced_def invc_plug invh_plug bheight_paint_BLACK color_plug)

lemma del_inv_recolour_left:
  assumes "del_inv x (InLeft pc pn w # p)" and "node_color x = BLACK" and "node_color w = BLACK"
    and "node_color (left_child w) = BLACK" and "node_color (right_child w) = BLACK"
  shows "del_inv (Node pc x pn (paint RED w)) p"
  using assms
  by (cases w) (auto simp: del_inv_def paint_same path_root_black_def dest: path_invc_BLACK)

lemma del_inv_recolour_right:
  assumes "del_inv x (InRight pc w pn # p)" and "node_color x = BLACK" and "node_color w = BLACK"
    and "node_color (left_child w) = BLACK" and "node_color (right_child w) = BLACK"
  shows "del_inv (Node pc (paint RED w) pn x) p"
  using assms
  by (cases w) (auto simp: del_inv_def paint_same path_root_black_def dest: path_invc_BLACK)

lemma del_inv_rotate_left:
  assumes "del_inv x (InLeft pc pn w # p)" and "node_color x = BLACK" and "node_color w = BLACK"
    and "\<not> (node_color (left_child w) = BLACK \<and> node_color (right_child w) = BLACK)"
  shows "rb_balanced (paint BLACK (plug (delete_rotate_left x pc pn w) p))"
proof -
  have w: "invc x" "invh x" "invc w" "invh w" "bheight w = bheight x + 1"
    using assms by (auto simp: del_inv_def paint_same)
  have p: "path_invc pc p" "path_invh (if pc = BLACK then bheight w + 1 else bheight w) p" "path_root_black p"
    using assms by (auto simp: del_inv_def path_root_black_def split: if_splits)
  show ?thesis
    using delete_rotate_left_balanced [OF w(1-4) assms(2,3) w(5) assms(4), of pc pn] p
    by (intro rb_balanced_plug) simp_all
qed

lemma del_inv_rotate_right:
  assumes "del_inv x (InRight pc w pn # p)" and "node_color x = BLACK" and "node_color w = BLACK"
    and "\<not> (node_color (left_child w) = BLACK \<and> node_color (right_child w) = BLACK)"
  shows "rb_balanced (paint BLACK (plug (delete_rotate_right x pc pn w) p))"
proof -
  have w: "invc x" "invh x" "invc w" "invh w" "bheight w = bheight x + 1"
    using assms by (auto simp: del_inv_def paint_same)
  have p: "path_invc pc p" "path_invh (if pc = BLACK then bheight w + 1 else bheight w) p" "path_root_black p"
    using assms by (auto simp: del_inv_def path_root_black_def split: if_splits)
  show ?thesis
    using delete_rotate_right_balanced [OF w(1-4) assms(2,3) w(5) assms(4), of pc pn] p
    by (intro rb_balanced_plug) simp_all
qed

text \<open>A red sibling: after the first rotation the parent is red and the sibling black.\<close>

lemma del_inv_red_sibling_left:
  assumes "del_inv x (InLeft pc pn (Node RED wl wn wr) # p)"
  shows "del_inv x (InLeft RED pn wl # InLeft BLACK wn wr # p)" and "node_color wl = BLACK"
  using assms by (auto simp: del_inv_def path_root_black_def split: if_splits)

lemma del_inv_red_sibling_right:
  assumes "del_inv x (InRight pc (Node RED wl wn wr) pn # p)"
  shows "del_inv x (InRight RED wr pn # InRight BLACK wl wn # p)" and "node_color wr = BLACK"
  using assms by (auto simp: del_inv_def path_root_black_def split: if_splits)

lemma delete_fixup_balanced: "del_inv x p \<Longrightarrow> rb_balanced (rbtree_delete_fixup x p)"
proof (induction x p rule: rbtree_delete_fixup.induct)
  case (1 x)
  then show ?case by (simp add: rbtree_delete_fixup.simps(1) rb_balanced_def del_inv_def)
next
  case (2 x pc pn w path)
  show ?case
  proof (cases "node_color x = RED \<or> node_color w = BLACK")
    case True
    with 2 show ?thesis
      by (auto simp: rbtree_delete_fixup.simps(2) del_inv_red [of x "InLeft pc pn w # path", simplified]
          del_inv_recolour_left del_inv_rotate_left)
  next
    case False
    then obtain wl wn wr where w: "w = Node RED wl wn wr"
      by (cases w) auto
    note sib = del_inv_red_sibling_left [OF "2.prems" [unfolded w]]
    have x: "node_color x = BLACK"
      using False by simp
    show ?thesis
    proof (cases "node_color (left_child wl) = BLACK \<and> node_color (right_child wl) = BLACK")
      case True
      then have "rb_balanced (rbtree_delete_fixup (Node RED x pn (paint RED wl)) (InLeft BLACK wn wr # path))"
        using "2.IH"(1) [OF _ _ refl refl] del_inv_recolour_left [OF sib(1) x sib(2)] x by (simp add: w)
      with True x show ?thesis by (simp add: rbtree_delete_fixup.simps(2) w)
    next
      case nb: False
      then show ?thesis
        using del_inv_rotate_left [OF sib(1) x sib(2)] x by (auto simp: rbtree_delete_fixup.simps(2) w Let_def)
    qed
  qed
next
  case (3 x pc w pn path)
  show ?case
  proof (cases "node_color x = RED \<or> node_color w = BLACK")
    case True
    with 3 show ?thesis
      by (auto simp: rbtree_delete_fixup.simps(3) del_inv_red [of x "InRight pc w pn # path", simplified]
          del_inv_recolour_right del_inv_rotate_right)
  next
    case False
    then obtain wl wn wr where w: "w = Node RED wl wn wr"
      by (cases w) auto
    note sib = del_inv_red_sibling_right [OF "3.prems" [unfolded w]]
    have x: "node_color x = BLACK"
      using False by simp
    show ?thesis
    proof (cases "node_color (left_child wr) = BLACK \<and> node_color (right_child wr) = BLACK")
      case True
      then have "rb_balanced (rbtree_delete_fixup (Node RED (paint RED wr) pn x) (InRight BLACK wl wn # path))"
        using "3.IH"(1) [OF _ _ refl refl] del_inv_recolour_right [OF sib(1) x sib(2)] x by (simp add: w)
      with True x show ?thesis by (simp add: rbtree_delete_fixup.simps(3) w)
    next
      case nb: False
      then show ?thesis
        using del_inv_rotate_right [OF sib(1) x sib(2)] x by (auto simp: rbtree_delete_fixup.simps(3) w Let_def)
    qed
  qed
qed

text \<open>\<open>rbtree_delete\<close>: removing the node, or its successor, sets up the loop invariant.\<close>

lemma rbtree_mini_plug:
  "rbtree_mini t q = Some (yc, yn, x, q') \<Longrightarrow> plug (Node yc Nil_node yn x) q' = plug t q"
  by (induction t q rule: rbtree_mini.induct) (auto split: if_splits)

lemma plug_append: "plug t (p @ q) = plug (plug t p) q"
  by (induction p arbitrary: t) simp_all

lemma plug_rb:
  assumes "rb_balanced (plug t p)"
  shows "invc t" and "invh t" and "path_invc (node_color t) p" and "path_invh (bheight t) p"
    and "path_root_black p" and "p = [] \<Longrightarrow> node_color t = BLACK"
proof -
  show "invc t" "invh t" "path_invc (node_color t) p" "path_invh (bheight t) p" "p = [] \<Longrightarrow> node_color t = BLACK"
    using assms by (auto simp: rb_balanced_def invc_plug invh_plug)
  show "path_root_black p"
  proof (cases p rule: rev_cases)
    case (snoc q f)
    with assms show ?thesis
      by (simp add: path_root_black_def rb_balanced_def plug_append)
  qed (simp add: path_root_black_def)
qed

lemma rb_balanced_plug_iff:
  "rb_balanced (plug t p) \<longleftrightarrow> invc t \<and> invh t \<and> path_invc (node_color t) p \<and>
     path_invh (bheight t) p \<and> path_root_black p \<and> (p = [] \<longrightarrow> node_color t = BLACK)"
proof
  assume "rb_balanced (plug t p)"
  from plug_rb [OF this] show "invc t \<and> invh t \<and> path_invc (node_color t) p \<and>
     path_invh (bheight t) p \<and> path_root_black p \<and> (p = [] \<longrightarrow> node_color t = BLACK)" by blast
next
  assume "invc t \<and> invh t \<and> path_invc (node_color t) p \<and>
     path_invh (bheight t) p \<and> path_root_black p \<and> (p = [] \<longrightarrow> node_color t = BLACK)"
  then show "rb_balanced (plug t p)"
    using color_plug [of p t] by (simp add: rb_balanced_def invc_plug invh_plug)
qed

text \<open>Splicing out a node with at most one child \<open>x\<close>.\<close>

lemma splice_balanced:
  assumes "rb_balanced (plug t p)" and "bheight t = (if c = BLACK then bheight x + 1 else bheight x)"
    and "invc x" and "invh x" and "c = RED \<Longrightarrow> node_color x = BLACK" and "node_color t = c"
  shows "rb_balanced (if c = BLACK then rbtree_delete_fixup x p else plug x p)"
proof (cases "c = BLACK")
  case True
  then have "del_inv x p"
    using plug_rb [OF assms(1)] assms by (simp add: del_inv_def invc_paint_BLACK)
  with True show ?thesis by (simp add: delete_fixup_balanced)
next
  case False
  with plug_rb [OF assms(1)] assms have "invc (plug x p)" "invh (plug x p)"
    by (auto simp: invc_plug invh_plug dest: path_invc_BLACK)
  moreover have "node_color (plug x p) = BLACK"
    using plug_rb [OF assms(1)] False assms(5) by (intro color_plug) auto
  ultimately show ?thesis
    using False by (simp add: rb_balanced_def)
qed

lemma delete_balanced:
  assumes "rb_balanced (plug (Node zc l n r) p)"
  shows "rb_balanced (rbtree_delete (Node zc l n r) p)"
proof (cases "l = Nil_node \<or> r = Nil_node")
  case True
  then show ?thesis
    using splice_balanced [OF assms, of zc l] splice_balanced [OF assms, of zc r] plug_rb(1,2) [OF assms]
    by auto
next
  case False
  then obtain yc yn x q where m: "rbtree_mini r [] = Some (yc, yn, x, q)"
    using rbtree_mini_Node [of r "[]"] by auto
  let ?q = "q @ InRight zc l yn # p"
  have r: "plug (Node yc Nil_node yn x) q = r"
    using rbtree_mini_plug [OF m] by simp
  have "rb_balanced (plug (Node zc l yn r) p)"
    using assms by (simp add: rb_balanced_plug_iff)
  then have "rb_balanced (plug (Node yc Nil_node yn x) ?q)"
    by (simp add: plug_append r)
  from splice_balanced [OF this, of yc x] plug_rb(1,2) [OF this] show ?thesis
    using False m by (auto simp: Let_def)
qed

section \<open>Search-tree order and the engine invariant\<close>

abbreviation nkey :: "rbnode \<Rightarrow> bytes" where
  "nkey n \<equiv> kbytes (rkey n)"

definition nodes_ok :: "rbnode list \<Rightarrow> bool" where
  "nodes_ok ns \<longleftrightarrow> sorted_wrt (<) (map nkey ns) \<and> (\<forall>n\<in>set ns. kdata (rkey n) \<noteq> None)"

definition nodes_map :: "rbnode list \<Rightarrow> bytes \<Rightarrow> rbnode option" where
  "nodes_map ns = map_of (map (\<lambda>n. (nkey n, n)) ns)"

definition rbnode_entry :: "rbnode \<Rightarrow> entry" where
  "rbnode_entry n = (kbytes (rvalue n), rexpire_time n)"

definition rbtree_inv :: "kvs_rbtree \<Rightarrow> bool" where
  "rbtree_inv inst \<longleftrightarrow> rb_nil inst \<and> rb_balanced (rb_root inst) \<and> nodes_ok (inorder (rb_root inst))"

definition rbtree_contents :: "kvs_rbtree \<Rightarrow> store_map" where
  "rbtree_contents inst k = map_option rbnode_entry (nodes_map (inorder (rb_root inst)) k)"

lemma nodes_ok_append:
  "nodes_ok (xs @ ys) \<longleftrightarrow> nodes_ok xs \<and> nodes_ok ys \<and> (\<forall>x\<in>set xs. \<forall>y\<in>set ys. nkey x < nkey y)"
  by (auto simp: nodes_ok_def sorted_wrt_append)

lemma nodes_ok_Cons:
  "nodes_ok (x # ys) \<longleftrightarrow> kdata (rkey x) \<noteq> None \<and> nodes_ok ys \<and> (\<forall>y\<in>set ys. nkey x < nkey y)"
  by (auto simp: nodes_ok_def)

lemma nodes_ok_Nil [simp]: "nodes_ok []"
  by (simp add: nodes_ok_def)

lemmas nodes_ok_simps = nodes_ok_append nodes_ok_Cons

lemma nodes_map_None: "(\<And>n. n \<in> set ns \<Longrightarrow> nkey n \<noteq> k) \<Longrightarrow> nodes_map ns k = None"
  by (force simp: nodes_map_def map_of_eq_None_iff)

lemma nodes_map_simps [simp]:
  "nodes_map [] k = None"
  "nodes_map (n # ns) k = (if k = nkey n then Some n else nodes_map ns k)"
  "nodes_map (xs @ ys) k = (case nodes_map xs k of None \<Rightarrow> nodes_map ys k | Some n \<Rightarrow> Some n)"
  by (auto simp: nodes_map_def map_add_def split: option.split)

text \<open>A node of an ordered list is found under its key, with nothing on either side.\<close>

lemma nodes_map_middle:
  assumes "\<And>n. n \<in> set xs \<Longrightarrow> nkey n < k" and "\<And>n. n \<in> set ys \<Longrightarrow> k < nkey n"
  shows "nodes_map (xs @ zs @ ys) k = nodes_map zs k"
  using nodes_map_None [of xs k] nodes_map_None [of ys k] assms
  by (fastforce split: option.split)

lemma rbtree_search_nodes:
  "nodes_ok (inorder t) \<Longrightarrow> rbtree_search t key = nodes_map (inorder t) (kbytes key)"
proof (induction t key rule: rbtree_search.induct)
  case (2 c l n r key)
  have ord: "\<And>x. x \<in> set (inorder l) \<Longrightarrow> nkey x < nkey n" "\<And>x. x \<in> set (inorder r) \<Longrightarrow> nkey n < nkey x"
    and ok: "nodes_ok (inorder l)" "nodes_ok (inorder r)" "kdata (rkey n) \<noteq> None"
    using "2.prems" by (auto simp: nodes_ok_simps)
  consider "kbytes key < nkey n" | "nkey n < kbytes key" | "kbytes key = nkey n"
    by (meson linorder_less_linear)
  then show ?case
  proof cases
    case 1
    then have "nodes_map (inorder r) (kbytes key) = None"
      using ord(2) by (intro nodes_map_None) fastforce
    with 1 ok "2.IH" show ?thesis
      by (auto simp: Let_def split: option.split)
  next
    case 2
    then have "nodes_map (inorder l) (kbytes key) = None"
      using ord(1) by (intro nodes_map_None) fastforce
    with 2 ok "2.IH" show ?thesis
      by (auto simp: Let_def less_not_sym)
  next
    case 3
    then have "nodes_map (inorder l) (kbytes key) = None"
      using ord(1) by (intro nodes_map_None) fastforce
    with 3 ok show ?thesis by simp
  qed
qed simp

lemma find_parent_plug:
  "rbtree_find_parent key t p = (t', p') \<Longrightarrow> plug t' p' = plug t p"
  by (induction key t p rule: rbtree_find_parent.induct) (auto simp: Let_def split: if_splits)

text \<open>The descent keeps smaller keys on its left and larger keys on its right.\<close>

definition path_splits :: "bytes \<Rightarrow> rbpath \<Rightarrow> bool" where
  "path_splits k p \<longleftrightarrow> (\<forall>n\<in>set (lefts p). nkey n < k) \<and> (\<forall>n\<in>set (rights p). k < nkey n)"

lemma find_parent_splits:
  assumes "rbtree_find_parent key t p = (t', p')" and "nodes_ok (inorder t)" and "path_splits (kbytes key) p"
  shows "path_splits (kbytes key) p' \<and>
    (case t' of Nil_node \<Rightarrow> True | Node c l n r \<Rightarrow> nkey n = kbytes key)"
  using assms
proof (induction key t p rule: rbtree_find_parent.induct)
  case (2 key c l n r path)
  have ord: "\<And>x. x \<in> set (inorder l) \<Longrightarrow> nkey x < nkey n" "\<And>x. x \<in> set (inorder r) \<Longrightarrow> nkey n < nkey x"
    and ok: "nodes_ok (inorder l)" "nodes_ok (inorder r)"
    using "2.prems"(2) by (auto simp: nodes_ok_simps)
  consider "kbytes key < nkey n" | "nkey n < kbytes key" | "kbytes key = nkey n"
    by (meson linorder_less_linear)
  then show ?case
  proof cases
    case 1
    with ord(2) "2.prems"(3) have "path_splits (kbytes key) (InLeft c n r # path)"
      by (fastforce simp: path_splits_def)
    with 1 2 ok show ?thesis by simp
  next
    case 2
    with ord(1) "2.prems"(3) have "path_splits (kbytes key) (InRight c l n # path)"
      by (fastforce simp: path_splits_def)
    with 2 "2.IH" "2.prems" ok show ?thesis by (simp add: less_not_sym)
  next
    case 3
    with 2 show ?thesis by auto
  qed
qed simp

text \<open>Where a key is, or would be, in a well-formed tree.\<close>

lemma rbtree_locate:
  assumes "rbtree_inv inst"
  obtains (absent) p where "rbtree_find_parent (kd k) (rb_root inst) [] = (Nil_node, p)"
    and "plug Nil_node p = rb_root inst" and "path_splits k p"
    and "rbtree_search (rb_root inst) (kd k) = None" and "rbtree_contents inst k = None"
  | (present) c l n r p where "rbtree_find_parent (kd k) (rb_root inst) [] = (Node c l n r, p)"
    and "plug (Node c l n r) p = rb_root inst" and "path_splits k p" and "nkey n = k"
    and "rbtree_search (rb_root inst) (kd k) = Some n" and "rbtree_contents inst k = Some (rbnode_entry n)"
proof -
  let ?t = "rb_root inst"
  have ok: "nodes_ok (inorder ?t)"
    using assms by (simp add: rbtree_inv_def)
  obtain t p where f: "rbtree_find_parent (kd k) ?t [] = (t, p)"
    by (cases "rbtree_find_parent (kd k) ?t []")
  have plug: "plug t p = ?t"
    using find_parent_plug [OF f] by simp
  have sp: "path_splits k p" "case t of Nil_node \<Rightarrow> True | Node c l n r \<Rightarrow> nkey n = k"
    using find_parent_splits [OF f ok] by (auto simp: path_splits_def split: rbt.splits)
  have look: "nodes_map (inorder ?t) k = nodes_map (inorder t) k"
    using sp(1) by (simp del: nodes_map_simps flip: plug add: nodes_map_middle path_splits_def)
  show ?thesis
  proof (cases t)
    case Nil_node
    then show ?thesis
      using f plug sp(1) look ok by (intro absent) (simp_all add: rbtree_contents_def rbtree_search_nodes)
  next
    case (Node c l n r)
    have "nodes_map (inorder l) k = None"
      using ok sp(2) Node by (intro nodes_map_None) (auto simp: nodes_ok_simps simp flip: plug)
    then show ?thesis
      using f plug sp look ok Node
      by (intro present) (simp_all add: rbtree_contents_def rbtree_search_nodes)
  qed
qed

text \<open>Replacing what is stored under one key, at the place of that key.\<close>

lemma rbtree_replace:
  assumes inv: "rbtree_inv inst" and root: "inorder (rb_root inst) = xs @ zs @ ys"
    and xs: "\<And>x. x \<in> set xs \<Longrightarrow> nkey x < k" and ys: "\<And>y. y \<in> set ys \<Longrightarrow> k < nkey y" and zs: "\<forall>z\<in>set zs. nkey z = k"
    and new: "case new of None \<Rightarrow> True | Some n \<Rightarrow> nkey n = k \<and> kdata (rkey n) \<noteq> None"
    and t: "rb_balanced t" "inorder t = xs @ (case new of None \<Rightarrow> [] | Some n \<Rightarrow> [n]) @ ys"
  shows "rbtree_inv (inst\<lparr>rb_root := t\<rparr>)"
    and "rbtree_contents (inst\<lparr>rb_root := t\<rparr>) = (rbtree_contents inst)(k := map_option rbnode_entry new)"
proof -
  have "nodes_ok (inorder t)"
    using inv xs ys new unfolding rbtree_inv_def root t(2)
    by (fastforce simp: nodes_ok_simps split: option.splits)
  then show "rbtree_inv (inst\<lparr>rb_root := t\<rparr>)"
    using inv t(1) by (simp add: rbtree_inv_def)
  have other: "nodes_map (xs @ zs @ ys) k' = nodes_map (xs @ ys) k'"
    if "k' \<noteq> k" and "\<forall>z\<in>set zs. nkey z = k" for xs zs ys k'
    using nodes_map_None [of zs k'] that by (auto split: option.split)
  have other1: "nodes_map (xs @ n # ys) k' = nodes_map (xs @ ys) k'" if "k' \<noteq> nkey n" for xs n ys k'
    using that by (auto split: option.split)
  show "rbtree_contents (inst\<lparr>rb_root := t\<rparr>) = (rbtree_contents inst)(k := map_option rbnode_entry new)"
  proof
    fix k'
    show "rbtree_contents (inst\<lparr>rb_root := t\<rparr>) k' = ((rbtree_contents inst)(k := map_option rbnode_entry new)) k'"
    proof (cases "k' = k")
      case True
      then show ?thesis
        using new nodes_map_middle [of xs k ys, OF xs ys]
        by (auto simp: rbtree_contents_def t(2) simp del: nodes_map_simps(3) split: option.splits)
    next
      case False
      with zs new show ?thesis
        by (auto simp: rbtree_contents_def t(2) root other other1 simp del: nodes_map_simps(3) split: option.splits)
    qed
  qed
qed

lemma rbnode_create_simps [simp]:
  "nkey (rbtree_node_create key value expire) = kbytes key"
  "kdata (rkey (rbtree_node_create key value expire)) \<noteq> None"
  "rbnode_entry (rbtree_node_create key value expire) = (kbytes value, expire)"
  by (simp_all add: rbtree_node_create_def rbnode_entry_def)

lemma insert_new_balanced:
  assumes "rb_balanced (plug Nil_node p)"
  shows "rb_balanced (rbtree_insert_fixup (Node RED Nil_node n Nil_node) p)"
  using plug_rb [OF assms] by (intro insert_fixup_balanced) simp_all

text \<open>The three changes of the tree: a new node, a removed node, a value written in place.\<close>

lemma rbtree_insert_ok:
  assumes inv: "rbtree_inv inst" and p: "plug Nil_node p = rb_root inst" and sp: "path_splits k p"
    and n: "n = rbtree_node_create (kd k) value e"
    and t: "t = rbtree_insert_fixup (Node RED Nil_node n Nil_node) p"
  shows "rbtree_inv (inst\<lparr>rb_root := t\<rparr>)"
    and "rbtree_contents (inst\<lparr>rb_root := t\<rparr>) = (rbtree_contents inst)(k \<mapsto> (kbytes value, e))"
proof -
  have bal: "rb_balanced t"
    unfolding t using inv p by (intro insert_new_balanced) (simp add: rbtree_inv_def)
  have "inorder (rb_root inst) = lefts p @ [] @ rights p"
    by (simp flip: p)
  from rbtree_replace [OF inv this, of k "Some n" t] bal sp
  show "rbtree_inv (inst\<lparr>rb_root := t\<rparr>)"
    "rbtree_contents (inst\<lparr>rb_root := t\<rparr>) = (rbtree_contents inst)(k \<mapsto> (kbytes value, e))"
    by (simp_all add: t n path_splits_def)
qed

lemma rbtree_splits_at:
  assumes inv: "rbtree_inv inst" and p: "plug (Node c l n r) p = rb_root inst"
  shows "inorder (rb_root inst) = (lefts p @ inorder l) @ [n] @ (inorder r @ rights p)"
    and "\<And>x. x \<in> set (lefts p @ inorder l) \<Longrightarrow> nkey x < nkey n"
    and "\<And>x. x \<in> set (inorder r @ rights p) \<Longrightarrow> nkey n < nkey x"
    and "kdata (rkey n) \<noteq> None"
  using inv by (auto simp: rbtree_inv_def nodes_ok_simps simp flip: p)

lemma rbtree_delete_ok:
  assumes inv: "rbtree_inv inst" and p: "plug (Node c l n r) p = rb_root inst"
    and t: "t = rbtree_delete (Node c l n r) p"
  shows "rbtree_inv (inst\<lparr>rb_root := t\<rparr>)"
    and "rbtree_contents (inst\<lparr>rb_root := t\<rparr>) = (rbtree_contents inst)(nkey n := None)"
proof -
  have bal: "rb_balanced t"
    unfolding t using inv p by (intro delete_balanced) (simp add: rbtree_inv_def)
  note sp = rbtree_splits_at [OF inv p]
  from rbtree_replace [OF inv sp(1-3), of None t] bal
  show "rbtree_inv (inst\<lparr>rb_root := t\<rparr>)"
    "rbtree_contents (inst\<lparr>rb_root := t\<rparr>) = (rbtree_contents inst)(nkey n := None)"
    by (simp_all add: t inorder_delete del: rbtree_delete.simps)
qed

lemma rbtree_update_ok:
  assumes inv: "rbtree_inv inst" and p: "plug (Node c l n r) p = rb_root inst" and n': "rkey n' = rkey n"
    and t: "t = plug (Node c l n' r) p"
  shows "rbtree_inv (inst\<lparr>rb_root := t\<rparr>)"
    and "rbtree_contents (inst\<lparr>rb_root := t\<rparr>) = (rbtree_contents inst)(nkey n \<mapsto> rbnode_entry n')"
proof -
  have bal: "rb_balanced t"
    using inv unfolding t by (simp add: rbtree_inv_def rb_balanced_plug_iff flip: p)
  note sp = rbtree_splits_at [OF inv p]
  from rbtree_replace [OF inv sp(1-3), of "Some n'" t] bal sp(4)
  show "rbtree_inv (inst\<lparr>rb_root := t\<rparr>)"
    "rbtree_contents (inst\<lparr>rb_root := t\<rparr>) = (rbtree_contents inst)(nkey n \<mapsto> rbnode_entry n')"
    by (simp_all add: t n')
qed

lemma kvs_rbtree_set_cases:
  assumes inv: "rbtree_inv inst" and st: "kvs_rbtree_set ok inst (kd k) (kd v) e = (ret, inst')"
  shows "rbtree_inv inst' \<and>
    (ret = 0 \<and> rbtree_contents inst' = (rbtree_contents inst)(k \<mapsto> (v, e)) \<or>
     ret = -1 \<and> (rbtree_contents inst' = rbtree_contents inst \<or>
                  rbtree_contents inst' = (rbtree_contents inst)(k := None)))"
  using inv
proof (cases rule: rbtree_locate [where k = k])
  case (absent p)
  show ?thesis
    using st inv absent rbtree_insert_ok [OF inv absent(2,3) refl refl, of "kd v" e]
    by (auto simp: kvs_rbtree_set_def rbtree_inv_def split: if_splits)
next
  case (present c l n r p)
  have nil: "rb_nil inst"
    using inv by (simp add: rbtree_inv_def)
  show ?thesis
  proof (cases "length v \<le> klen (rvalue n)")
    case True
    let ?n = "n\<lparr>rvalue := (rvalue n)\<lparr>kdata := Some v\<rparr>, rexpire_time := e\<rparr>"
    have "rbnode_entry ?n = (v, e)"
      by (simp add: rbnode_entry_def kbytes_def)
    then show ?thesis
      using st nil True present rbtree_update_ok [OF inv present(2), of ?n] by (auto simp: kvs_rbtree_set_def)
  next
    case False
    let ?i = "inst\<lparr>rb_root := rbtree_delete (Node c l n r) p\<rparr>"
    note del = rbtree_delete_ok [OF inv present(2) refl]
    show ?thesis
    proof (cases "ok 0")
      case True
      from del(1) show ?thesis
      proof (cases rule: rbtree_locate [where k = k])
        case (absent q)
        then show ?thesis
          using st nil False present(1,4) del True rbtree_insert_ok [OF del(1) absent(2,3) refl refl, of "kd v" e]
          by (auto simp: kvs_rbtree_set_def)
      next
        case (present c' l' n' r' q)
        with del(2) \<open>nkey n = k\<close> show ?thesis by simp
      qed
    next
      case no: False
      with False nil present st del show ?thesis
        by (auto simp: kvs_rbtree_set_def)
    qed
  qed
qed

lemma kvs_rbtree_del_cases:
  assumes inv: "rbtree_inv inst"
  shows "rbtree_contents inst k = None \<Longrightarrow> kvs_rbtree_del inst (kd k) = (1, inst)"
    and "rbtree_contents inst k \<noteq> None \<Longrightarrow> \<exists>inst'. kvs_rbtree_del inst (kd k) = (0, inst') \<and>
       rbtree_inv inst' \<and> rbtree_contents inst' = (rbtree_contents inst)(k := None)"
  by (cases rule: rbtree_locate [OF inv, of k];
      auto simp: kvs_rbtree_del_def dest: rbtree_delete_ok [OF inv _ refl] simp del: rbtree_delete.simps)+

interpretation rbe: kv_engine rbtree_inv "\<lambda>_. True" rbtree_contents kvs_rbtree_set kvs_rbtree_get
  kvs_rbtree_del kvs_rbtree_exist kvs_rbtree_del_if_expired
proof (unfold_locales, goal_cases)
  case (1 s k ok v e r s')
  then show ?case using kvs_rbtree_set_cases by blast
next
  case (2 s k ok v e s')
  then show ?case using kvs_rbtree_set_cases [of s ok k v e 0 s'] by simp
next
  case (3 s k ok v e r s' k')
  then show ?case using kvs_rbtree_set_cases [of s ok k v e r s'] by auto
next
  case (4 s k ttl now)
  then show ?case
    by (cases rule: rbtree_locate [OF 4(1), of k]) (auto simp: kvs_rbtree_get_def)
next
  case (5 s k v e ttl now)
  then show ?case
    by (cases rule: rbtree_locate [OF 5(1), of k]) (auto simp: kvs_rbtree_get_def rbnode_entry_def expired_def)
next
  case (6 s k v e ttl now)
  then show ?case
    by (cases rule: rbtree_locate [OF 6(1), of k]) (auto simp: kvs_rbtree_get_def rbnode_entry_def expired_def)
next
  case (7 s k)
  then show ?case by (rule kvs_rbtree_del_cases)
next
  case (8 s k ent)
  then show ?case by (intro kvs_rbtree_del_cases(2)) simp_all
next
  case (9 s ttl now k)
  then show ?case by (simp add: kvs_rbtree_exist_def Let_def split_beta)
next
  case (10 s k x)
  then show ?case
    by (cases rule: rbtree_locate [OF 10(1), of k]) (auto simp: kvs_rbtree_del_if_expired_def rbnode_entry_def)
qed

section \<open>Height\<close>

fun rb_height :: "rbt \<Rightarrow> nat" where
  "rb_height Nil_node = 0"
| "rb_height (Node c l n r) = Suc (max (rb_height l) (rb_height r))"

lemma height_bheight:
  "invc t \<Longrightarrow> invh t \<Longrightarrow> rb_height t \<le> 2 * bheight t + (if node_color t = RED then 1 else 0)"
proof (induction t)
  case (Node c l n r)
  then show ?case by (cases c) (auto split: if_splits)
qed simp

lemma size_bheight: "invh t \<Longrightarrow> 2 ^ bheight t \<le> length (inorder t) + 1"
proof (induction t)
  case (Node c l n r)
  then have "2 ^ bheight l \<le> length (inorder l) + 1" "2 ^ bheight l \<le> length (inorder r) + 1"
    by simp_all
  then show ?case by simp
qed simp

lemma kvs_rbtree_create_inv:
  "kvs_rbtree_create True s = (0, t) \<Longrightarrow> rbtree_inv t \<and> rbtree_contents t = (\<lambda>_. None)"
  by (auto simp: kvs_rbtree_create_def rbtree_inv_def rb_balanced_def rbtree_contents_def)

lemma foreach_node_filter:
  "rbtree_foreach_node now check t =
     filter (\<lambda>n. \<not> expired check now (rexpire_time n)) (inorder t)"
  by (induction t) (auto simp: expired_def)

lemma nodes_map_iff:
  assumes "nodes_ok ns"
  shows "nodes_map ns k = Some n \<longleftrightarrow> n \<in> set ns \<and> nkey n = k"
  using assms by (induction ns) (auto simp: nodes_ok_Cons)

section \<open>Properties\<close>

text \<open>
  C5. The red-black engine implements the abstract map: any sequence of SET, GET, DEL and
  timer deletions that reports no failed SET leaves the tree with exactly the contents of the
  abstract map, and keeps its invariant (order, colours, black heights).
\<close>

theorem rbtree_refines_map:
  assumes "rbtree_inv s"
    and "run_ops (kvs_rbtree_set ok) kvs_rbtree_get kvs_rbtree_del kvs_rbtree_del_if_expired s xs = Some s'"
  shows "rbtree_inv s' \<and> rbtree_contents s' = foldl spec_op (rbtree_contents s) xs"
  using assms by (intro rbe.run_ops_refines) auto

definition rbtree_demo0 :: kvs_rbtree where
  "rbtree_demo0 = snd (kvs_rbtree_create True rb_static)"

lemma rbtree_demo0_inv: "rbtree_inv rbtree_demo0" "rbtree_contents rbtree_demo0 = (\<lambda>_. None)"
  using kvs_rbtree_create_inv [of rb_static rbtree_demo0]
  by (simp_all add: rbtree_demo0_def kvs_rbtree_create_def)

definition rbtree_demo_ops :: "store_op list" where
  "rbtree_demo_ops =
     [OpSet ''a'' ''1'' 0, OpSet ''b'' ''2'' 5, OpSet ''c'' ''3'' 0, OpSet ''d'' ''4'' 0,
      OpSet ''a'' ''longer'' 9, OpGet True 6 ''b'', OpDel ''d'']"

definition rbtree_demo :: "kvs_rbtree option" where
  "rbtree_demo = run_ops (kvs_rbtree_set always_ok) kvs_rbtree_get kvs_rbtree_del
     kvs_rbtree_del_if_expired rbtree_demo0 rbtree_demo_ops"

theorem rbtree_refines_map_witness:
  "\<exists>s'. rbtree_demo = Some s' \<and> rbtree_contents s' ''a'' = Some (''longer'', 9) \<and>
     rbtree_contents s' ''b'' = None \<and> rbtree_contents s' ''c'' = Some (''3'', 0)"
proof -
  have "rbtree_demo \<noteq> None"
    by code_simp
  then obtain s' where s': "rbtree_demo = Some s'"
    by blast
  have "rbtree_contents s' = foldl spec_op (\<lambda>_. None) rbtree_demo_ops"
    using rbtree_refines_map [OF rbtree_demo0_inv(1) s' [unfolded rbtree_demo_def]]
    by (simp add: rbtree_demo0_inv(2))
  with s' show ?thesis
    by (intro exI [of _ s']) (simp add: rbtree_demo_ops_def expired_def)
qed

text \<open>
  C6. Both fix-up loops restore the red-black balance: a SET (in every branch, also a failing
  one) and a DEL take a balanced tree to a tree with a black root, no red node with a red child and equal black
  heights, so its height is at most twice the binary logarithm of the number of keys plus one
  and no search visits more nodes than that.
\<close>

theorem rbtree_stays_balanced:
  assumes "rbtree_inv s" and "s' \<in> {snd (kvs_rbtree_set ok s (kd k) (kd v) e), snd (kvs_rbtree_del s (kd k))}"
  shows "rb_balanced (rb_root s') \<and>
    2 ^ (rb_height (rb_root s') div 2) \<le> length (inorder (rb_root s')) + 1"
proof -
  have "rbtree_inv s'"
    using assms rbe.set_invar [OF assms(1) TrueI, of ok k v e] rbe.del_invar [OF assms(1), of k]
    by (auto simp: prod_eq_iff)
  then have bal: "rb_balanced (rb_root s')"
    by (simp add: rbtree_inv_def)
  then have "rb_height (rb_root s') div 2 \<le> bheight (rb_root s')"
    using height_bheight [of "rb_root s'"] by (simp add: rb_balanced_def)
  then have "(2::nat) ^ (rb_height (rb_root s') div 2) \<le> 2 ^ bheight (rb_root s')"
    by simp
  also have "\<dots> \<le> length (inorder (rb_root s')) + 1"
    using bal by (intro size_bheight) (simp add: rb_balanced_def)
  finally show ?thesis using bal by blast
qed

theorem rbtree_stays_balanced_witness:
  "rb_balanced (rb_root (snd (kvs_rbtree_set always_ok rbtree_demo0 (kd ''a'') (kd ''1'') 0)))"
  using rbtree_stays_balanced [OF rbtree_demo0_inv(1),
      of "snd (kvs_rbtree_set always_ok rbtree_demo0 (kd ''a'') (kd ''1'') 0)" always_ok "''a''" "''1''" 0]
  by simp

text \<open>
  \<open>kvs_rbtree_foreach\<close>, which snapshots use, calls its callback in ascending key order on
  exactly the entries of the abstract map that are not expired, each once.
\<close>

theorem rbtree_foreach_complete:
  assumes "rbtree_inv s"
  shows "sorted_wrt (<) (map nkey (kvs_rbtree_foreach ttl now s)) \<and>
    (\<forall>k v e. (\<exists>n\<in>set (kvs_rbtree_foreach ttl now s). nkey n = k \<and> kbytes (rvalue n) = v \<and> rexpire_time n = e)
       \<longleftrightarrow> rbtree_contents s k = Some (v, e) \<and> \<not> expired ttl now e)"
proof -
  let ?ns = "inorder (rb_root s)"
  have ok: "nodes_ok ?ns"
    using assms by (simp add: rbtree_inv_def)
  have fe: "kvs_rbtree_foreach ttl now s = filter (\<lambda>n. \<not> expired ttl now (rexpire_time n)) ?ns"
    by (auto simp: kvs_rbtree_foreach_def foreach_node_filter expired_def)
  have "sorted_wrt (<) (map nkey ?ns)"
    using ok by (simp add: nodes_ok_def)
  then have "sorted_wrt (<) (map nkey (kvs_rbtree_foreach ttl now s))"
    by (simp add: fe sorted_wrt_map sorted_wrt_filter)
  then show ?thesis
    using nodes_map_iff [OF ok] by (auto simp: fe rbtree_contents_def rbnode_entry_def)
qed

definition rbtree_demo1 :: kvs_rbtree where
  "rbtree_demo1 = snd (kvs_rbtree_set always_ok rbtree_demo0 (kd ''a'') (kd ''1'') 7)"

lemma rbtree_demo1_inv: "rbtree_inv rbtree_demo1" "rbtree_contents rbtree_demo1 ''a'' = Some (''1'', 7)"
proof -
  have "fst (kvs_rbtree_set always_ok rbtree_demo0 (kd ''a'') (kd ''1'') 7) = 0"
    by code_simp
  then have "kvs_rbtree_set always_ok rbtree_demo0 (kd ''a'') (kd ''1'') 7 = (0, rbtree_demo1)"
    by (simp add: rbtree_demo1_def prod_eq_iff)
  from kvs_rbtree_set_cases [OF rbtree_demo0_inv(1) this]
  show "rbtree_inv rbtree_demo1" "rbtree_contents rbtree_demo1 ''a'' = Some (''1'', 7)"
    by simp_all
qed

theorem rbtree_foreach_complete_witness:
  "\<exists>n\<in>set (kvs_rbtree_foreach True 6 rbtree_demo1). nkey n = ''a'' \<and> kbytes (rvalue n) = ''1'' \<and> rexpire_time n = 7"
  using rbtree_foreach_complete [OF rbtree_demo1_inv(1), of True 6] rbtree_demo1_inv(2)
  by (simp add: expired_def)

end
