(* ===== verification/Kvs_Skip.thy ===== *)
theory Kvs_Skip
  imports Kv_Engine
begin

text \<open>
  \<^verbatim>\<open>kvs_skiptable.c\<close>: the skip list engine and the sorted sets built on it. Nodes live in an
  explicit store from addresses to nodes, so that the forward pointers, the update path of a
  search and the freeing of nodes are those of the C code; an address is the number of its
  allocation. The invariant says that the level-\<open>i\<close> list runs through exactly the nodes whose
  level is at least \<open>i\<close>, in strictly ascending key order, and that the live store holds those
  nodes and the header only. The engine is an instance of \<open>kv_engine\<close>.
\<close>

type_synonym addr = nat

record skipnode =
  skey :: kv_data
  svalue :: kv_data
  sexpire_time :: int
  slevel :: nat
  forward :: "addr option list"

type_synonym heap = "addr \<Rightarrow> skipnode option"

text \<open>
  \<open>sk_heap\<close> and \<open>sk_next\<close> are the store and the next unused address; \<open>sk_seed\<close> is the static
  variable of \<open>random_level\<close>.
\<close>

record kvs_skip =
  sk_level :: nat
  sk_header :: "addr option"
  sk_count :: int
  sk_heap :: heap
  sk_next :: addr
  sk_seed :: "32 word"

definition MAX_LEVEL :: nat where
  "MAX_LEVEL = 12"

definition skip_static :: kvs_skip where
  "skip_static = \<lparr>sk_level = 0, sk_header = None, sk_count = 0, sk_heap = Map.empty, sk_next = 0, sk_seed = 0\<rparr>"

definition kv_data_compare_safe :: "kv_data \<Rightarrow> kv_data \<Rightarrow> int" where
  "kv_data_compare_safe a b =
     (if kdata a = None then (if kdata b = None then 0 else -1)
      else if kdata b = None then 1
      else let min_len = (if klen a < klen b then klen a else klen b);
               cmp = memcmp min_len (kbytes a) (kbytes b)
           in if cmp \<noteq> 0 then cmp
              else if klen a < klen b then -1 else if klen a > klen b then 1 else 0)"

section \<open>Random levels\<close>

definition xorshift32 :: "32 word \<Rightarrow> 32 word" where
  "xorshift32 x0 =
     (let x1 = x0 XOR push_bit 13 x0; x2 = x1 XOR drop_bit 17 x1 in x2 XOR push_bit 5 x2)"

function random_level_loop :: "32 word \<Rightarrow> nat \<Rightarrow> nat \<times> 32 word" where
  "random_level_loop seed level =
     (let x = xorshift32 seed
      in if x AND 0xFFFF < drop_bit 2 0xFFFF \<and> level < MAX_LEVEL then random_level_loop x (Suc level)
         else (level, x))"
  by pat_completeness auto
termination
  by (relation "measure (\<lambda>(s, l). MAX_LEVEL - l)") auto

declare random_level_loop.simps [simp del]

text \<open>\<open>tseed\<close> is \<open>pthread_self() ^ time(NULL)\<close>, read while the seed is still zero.\<close>

definition random_level :: "32 word \<Rightarrow> 32 word \<Rightarrow> nat \<times> 32 word" where
  "random_level tseed seed = random_level_loop (if seed = 0 then tseed else seed) 0"

section \<open>The node store\<close>

definition skipnode_create :: "nat \<Rightarrow> kv_data \<Rightarrow> kv_data \<Rightarrow> int \<Rightarrow> skipnode" where
  "skipnode_create level key value expire =
     \<lparr>skey = \<lparr>kdata = Some (kbytes key), hash_cache = 0\<rparr>,
      svalue = \<lparr>kdata = Some (kbytes value), hash_cache = 0\<rparr>,
      sexpire_time = expire, slevel = level, forward = replicate (level + 1) None\<rparr>"

definition fwd :: "heap \<Rightarrow> addr \<Rightarrow> nat \<Rightarrow> addr option" where
  "fwd h a i = (case h a of None \<Rightarrow> None | Some n \<Rightarrow> if i < length (forward n) then forward n ! i else None)"

definition set_fwd :: "heap \<Rightarrow> addr \<Rightarrow> nat \<Rightarrow> addr option \<Rightarrow> heap" where
  "set_fwd h a i v =
     (case h a of None \<Rightarrow> h | Some n \<Rightarrow> h(a \<mapsto> n\<lparr>forward := (forward n)[i := v]\<rparr>))"

definition kvs_skip_create :: "bool \<Rightarrow> kvs_skip \<Rightarrow> int \<times> kvs_skip" where
  "kvs_skip_create m s =
     (if \<not> m then (-1, s\<lparr>sk_level := 0, sk_count := 0, sk_header := None\<rparr>)
      else (0, s\<lparr>sk_level := 0, sk_count := 0, sk_header := Some (sk_next s),
                 sk_heap := (sk_heap s)(sk_next s \<mapsto> skipnode_create MAX_LEVEL kd_null kd_null 0),
                 sk_next := sk_next s + 1\<rparr>))"

section \<open>Search\<close>

text \<open>
  The inner \<open>while\<close> of \<open>skip_find_update\<close>. A step that would read a freed node gives \<open>None\<close>, and so does
  running out of fuel; \<open>sk_next\<close>, the number of nodes ever allocated, is enough fuel (the
  lemma \<open>find_update_finds\<close>).
\<close>

fun skip_advance :: "nat \<Rightarrow> heap \<Rightarrow> nat \<Rightarrow> kv_data \<Rightarrow> addr \<Rightarrow> addr option" where
  "skip_advance 0 h i key current = None"
| "skip_advance (Suc fuel) h i key current =
     (case h current of None \<Rightarrow> None | Some _ \<Rightarrow>
      (case fwd h current i of
         None \<Rightarrow> Some current
       | Some nx \<Rightarrow>
          (case h nx of
             None \<Rightarrow> None
           | Some n \<Rightarrow> if kv_data_compare_safe (skey n) key < 0 then skip_advance fuel h i key nx
                       else Some current)))"

text \<open>The \<open>for\<close> loop from level \<open>n - 1\<close> down to 0; the result is \<open>update[0], ..., update[n - 1]\<close>.\<close>

fun skip_descend :: "nat \<Rightarrow> heap \<Rightarrow> kv_data \<Rightarrow> nat \<Rightarrow> addr \<Rightarrow> addr list option" where
  "skip_descend fuel h key 0 current = Some []"
| "skip_descend fuel h key (Suc i) current =
     (case skip_advance fuel h i key current of
        None \<Rightarrow> None
      | Some c \<Rightarrow> map_option (\<lambda>us. us @ [c]) (skip_descend fuel h key i c))"

definition skip_find_update :: "kvs_skip \<Rightarrow> kv_data \<Rightarrow> (addr list \<times> addr option) option" where
  "skip_find_update s key =
     (case sk_header s of None \<Rightarrow> None | Some hdr \<Rightarrow>
      (case skip_descend (sk_next s) (sk_heap s) key (Suc (sk_level s)) hdr of
         None \<Rightarrow> None
       | Some update \<Rightarrow>
          Some (update,
            case fwd (sk_heap s) (update ! 0) 0 of
              None \<Rightarrow> None
            | Some a \<Rightarrow> (case sk_heap s a of
                           Some n \<Rightarrow> if kv_data_compare_safe (skey n) key = 0 then Some a else None
                         | None \<Rightarrow> None))))"

section \<open>Removing a node\<close>

text \<open>The loop over the levels \<open>0..n-1\<close> that takes \<open>node\<close> out of the lists.\<close>

fun skip_unlink :: "heap \<Rightarrow> addr list \<Rightarrow> addr \<Rightarrow> nat \<Rightarrow> heap" where
  "skip_unlink h update node 0 = h"
| "skip_unlink h update node (Suc i) =
     (let h' = skip_unlink h update node i
      in if fwd h' (update ! i) i = Some node then set_fwd h' (update ! i) i (fwd h' node i) else h')"

text \<open>\<open>while (skip->level > 0 && header->forward[skip->level] == NULL) skip->level--\<close>\<close>

fun skip_shrink :: "heap \<Rightarrow> addr \<Rightarrow> nat \<Rightarrow> nat" where
  "skip_shrink h hdr 0 = 0"
| "skip_shrink h hdr (Suc l) = (if fwd h hdr (Suc l) = None then skip_shrink h hdr l else Suc l)"

definition skip_remove :: "kvs_skip \<Rightarrow> addr \<Rightarrow> addr list \<Rightarrow> addr \<Rightarrow> kvs_skip" where
  "skip_remove s hdr update node =
     (let h = (skip_unlink (sk_heap s) update node (Suc (sk_level s)))(node := None)
      in s\<lparr>sk_heap := h, sk_count := sk_count s - 1, sk_level := skip_shrink h hdr (sk_level s)\<rparr>)"

definition handle_expired_node :: "kvs_skip \<Rightarrow> addr \<Rightarrow> addr option \<Rightarrow> addr list \<Rightarrow> int \<Rightarrow> int \<times> kvs_skip" where
  "handle_expired_node s hdr node update now =
     (case node of None \<Rightarrow> (0, s) | Some a \<Rightarrow>
      (case sk_heap s a of None \<Rightarrow> (0, s) | Some n \<Rightarrow>
        if sexpire_time n \<le> 0 then (0, s)
        else if now \<le> sexpire_time n then (0, s)
        else (1, skip_remove s hdr update a)))"

text \<open>
  In the operations below the branch where \<open>skip_find_update\<close> gives \<open>None\<close> is the one where the
  C search would not return; \<open>find_update_finds\<close> shows that it is never taken.
\<close>

definition kvs_skip_del :: "kvs_skip \<Rightarrow> kv_data \<Rightarrow> int \<times> kvs_skip" where
  "kvs_skip_del s key =
     (case sk_header s of None \<Rightarrow> (-1, s) | Some hdr \<Rightarrow>
      (case skip_find_update s key of
         None \<Rightarrow> (-1, s)
       | Some (update, None) \<Rightarrow> (1, s)
       | Some (update, Some current) \<Rightarrow> (0, skip_remove s hdr update current)))"

section \<open>SET and the other operations\<close>

text \<open>The loop over the levels \<open>0..n-1\<close> that puts the new node \<open>a\<close> into the lists.\<close>

fun skip_link :: "heap \<Rightarrow> addr list \<Rightarrow> addr \<Rightarrow> nat \<Rightarrow> heap" where
  "skip_link h update a 0 = h"
| "skip_link h update a (Suc i) =
     (let h1 = skip_link h update a i;
          h2 = set_fwd h1 a i (fwd h1 (update ! i) i)
      in set_fwd h2 (update ! i) i (Some a))"

text \<open>The second half of \<open>kvs_skip_set\<close>, which inserts a new node after \<open>update\<close>.\<close>

definition skip_insert ::
  "32 word \<Rightarrow> bool \<Rightarrow> kvs_skip \<Rightarrow> addr \<Rightarrow> addr list \<Rightarrow> kv_data \<Rightarrow> kv_data \<Rightarrow> int \<Rightarrow> int \<times> kvs_skip" where
  "skip_insert tseed m s hdr update key value expire =
     (let (level, seed) = random_level tseed (sk_seed s);
          update' = (if level > sk_level s then update @ replicate (level - sk_level s) hdr else update);
          s1 = s\<lparr>sk_seed := seed, sk_level := (if level > sk_level s then level else sk_level s)\<rparr>
      in if \<not> m then (-2, s1)
         else
           let a = sk_next s;
               h = skip_link ((sk_heap s)(a \<mapsto> skipnode_create level key value expire)) update' a (Suc level)
           in (0, s1\<lparr>sk_heap := h, sk_next := a + 1, sk_count := sk_count s + 1\<rparr>))"

text \<open>Allocation site 0: the new node.\<close>

definition kvs_skip_set ::
  "32 word \<Rightarrow> alloc_env \<Rightarrow> kvs_skip \<Rightarrow> kv_data \<Rightarrow> kv_data \<Rightarrow> int \<Rightarrow> int \<times> kvs_skip" where
  "kvs_skip_set tseed ok s key value expire =
     (case sk_header s of None \<Rightarrow> (-1, s) | Some hdr \<Rightarrow>
      (case skip_find_update s key of
         None \<Rightarrow> (-1, s)
       | Some (update, None) \<Rightarrow> skip_insert tseed (ok 0) s hdr update key value expire
       | Some (update, Some current) \<Rightarrow>
          (case sk_heap s current of None \<Rightarrow> (-1, s) | Some n \<Rightarrow>
            if klen value \<le> klen (svalue n)
            then (0, s\<lparr>sk_heap := (sk_heap s)(current \<mapsto>
                    n\<lparr>svalue := (svalue n)\<lparr>kdata := Some (kbytes value)\<rparr>, sexpire_time := expire\<rparr>)\<rparr>)
            else
              let s1 = snd (kvs_skip_del s key)
              in (case skip_find_update s1 key of
                    None \<Rightarrow> (-1, s1)
                  | Some (update1, _) \<Rightarrow> skip_insert tseed (ok 0) s1 hdr update1 key value expire))))"

definition kvs_skip_mod ::
  "32 word \<Rightarrow> alloc_env \<Rightarrow> kvs_skip \<Rightarrow> kv_data \<Rightarrow> kv_data \<Rightarrow> int \<Rightarrow> int \<times> kvs_skip" where
  "kvs_skip_mod tseed ok s key value expire = kvs_skip_set tseed ok s key value expire"

definition kvs_skip_get :: "bool \<Rightarrow> int \<Rightarrow> kvs_skip \<Rightarrow> kv_data \<Rightarrow> kv_data option \<times> kvs_skip" where
  "kvs_skip_get ttl now s key =
     (case sk_header s of None \<Rightarrow> (None, s) | Some hdr \<Rightarrow>
      (case skip_find_update s key of
         None \<Rightarrow> (None, s)
       | Some (update, None) \<Rightarrow> (None, s)
       | Some (update, Some current) \<Rightarrow>
          (case sk_heap s current of None \<Rightarrow> (None, s) | Some n \<Rightarrow>
            if ttl \<and> sexpire_time n > 0 \<and> now > sexpire_time n
            then (None, snd (handle_expired_node s hdr (Some current) update now))
            else (Some (svalue n), s))))"

definition kvs_skip_del_if_expired :: "kvs_skip \<Rightarrow> kv_data \<Rightarrow> int \<Rightarrow> int \<times> kvs_skip" where
  "kvs_skip_del_if_expired s key expected =
     (case sk_header s of None \<Rightarrow> (0, s) | Some hdr \<Rightarrow>
      (case skip_find_update s key of
         Some (update, Some current) \<Rightarrow>
          (case sk_heap s current of
             Some n \<Rightarrow> if sexpire_time n = expected then (1, snd (kvs_skip_del s key)) else (0, s)
           | None \<Rightarrow> (0, s))
       | _ \<Rightarrow> (0, s)))"

definition kvs_skip_exist :: "bool \<Rightarrow> int \<Rightarrow> kvs_skip \<Rightarrow> kv_data \<Rightarrow> int \<times> kvs_skip" where
  "kvs_skip_exist ttl now s key =
     (let (value, s') = kvs_skip_get ttl now s key in (if value \<noteq> None then 0 else 1, s'))"

definition kvs_skip_get_value_len :: "bool \<Rightarrow> int \<Rightarrow> kvs_skip \<Rightarrow> kv_data \<Rightarrow> int \<times> kvs_skip" where
  "kvs_skip_get_value_len ttl now s key =
     (case kvs_skip_get ttl now s key of
        (None, s') \<Rightarrow> (-1, s')
      | (Some v, s') \<Rightarrow> (i32 (int (klen v)), s'))"

text \<open>The nodes of the bottom list from \<open>node\<close> on, in order (with the fuel of a walk).\<close>

fun skip_walk :: "nat \<Rightarrow> heap \<Rightarrow> addr option \<Rightarrow> skipnode list" where
  "skip_walk 0 h node = []"
| "skip_walk (Suc fuel) h node =
     (case node of None \<Rightarrow> [] | Some a \<Rightarrow>
       (case h a of None \<Rightarrow> [] | Some n \<Rightarrow> n # skip_walk fuel h (fwd h a 0)))"

definition skip_nodes :: "kvs_skip \<Rightarrow> skipnode list" where
  "skip_nodes s =
     (case sk_header s of None \<Rightarrow> [] | Some hdr \<Rightarrow> skip_walk (sk_next s) (sk_heap s) (fwd (sk_heap s) hdr 0))"

definition kvs_skip_foreach :: "bool \<Rightarrow> int \<Rightarrow> kvs_skip \<Rightarrow> skipnode list" where
  "kvs_skip_foreach ttl now s =
     filter (\<lambda>n. \<not> (ttl \<and> sexpire_time n > 0 \<and> now > sexpire_time n)) (skip_nodes s)"

text \<open>\<open>kvs_skip_destroy\<close> frees the nodes of the bottom list and the header.\<close>

fun skip_free_from :: "nat \<Rightarrow> heap \<Rightarrow> addr option \<Rightarrow> heap" where
  "skip_free_from 0 h node = h"
| "skip_free_from (Suc fuel) h node =
     (case node of None \<Rightarrow> h | Some a \<Rightarrow> skip_free_from fuel (h(a := None)) (fwd h a 0))"

definition kvs_skip_destroy :: "kvs_skip \<Rightarrow> kvs_skip" where
  "kvs_skip_destroy s =
     (case sk_header s of None \<Rightarrow> s | Some hdr \<Rightarrow>
        s\<lparr>sk_heap := (skip_free_from (sk_next s) (sk_heap s) (fwd (sk_heap s) hdr 0))(hdr := None),
          sk_header := None, sk_level := 0, sk_count := 0\<rparr>)"

section \<open>Reading and writing forward pointers\<close>

abbreviation nd :: "heap \<Rightarrow> addr \<Rightarrow> skipnode" where
  "nd h a \<equiv> the (h a)"

abbreviation lv :: "heap \<Rightarrow> addr \<Rightarrow> nat" where
  "lv h a \<equiv> slevel (nd h a)"

abbreviation ky :: "heap \<Rightarrow> addr \<Rightarrow> bytes" where
  "ky h a \<equiv> kbytes (skey (nd h a))"

text \<open>Everything of a node but its pointers.\<close>

definition node_info :: "heap \<Rightarrow> addr \<Rightarrow> (kv_data \<times> kv_data \<times> int \<times> nat \<times> nat) option" where
  "node_info h a = map_option (\<lambda>n. (skey n, svalue n, sexpire_time n, slevel n, length (forward n))) (h a)"

lemma node_info_set_fwd [simp]: "node_info (set_fwd h a i v) = node_info h"
  by (auto simp: node_info_def set_fwd_def fun_eq_iff split: option.split)

lemma fwd_set_fwd:
  assumes "h a = Some n" and "i < length (forward n)"
  shows "fwd (set_fwd h a i v) b j = (if b = a \<and> j = i then v else fwd h b j)"
  using assms by (auto simp: fwd_def set_fwd_def)

lemma node_info_dom: "node_info h' = node_info h \<Longrightarrow> dom h' = dom h"
proof -
  assume "node_info h' = node_info h"
  then have "node_info h' a = None \<longleftrightarrow> node_info h a = None" for a
    by simp
  then have "(h' a = None) = (h a = None)" for a
    by (simp add: node_info_def)
  then show ?thesis by (auto simp: dom_def)
qed

lemma node_info_eqD:
  assumes "node_info h' = node_info h" and "h a = Some n"
  obtains n' where "h' a = Some n'" and "slevel n' = slevel n" and "skey n' = skey n"
    and "svalue n' = svalue n" and "sexpire_time n' = sexpire_time n"
    and "length (forward n') = length (forward n)"
proof -
  have eq: "node_info h' a = node_info h a"
    using assms(1) by simp
  then obtain n' where "h' a = Some n'"
    using assms(2) by (cases "h' a") (simp_all add: node_info_def)
  with eq assms(2) that [of n'] show ?thesis
    by (simp add: node_info_def)
qed

text \<open>\<open>has_fwd h a i\<close>: the node at \<open>a\<close> has a pointer at level \<open>i\<close>.\<close>

definition has_fwd :: "heap \<Rightarrow> addr \<Rightarrow> nat \<Rightarrow> bool" where
  "has_fwd h a i \<longleftrightarrow> (\<exists>n. h a = Some n \<and> i < length (forward n))"

lemma has_fwd_info: "node_info h' = node_info h \<Longrightarrow> has_fwd h' a i = has_fwd h a i"
  unfolding has_fwd_def by (metis node_info_eqD)

lemma fwd_set_fwd': "has_fwd h a i \<Longrightarrow> fwd (set_fwd h a i v) b j = (if b = a \<and> j = i then v else fwd h b j)"
  unfolding has_fwd_def using fwd_set_fwd by blast

lemma node_info_unlink: "node_info (skip_unlink h update node m) = node_info h"
  by (induction m) (simp_all add: Let_def)

lemma fwd_unlink:
  assumes "\<And>i. i < m \<Longrightarrow> has_fwd h (update ! i) i" and "\<And>i. i < m \<Longrightarrow> update ! i \<noteq> node"
  shows "fwd (skip_unlink h update node m) b i =
    (if i < m \<and> b = update ! i \<and> fwd h b i = Some node then fwd h node i else fwd h b i)"
  using assms
proof (induction m arbitrary: b i)
  case (Suc m)
  let ?h = "skip_unlink h update node m"
  have "has_fwd ?h (update ! m) m"
    using Suc.prems(1) by (simp add: has_fwd_info [OF node_info_unlink])
  then show ?case
    using Suc by (auto simp: Let_def fwd_set_fwd' less_Suc_eq)
qed simp

lemma node_info_link: "node_info (skip_link h update a m) = node_info h"
  by (induction m) (simp_all add: Let_def)

lemma fwd_link:
  assumes "\<And>i. i < m \<Longrightarrow> has_fwd h (update ! i) i" and "\<And>i. i < m \<Longrightarrow> has_fwd h a i"
    and "\<And>i. i < m \<Longrightarrow> update ! i \<noteq> a"
  shows "fwd (skip_link h update a m) b i =
    (if i < m then if b = a then fwd h (update ! i) i else if b = update ! i then Some a else fwd h b i
     else fwd h b i)"
  using assms
proof (induction m arbitrary: b i)
  case (Suc m)
  let ?h = "skip_link h update a m"
  have hf: "has_fwd ?h (update ! m) m" "has_fwd ?h a m"
    using Suc.prems by (simp_all add: has_fwd_info [OF node_info_link])
  have "has_fwd (set_fwd ?h a m v) (update ! m) m" for v
    using hf(1) by (simp add: has_fwd_info [OF node_info_set_fwd])
  then show ?case
    using Suc hf by (auto simp: Let_def fwd_set_fwd' less_Suc_eq)
qed simp

section \<open>Linked lists in the store\<close>

fun chain :: "heap \<Rightarrow> nat \<Rightarrow> addr \<Rightarrow> addr list \<Rightarrow> bool" where
  "chain h i a [] \<longleftrightarrow> fwd h a i = None"
| "chain h i a (y # ys) \<longleftrightarrow> fwd h a i = Some y \<and> chain h i y ys"

lemma chain_cong:
  "(\<And>b. b \<in> set (a # ys) \<Longrightarrow> fwd h' b i = fwd h b i) \<Longrightarrow> chain h' i a ys = chain h i a ys"
  by (induction ys arbitrary: a) simp_all

fun seg :: "heap \<Rightarrow> nat \<Rightarrow> addr \<Rightarrow> addr list \<Rightarrow> bool" where
  "seg h i a [] \<longleftrightarrow> True"
| "seg h i a (y # ys) \<longleftrightarrow> fwd h a i = Some y \<and> seg h i y ys"

lemma chain_append: "chain h i a (us @ vs) \<longleftrightarrow> seg h i a us \<and> chain h i (last (a # us)) vs"
  by (induction us arbitrary: a) simp_all

lemma seg_cong:
  "(\<And>b. b \<in> set (butlast (a # ys)) \<Longrightarrow> fwd h' b i = fwd h b i) \<Longrightarrow> seg h' i a ys = seg h i a ys"
proof (induction ys arbitrary: a)
  case (Cons y ys)
  have "seg h' i y ys = seg h i y ys"
    using Cons.prems by (intro Cons.IH) simp
  then show ?case
    using Cons.prems [of a] by simp
qed simp

lemma last_notin_butlast: "distinct (c # us) \<Longrightarrow> last (c # us) \<notin> set (butlast (c # us))"
  using append_butlast_last_id [of "c # us"] by (metis distinct_append disjoint_insert(1) list.set(2) list.discI)

lemma chain_remove:
  assumes ch: "chain h i c (us @ a # vs)" and d: "distinct (c # us @ a # vs)"
    and f: "\<And>b. b \<in> set (c # us @ vs) \<Longrightarrow> fwd h' b i = (if b = last (c # us) then fwd h a i else fwd h b i)"
  shows "chain h' i c (us @ vs)"
proof -
  define l where "l = last (c # us)"
  have "l \<in> set (c # us)"
    unfolding l_def by (rule last_in_set) simp
  moreover have "l \<notin> set (butlast (c # us))"
    unfolding l_def using d by (intro last_notin_butlast) simp
  ultimately have l: "l \<in> set (c # us)" "l \<notin> set vs" "l \<notin> set (butlast (c # us))"
    using d by auto
  note f = f [folded l_def]
  have "fwd h' b i = fwd h b i" if "b \<in> set (butlast (c # us))" for b
    using that l(3) f [of b] in_set_butlastD [OF that] by (auto simp del: butlast.simps)
  with ch have "seg h' i c us"
    by (simp add: chain_append seg_cong [of c us h' i h] del: butlast.simps)
  moreover have "chain h i a vs"
    using ch by (simp add: chain_append)
  then have "chain h' i l vs"
  proof (cases vs)
    case (Cons v ws)
    then have "chain h' i v ws = chain h i v ws"
      using f l(2) by (intro chain_cong) (auto simp: l_def [symmetric])
    with Cons \<open>chain h i a vs\<close> f [of l] l(1) show ?thesis by auto
  qed (use f [of l] l(1) in \<open>simp add: l_def [symmetric]\<close>)
  ultimately show ?thesis
    by (simp add: chain_append l_def del: last.simps)
qed

lemma chain_insert:
  assumes ch: "chain h i c (us @ vs)" and d: "distinct (c # us @ a # vs)"
    and f: "\<And>b. b \<in> set (c # us @ a # vs) \<Longrightarrow> fwd h' b i =
      (if b = a then fwd h (last (c # us)) i else if b = last (c # us) then Some a else fwd h b i)"
  shows "chain h' i c (us @ a # vs)"
proof -
  define l where "l = last (c # us)"
  have "l \<in> set (c # us)"
    unfolding l_def by (rule last_in_set) simp
  moreover have "l \<notin> set (butlast (c # us))"
    unfolding l_def using d by (intro last_notin_butlast) simp
  ultimately have l: "l \<in> set (c # us)" "l \<notin> set vs" "l \<noteq> a" "l \<notin> set (butlast (c # us))"
    using d by auto
  note f = f [folded l_def]
  have "fwd h' b i = fwd h b i" if "b \<in> set (butlast (c # us))" for b
    using that l(4) d f [of b] in_set_butlastD [OF that] by (auto simp del: butlast.simps)
  with ch have "seg h' i c us"
    by (simp add: chain_append seg_cong [of c us h' i h] del: butlast.simps)
  moreover have "fwd h' l i = Some a"
    using f [of l] l by (simp add: l_def [symmetric])
  moreover have "chain h i l vs"
    using ch by (simp add: chain_append l_def del: last.simps)
  then have "chain h' i a vs"
  proof (cases vs)
    case (Cons v ws)
    then have "chain h' i v ws = chain h i v ws"
      using f l(2) d by (intro chain_cong) (auto simp: l_def [symmetric])
    with Cons \<open>chain h i l vs\<close> f [of a] show ?thesis by (simp add: l_def [symmetric])
  qed (use f [of a] in \<open>simp add: l_def [symmetric]\<close>)
  ultimately show ?thesis
    by (simp add: chain_append l_def del: last.simps)
qed

section \<open>Invariant\<close>

text \<open>\<open>skip_wf s hdr xs\<close>: the bottom list of \<open>s\<close> runs from the header through the addresses \<open>xs\<close>.\<close>

definition skip_wf :: "kvs_skip \<Rightarrow> addr \<Rightarrow> addr list \<Rightarrow> bool" where
  "skip_wf s hdr xs \<longleftrightarrow>
     sk_header s = Some hdr \<and> distinct (hdr # xs) \<and> dom (sk_heap s) = set (hdr # xs) \<and>
     (\<forall>a\<in>set (hdr # xs). a < sk_next s \<and> length (forward (nd (sk_heap s) a)) = Suc (lv (sk_heap s) a)) \<and>
     lv (sk_heap s) hdr = MAX_LEVEL \<and> sk_level s \<le> MAX_LEVEL \<and>
     (\<forall>a\<in>set xs. lv (sk_heap s) a \<le> sk_level s \<and> kdata (skey (nd (sk_heap s) a)) \<noteq> None) \<and>
     sorted_wrt (<) (map (ky (sk_heap s)) xs) \<and>
     (\<forall>i\<le>MAX_LEVEL. chain (sk_heap s) i hdr (filter (\<lambda>a. i \<le> lv (sk_heap s) a) xs)) \<and>
     sk_count s = int (length xs)"

definition skip_inv :: "kvs_skip \<Rightarrow> bool" where
  "skip_inv s \<longleftrightarrow> (\<exists>hdr xs. skip_wf s hdr xs)"

definition snode_entry :: "skipnode \<Rightarrow> bytes \<times> entry" where
  "snode_entry n = (kbytes (skey n), kbytes (svalue n), sexpire_time n)"

definition skip_contents :: "kvs_skip \<Rightarrow> store_map" where
  "skip_contents s = map_of (map snode_entry (skip_nodes s))"

lemma compare_safe_simps [simp]:
  assumes "kdata a \<noteq> None"
  shows "kv_data_compare_safe a (kd k) < 0 \<longleftrightarrow> kbytes a < k"
    and "kv_data_compare_safe a (kd k) = 0 \<longleftrightarrow> kbytes a = k"
proof -
  have "kv_data_compare_safe a (kd k) = kv_data_compare a (kd k)"
    using assms by (auto simp: kv_data_compare_safe_def kv_data_compare_def)
  then show "kv_data_compare_safe a (kd k) < 0 \<longleftrightarrow> kbytes a < k"
    "kv_data_compare_safe a (kd k) = 0 \<longleftrightarrow> kbytes a = k"
    by simp_all
qed

lemma skip_wf_has_fwd:
  assumes "skip_wf s hdr xs"
  shows "a \<in> set (hdr # xs) \<Longrightarrow> has_fwd (sk_heap s) a i \<longleftrightarrow> i \<le> lv (sk_heap s) a"
    and "a \<in> set (hdr # xs) \<Longrightarrow> \<exists>n. sk_heap s a = Some n"
proof -
  assume a: "a \<in> set (hdr # xs)"
  with assms have "a \<in> dom (sk_heap s)"
    by (simp add: skip_wf_def)
  then show "\<exists>n. sk_heap s a = Some n"
    by blast
  then show "has_fwd (sk_heap s) a i \<longleftrightarrow> i \<le> lv (sk_heap s) a"
    using a assms by (auto simp: has_fwd_def skip_wf_def)
qed

lemma skip_wf_fuel: "skip_wf s hdr xs \<Longrightarrow> length xs < sk_next s"
proof -
  assume wf: "skip_wf s hdr xs"
  then have "set (hdr # xs) \<subseteq> {..<sk_next s}"
    by (auto simp: skip_wf_def)
  then have "card (set (hdr # xs)) \<le> sk_next s"
    using card_mono [of "{..<sk_next s}"] by simp
  moreover have "card (set (hdr # xs)) = length (hdr # xs)"
    using wf by (intro distinct_card) (simp add: skip_wf_def)
  ultimately show ?thesis by simp
qed

section \<open>Search\<close>

lemma skip_advance_last:
  assumes "chain h i c (us @ vs)" and "length us < fuel" and "h c \<noteq> None"
    and "\<And>a. a \<in> set (us @ vs) \<Longrightarrow> h a \<noteq> None \<and> kdata (skey (nd h a)) \<noteq> None"
    and "\<And>a. a \<in> set us \<Longrightarrow> ky h a < k" and "vs \<noteq> [] \<Longrightarrow> \<not> ky h (hd vs) < k"
  shows "skip_advance fuel h i (kd k) c = Some (last (c # us))"
  using assms
proof (induction us arbitrary: c fuel)
  case Nil
  then obtain f where f: "fuel = Suc f" by (cases fuel) auto
  show ?case
    using Nil.prems(1,3,6) Nil.prems(4) [of "hd vs"] by (cases vs) (auto simp: f)
next
  case (Cons u us)
  then obtain f where f: "fuel = Suc f" by (cases fuel) auto
  have "skip_advance f h i (kd k) u = Some (last (u # us))"
    using Cons.prems f by (intro Cons.IH) auto
  moreover have "ky h u < k" "kdata (skey (nd h u)) \<noteq> None" "h u \<noteq> None" "fwd h c i = Some u"
    using Cons.prems by auto
  ultimately show ?case
    using Cons.prems(3) by (auto simp: f split: option.split)
qed

text \<open>The update path of a key: the last node before it on each level.\<close>

definition upd_at :: "heap \<Rightarrow> addr \<Rightarrow> addr list \<Rightarrow> nat \<Rightarrow> addr" where
  "upd_at h hdr ps i = last (hdr # filter (\<lambda>a. i \<le> lv h a) ps)"

lemma upd_at_in: "upd_at h hdr ps i \<in> insert hdr {a \<in> set ps. i \<le> lv h a}"
  using last_in_set [of "hdr # filter (\<lambda>a. i \<le> lv h a) ps"] by (auto simp: upd_at_def)

lemma filter_from_upd:
  "\<exists>us. (\<forall>rest. chain h i hdr (filter (\<lambda>a. i \<le> lv h a) ps @ rest) \<longrightarrow>
              chain h i (upd_at h hdr ps (Suc i)) (us @ rest)) \<and>
     last (upd_at h hdr ps (Suc i) # us) = upd_at h hdr ps i \<and> set us \<subseteq> set ps \<and> length us \<le> length ps"
proof (cases "filter (\<lambda>a. Suc i \<le> lv h a) ps = []")
  case True
  then show ?thesis
    by (intro exI [of _ "filter (\<lambda>a. i \<le> lv h a) ps"]) (auto simp: upd_at_def length_filter_le)
next
  case False
  let ?c = "upd_at h hdr ps (Suc i)"
  have "?c \<in> set (filter (\<lambda>a. Suc i \<le> lv h a) ps)"
    using False last_in_set [OF False] by (simp add: upd_at_def)
  then have "?c \<in> set (filter (\<lambda>a. i \<le> lv h a) ps)"
    by auto
  then obtain us vs where sp: "filter (\<lambda>a. i \<le> lv h a) ps = us @ ?c # vs"
    by (meson split_list)
  have "set vs \<subseteq> set (filter (\<lambda>a. i \<le> lv h a) ps)" "length vs \<le> length (filter (\<lambda>a. i \<le> lv h a) ps)"
    unfolding sp by auto
  then have vs: "set vs \<subseteq> set ps" "length vs \<le> length ps"
    using length_filter_le [of "\<lambda>a. i \<le> lv h a" ps] by (auto intro: order_trans)
  have l: "last (?c # vs) = upd_at h hdr ps i"
    by (simp add: upd_at_def [of h hdr ps i] sp)
  show ?thesis
    by (intro exI [of _ vs] conjI l vs allI impI) (simp add: sp chain_append)
qed

lemma skip_descend_upd:
  assumes "\<And>j. j < n \<Longrightarrow> chain h j hdr (filter (\<lambda>a. j \<le> lv h a) (ps @ qs))" and "length ps < fuel"
    and "\<And>a. a \<in> set (hdr # ps @ qs) \<Longrightarrow> h a \<noteq> None"
    and "\<And>a. a \<in> set (ps @ qs) \<Longrightarrow> kdata (skey (nd h a)) \<noteq> None"
    and "\<And>a. a \<in> set ps \<Longrightarrow> ky h a < k" and "\<And>a. a \<in> set qs \<Longrightarrow> \<not> ky h a < k"
  shows "skip_descend fuel h (kd k) n (upd_at h hdr ps n) = Some (map (upd_at h hdr ps) [0..<n])"
  using assms(1)
proof (induction n)
  case (Suc i)
  let ?f = "filter (\<lambda>a. i \<le> lv h a)"
  obtain us where ch: "\<And>rest. chain h i hdr (?f ps @ rest) \<Longrightarrow> chain h i (upd_at h hdr ps (Suc i)) (us @ rest)"
    and l: "last (upd_at h hdr ps (Suc i) # us) = upd_at h hdr ps i"
    and us: "set us \<subseteq> set ps" "length us \<le> length ps"
    using filter_from_upd [of h i hdr ps] by blast
  have c: "upd_at h hdr ps (Suc i) \<in> set (hdr # ps)"
    using upd_at_in [of h hdr ps "Suc i"] by auto
  have hd: "hd (?f qs) \<in> set qs" if "?f qs \<noteq> []"
    using hd_in_set [OF that] by auto
  have "skip_advance fuel h i (kd k) (upd_at h hdr ps (Suc i)) = Some (last (upd_at h hdr ps (Suc i) # us))"
  proof (rule skip_advance_last)
    show "chain h i (upd_at h hdr ps (Suc i)) (us @ ?f qs)"
      using Suc.prems [of i] by (intro ch) simp
    show "h a \<noteq> None \<and> kdata (skey (nd h a)) \<noteq> None" if "a \<in> set (us @ ?f qs)" for a
      using that us(1) assms(3,4) [of a] by auto
  qed (use us c hd assms(2,3,5,6) in auto)
  then show ?case
    using Suc l by simp
qed simp

lemma find_update_finds:
  assumes wf: "skip_wf s hdr (ps @ qs)"
    and ps: "\<forall>a\<in>set ps. ky (sk_heap s) a < k" and qs: "\<forall>a\<in>set qs. \<not> ky (sk_heap s) a < k"
  shows "skip_find_update s (kd k) =
    Some (map (upd_at (sk_heap s) hdr ps) [0..<Suc (sk_level s)],
          case qs of [] \<Rightarrow> None | a # _ \<Rightarrow> if ky (sk_heap s) a = k then Some a else None)"
proof -
  let ?h = "sk_heap s"
  have hdr: "sk_header s = Some hdr" "sk_level s \<le> MAX_LEVEL"
    using wf by (simp_all add: skip_wf_def)
  have ch: "\<And>j. j < Suc (sk_level s) \<Longrightarrow> chain ?h j hdr (filter (\<lambda>a. j \<le> lv ?h a) (ps @ qs))"
    using wf by (auto simp: skip_wf_def)
  have top: "upd_at ?h hdr ps (Suc (sk_level s)) = hdr"
  proof -
    have "lv ?h a \<le> sk_level s" if "a \<in> set ps" for a
      using wf that by (auto simp: skip_wf_def)
    then have "filter (\<lambda>a. Suc (sk_level s) \<le> lv ?h a) ps = []"
      by (simp add: filter_empty_conv not_less_eq_eq)
    then show ?thesis by (simp add: upd_at_def)
  qed
  have desc: "skip_descend (sk_next s) ?h (kd k) (Suc (sk_level s)) (upd_at ?h hdr ps (Suc (sk_level s))) =
      Some (map (upd_at ?h hdr ps) [0..<Suc (sk_level s)])"
  proof (rule skip_descend_upd [OF ch])
    show "length ps < sk_next s"
      using skip_wf_fuel [OF wf] by simp
    show "\<And>a. a \<in> set (hdr # ps @ qs) \<Longrightarrow> ?h a \<noteq> None"
      using skip_wf_has_fwd(2) [OF wf] by blast
    show "\<And>a. a \<in> set (ps @ qs) \<Longrightarrow> kdata (skey (nd ?h a)) \<noteq> None"
      using wf by (auto simp: skip_wf_def)
  qed (use ps qs in auto)
  have "chain ?h 0 (last (hdr # ps)) qs"
    using ch [of 0] by (simp add: chain_append)
  moreover have "upd_at ?h hdr ps 0 = last (hdr # ps)"
    by (simp add: upd_at_def)
  moreover have "\<exists>n. ?h (hd qs) = Some n \<and> kdata (skey n) \<noteq> None" if "qs \<noteq> []"
  proof -
    have "kdata (skey (nd ?h (hd qs))) \<noteq> None"
      using wf hd_in_set [OF that] by (auto simp: skip_wf_def)
    then show ?thesis
      using skip_wf_has_fwd(2) [OF wf, of "hd qs"] hd_in_set [OF that] by auto
  qed
  ultimately show ?thesis
    using hdr desc top
    by (cases qs) (auto simp: skip_find_update_def nth_append map_upt_Suc simp del: skip_descend.simps upt_Suc last.simps)
qed

text \<open>Splitting the bottom list at a key.\<close>

lemma skip_locate:
  assumes "skip_inv s"
  obtains (absent) hdr ps qs where "skip_wf s hdr (ps @ qs)"
    and "\<forall>a\<in>set ps. ky (sk_heap s) a < k" and "\<forall>a\<in>set qs. k < ky (sk_heap s) a"
    and "skip_find_update s (kd k) = Some (map (upd_at (sk_heap s) hdr ps) [0..<Suc (sk_level s)], None)"
  | (present) hdr ps a n qs where "skip_wf s hdr (ps @ a # qs)" and "sk_heap s a = Some n" and "kbytes (skey n) = k"
    and "\<forall>b\<in>set ps. ky (sk_heap s) b < k" and "\<forall>b\<in>set qs. k < ky (sk_heap s) b"
    and "skip_find_update s (kd k) = Some (map (upd_at (sk_heap s) hdr ps) [0..<Suc (sk_level s)], Some a)"
proof -
  obtain hdr xs where wf: "skip_wf s hdr xs"
    using assms by (auto simp: skip_inv_def)
  let ?h = "sk_heap s"
  define ps where "ps = takeWhile (\<lambda>a. ky ?h a < k) xs"
  define qs where "qs = dropWhile (\<lambda>a. ky ?h a < k) xs"
  have xs: "xs = ps @ qs"
    by (simp add: ps_def qs_def)
  have ps: "\<forall>a\<in>set ps. ky ?h a < k"
    by (auto simp: ps_def dest: set_takeWhileD)
  have sorted: "sorted_wrt (<) (map (ky ?h) (ps @ qs))"
    using wf by (simp add: skip_wf_def xs)
  have hd: "\<not> ky ?h (hd qs) < k" if "qs \<noteq> []"
    using hd_dropWhile [of "\<lambda>a. ky ?h a < k" xs] that by (simp add: qs_def)
  have qs: "\<forall>a\<in>set qs. \<not> ky ?h a < k"
    using sorted hd by (cases qs) (fastforce simp: sorted_wrt_append)+
  note found = find_update_finds [OF wf [unfolded xs] ps qs]
  show ?thesis
  proof (cases qs)
    case Nil
    then show ?thesis
      using wf ps found by (intro absent [of hdr ps qs]) (auto simp: xs)
  next
    case (Cons a rs)
    have rs: "ky ?h a < ky ?h b" if "b \<in> set rs" for b
      using that sorted by (simp add: Cons sorted_wrt_append)
    show ?thesis
    proof (cases "ky ?h a = k")
      case True
      moreover obtain n where "?h a = Some n"
        using skip_wf_has_fwd(2) [OF wf, of a] by (auto simp: xs Cons)
      ultimately show ?thesis
        using wf ps found rs Cons by (intro present [of hdr ps a rs n]) (auto simp: xs)
    next
      case False
      then have "k < ky ?h a"
        using qs Cons by auto
      then have "\<forall>b\<in>set qs. k < ky ?h b"
        using rs Cons by (auto intro: less_trans)
      then show ?thesis
        using wf ps found Cons False by (intro absent [of hdr ps qs]) (auto simp: xs)
    qed
  qed
qed

section \<open>Contents\<close>

lemma skip_walk_chain:
  assumes "chain h 0 c ys" and "length ys \<le> fuel" and "\<And>a. a \<in> set ys \<Longrightarrow> h a \<noteq> None"
  shows "skip_walk fuel h (fwd h c 0) = map (nd h) ys"
  using assms
proof (induction ys arbitrary: c fuel)
  case Nil
  then show ?case by (cases fuel) auto
next
  case (Cons y ys)
  then obtain f where f: "fuel = Suc f" by (cases fuel) auto
  have "skip_walk f h (fwd h y 0) = map (nd h) ys"
    using Cons.prems f by (intro Cons.IH) auto
  then show ?case
    using Cons.prems(1) Cons.prems(3) [of y] by (auto simp: f)
qed

lemma skip_nodes_wf:
  assumes "skip_wf s hdr xs"
  shows "skip_nodes s = map (nd (sk_heap s)) xs"
proof -
  have "chain (sk_heap s) 0 hdr xs" "sk_header s = Some hdr"
    using assms by (auto simp: skip_wf_def dest: spec [of _ 0])
  then show ?thesis
    using skip_walk_chain [of "sk_heap s" hdr xs "sk_next s"] skip_wf_fuel [OF assms] skip_wf_has_fwd(2) [OF assms]
    by (simp add: skip_nodes_def)
qed

text \<open>What the contents say of a list split at a key.\<close>

lemma skip_rest_contents:
  assumes "\<forall>b\<in>set ps. ky h b < k" and "\<forall>b\<in>set qs. k < ky h b"
  shows "map_of (map snode_entry (map (nd h) (ps @ qs))) k = None"
proof -
  have "ky h b \<noteq> k" if "b \<in> set (ps @ qs)" for b
    using assms that by fastforce
  then show ?thesis
    by (force simp: map_of_eq_None_iff snode_entry_def simp del: map_append map_map)
qed

lemma entries_split:
  assumes "\<forall>b\<in>set ps. ky h b < k" and "\<forall>b\<in>set qs. k < ky h b" and "snode_entry (nd h a) = (k, ent)"
  shows "map_of (map snode_entry (map (nd h) (ps @ a # qs))) = (map_of (map snode_entry (map (nd h) (ps @ qs))))(k \<mapsto> ent)"
proof -
  have "map_of (map snode_entry (map (nd h) ps)) k = None"
    using skip_rest_contents [of ps h k "[]"] assms(1) by simp
  then show ?thesis
    using assms(3) by (auto simp: map_add_def fun_eq_iff split: option.split)
qed

lemma skip_contents_wf:
  assumes "skip_wf s hdr xs"
  shows "skip_contents s = map_of (map snode_entry (map (nd (sk_heap s)) xs))"
  by (simp add: skip_contents_def skip_nodes_wf [OF assms])

section \<open>Removal and insertion\<close>

lemma skip_shrink_le: "skip_shrink h hdr l \<le> l"
  by (induction l) auto

lemma skip_shrink_None: "skip_shrink h hdr l < j \<Longrightarrow> j \<le> l \<Longrightarrow> fwd h hdr j = None"
  by (induction l) (auto split: if_splits simp: le_Suc_eq)

text \<open>A change of the store that keeps every node but its pointers keeps the levels and keys.\<close>

lemma info_keeps:
  assumes "node_info h' = node_info h" and "a \<in> dom h"
  shows "lv h' a = lv h a" "skey (nd h' a) = skey (nd h a)" "svalue (nd h' a) = svalue (nd h a)"
    "sexpire_time (nd h' a) = sexpire_time (nd h a)" "length (forward (nd h' a)) = length (forward (nd h a))"
proof -
  obtain n where n: "h a = Some n"
    using assms(2) by blast
  obtain n' where "h' a = Some n'" "slevel n' = slevel n" "skey n' = skey n" "svalue n' = svalue n"
    "sexpire_time n' = sexpire_time n" "length (forward n') = length (forward n)"
    using node_info_eqD [OF assms(1) n] .
  with n show "lv h' a = lv h a" "skey (nd h' a) = skey (nd h a)" "svalue (nd h' a) = svalue (nd h a)"
    "sexpire_time (nd h' a) = sexpire_time (nd h a)" "length (forward (nd h' a)) = length (forward (nd h a))"
    by simp_all
qed

lemma skip_remove_chain:
  assumes wf: "skip_wf s hdr (ps @ a # qs)" and i: "i \<le> MAX_LEVEL"
  defines "h \<equiv> sk_heap s"
  defines "h' \<equiv> (skip_unlink h (map (upd_at h hdr ps) [0..<Suc (sk_level s)]) a (Suc (sk_level s)))(a := None)"
  shows "chain h' i hdr (filter (\<lambda>b. i \<le> lv h b) (ps @ qs))"
proof -
  let ?f = "filter (\<lambda>b. i \<le> lv h b)" and ?u = "upd_at h hdr ps"
  have d: "distinct (hdr # ps @ a # qs)" and lva: "lv h a \<le> sk_level s" and "sk_level s \<le> MAX_LEVEL" "lv h hdr = MAX_LEVEL"
    using wf by (auto simp: skip_wf_def h_def)
  have ch: "chain h i hdr (?f ps @ ?f (a # qs))"
    using wf i by (auto simp: skip_wf_def h_def)
  have hf: "has_fwd h (?u j) j" if "j \<le> sk_level s" for j
    using upd_at_in [of h hdr ps j] skip_wf_has_fwd(1) [OF wf, of "?u j" j] that
      \<open>sk_level s \<le> MAX_LEVEL\<close> \<open>lv h hdr = MAX_LEVEL\<close> by (auto simp: h_def)
  have ne: "?u j \<noteq> a" for j
    using upd_at_in [of h hdr ps j] d by auto
  have f: "fwd h' b i = (if i \<le> sk_level s \<and> b = ?u i \<and> fwd h b i = Some a then fwd h a i else fwd h b i)"
    if "b \<noteq> a" for b
  proof -
    have "fwd h' b i = fwd (skip_unlink h (map ?u [0..<Suc (sk_level s)]) a (Suc (sk_level s))) b i"
      using that by (simp add: h'_def fwd_def)
    also have "\<dots> = (if i \<le> sk_level s \<and> b = ?u i \<and> fwd h b i = Some a then fwd h a i else fwd h b i)"
      using hf ne by (subst fwd_unlink) (auto simp: less_Suc_eq_le nth_append simp del: upt_Suc)
    finally show ?thesis .
  qed
  have df: "distinct (hdr # ?f ps @ a # ?f qs)"
    using d by auto
  show ?thesis
  proof (cases "i \<le> lv h a")
    case True
    have ch': "chain h i hdr (?f ps @ a # ?f qs)"
      using ch True by simp
    then have "fwd h (?u i) i = Some a"
      by (simp add: chain_append upd_at_def del: last.simps)
    then have "fwd h' b i = (if b = ?u i then fwd h a i else fwd h b i)" if "b \<in> set (hdr # ?f ps @ ?f qs)" for b
    proof -
      have "b \<noteq> a" using that d by auto
      then show ?thesis
        using f [of b] True lva \<open>fwd h (?u i) i = Some a\<close> by auto
    qed
    from chain_remove [OF ch' df this [unfolded upd_at_def]] show ?thesis by simp
  next
    case False
    then have "chain h i hdr (?f ps @ ?f qs)"
      using ch by simp
    moreover from this have "chain h i (?u i) (?f qs)"
      by (simp only: chain_append upd_at_def)
    moreover have "a \<notin> set (?f qs)"
      using d by simp
    ultimately have "fwd h (?u i) i \<noteq> Some a"
      by (cases "?f qs") auto
    then have "chain h' i hdr (?f ps @ ?f qs) = chain h i hdr (?f ps @ ?f qs)"
    proof (intro chain_cong)
      fix b
      assume "b \<in> set (hdr # ?f ps @ ?f qs)"
      then have "b \<noteq> a"
        using d by auto
      then show "fwd h' b i = fwd h b i"
        using f [of b] \<open>fwd h (?u i) i \<noteq> Some a\<close> by auto
    qed
    with \<open>chain h i hdr (?f ps @ ?f qs)\<close> show ?thesis by simp
  qed
qed

lemma skip_remove_ok:
  assumes wf: "skip_wf s hdr (ps @ a # qs)"
    and s': "s' = skip_remove s hdr (map (upd_at (sk_heap s) hdr ps) [0..<Suc (sk_level s)]) a"
  shows "skip_wf s' hdr (ps @ qs)"
    and "\<And>b. b \<in> set (ps @ qs) \<Longrightarrow> snode_entry (nd (sk_heap s') b) = snode_entry (nd (sk_heap s) b)"
proof -
  define h where "h = sk_heap s"
  define u where "u = map (upd_at h hdr ps) [0..<Suc (sk_level s)]"
  define h' where "h' = (skip_unlink h u a (Suc (sk_level s)))(a := None)"
  have s'eq: "s' = s\<lparr>sk_heap := h', sk_count := sk_count s - 1, sk_level := skip_shrink h' hdr (sk_level s)\<rparr>"
    by (simp add: s' skip_remove_def h'_def h_def u_def Let_def)
  have d: "distinct (hdr # ps @ a # qs)" "dom h = set (hdr # ps @ a # qs)"
    using wf by (auto simp: skip_wf_def h_def)
  have keep: "lv h' b = lv h b" "skey (nd h' b) = skey (nd h b)" "svalue (nd h' b) = svalue (nd h b)"
    "sexpire_time (nd h' b) = sexpire_time (nd h b)" "length (forward (nd h' b)) = length (forward (nd h b))"
    if "b \<in> set (hdr # ps @ qs)" for b
  proof -
    have b: "b \<in> dom h" "b \<noteq> a" using that d by auto
    show "lv h' b = lv h b" "skey (nd h' b) = skey (nd h b)" "svalue (nd h' b) = svalue (nd h b)"
      "sexpire_time (nd h' b) = sexpire_time (nd h b)" "length (forward (nd h' b)) = length (forward (nd h b))"
      using info_keeps [OF node_info_unlink b(1), of u a "Suc (sk_level s)"] b(2) by (simp_all add: h'_def)
  qed
  have dom: "dom h' = set (hdr # ps @ qs)"
    using d node_info_dom [OF node_info_unlink, of h u a "Suc (sk_level s)"] by (auto simp: h'_def)
  have ch: "chain h' i hdr (filter (\<lambda>b. i \<le> lv h' b) (ps @ qs))" if "i \<le> MAX_LEVEL" for i
  proof -
    have "filter (\<lambda>b. i \<le> lv h' b) (ps @ qs) = filter (\<lambda>b. i \<le> lv h b) (ps @ qs)"
      using keep(1) by (intro filter_cong) auto
    then show ?thesis
      using skip_remove_chain [OF wf that] by (simp add: h'_def h_def u_def)
  qed
  have low: "lv h b \<le> skip_shrink h' hdr (sk_level s)" if b: "b \<in> set (ps @ qs)" for b
  proof (rule ccontr)
    assume "\<not> ?thesis"
    moreover have "lv h b \<le> sk_level s" "sk_level s \<le> MAX_LEVEL"
      using wf b by (auto simp: skip_wf_def h_def)
    ultimately have "fwd h' hdr (lv h b) = None" and le: "lv h b \<le> MAX_LEVEL"
      using skip_shrink_None [of h' hdr "sk_level s" "lv h b"] by auto
    with ch [OF le] have "filter (\<lambda>c. lv h b \<le> lv h' c) (ps @ qs) = []"
      by (cases "filter (\<lambda>c. lv h b \<le> lv h' c) (ps @ qs)") auto
    with b keep(1) [of b] show False by (auto simp: filter_empty_conv)
  qed
  have keys: "map (ky h') (ps @ qs) = map (ky h) (ps @ qs)"
    using keep(2) by simp
  show "skip_wf s' hdr (ps @ qs)"
    unfolding skip_wf_def s'eq
  proof (intro conjI ballI allI impI, goal_cases)
    case 1 then show ?case using wf by (simp add: skip_wf_def)
  next
    case 2 then show ?case using d(1) by simp
  next
    case 3 then show ?case using dom by simp
  next
    case (4 b) then show ?case using wf by (auto simp: skip_wf_def)
  next
    case (5 b) then show ?case using wf keep(1,5) [of b] by (auto simp: skip_wf_def h_def)
  next
    case 6 then show ?case using wf keep(1) [of hdr] by (simp add: skip_wf_def h_def)
  next
    case 7 then show ?case
      using wf skip_shrink_le [of h' hdr "sk_level s"] by (simp add: skip_wf_def)
  next
    case (8 b) then show ?case using low [of b] keep(1) [of b] by simp
  next
    case (9 b) then show ?case using wf keep(2) [of b] by (auto simp: skip_wf_def h_def)
  next
    case 10
    have "sorted_wrt (<) (map (ky h) (ps @ qs))"
      using wf by (simp add: skip_wf_def h_def sorted_wrt_append)
    then show ?case
      unfolding keys [symmetric] by simp
  next
    case (11 i) then show ?case using ch by simp
  next
    case 12 then show ?case using wf by (simp add: skip_wf_def)
  qed
  show "\<And>b. b \<in> set (ps @ qs) \<Longrightarrow> snode_entry (nd (sk_heap s') b) = snode_entry (nd (sk_heap s) b)"
    using keep by (simp add: s'eq snode_entry_def h_def)
qed

text \<open>Insertion after the update path.\<close>

lemma random_level_loop_le: "level \<le> MAX_LEVEL \<Longrightarrow> fst (random_level_loop seed level) \<le> MAX_LEVEL"
proof (induction seed level rule: random_level_loop.induct)
  case (1 seed level)
  then show ?case
    by (subst random_level_loop.simps) (auto simp: Let_def)
qed

lemma random_level_le: "random_level tseed seed = (level, seed') \<Longrightarrow> level \<le> MAX_LEVEL"
  using random_level_loop_le [of 0 "if seed = 0 then tseed else seed"]
  by (simp add: random_level_def split: if_splits)

lemma upd_path_extended:
  assumes "\<And>b. b \<in> set ps \<Longrightarrow> lv h b \<le> l" and "i \<le> level"
  shows "(if level > l then map (upd_at h hdr ps) [0..<Suc l] @ replicate (level - l) hdr
          else map (upd_at h hdr ps) [0..<Suc l]) ! i = upd_at h hdr ps i"
proof (cases "i \<le> l")
  case True
  then have "(map (upd_at h hdr ps) [0..<Suc l] @ xs) ! i = upd_at h hdr ps i" for xs
    by (simp add: nth_append less_Suc_eq_le del: upt_Suc)
  from this [of "replicate (level - l) hdr"] this [of "[]"] show ?thesis by (simp del: upt_Suc)
next
  case False
  then have "filter (\<lambda>b. i \<le> lv h b) ps = []"
    using assms(1) by (fastforce simp: filter_empty_conv)
  then have "upd_at h hdr ps i = hdr"
    by (simp add: upd_at_def)
  with False assms(2) show ?thesis
    by (simp add: nth_append del: upt_Suc)
qed

lemma skip_link_chain:
  assumes wf: "skip_wf s hdr (ps @ qs)" and i: "i \<le> MAX_LEVEL" and l: "level \<le> MAX_LEVEL"
    and u: "\<And>j. j \<le> level \<Longrightarrow> u ! j = upd_at (sk_heap s) hdr ps j"
    and n: "slevel n = level" "forward n = replicate (level + 1) None"
  defines "h \<equiv> sk_heap s" and "a \<equiv> sk_next s"
  defines "h' \<equiv> skip_link (h(a \<mapsto> n)) u a (Suc level)"
  shows "chain h' i hdr (filter (\<lambda>b. i \<le> lv h b) ps @ (if i \<le> level then [a] else []) @ filter (\<lambda>b. i \<le> lv h b) qs)"
proof -
  let ?f = "filter (\<lambda>b. i \<le> lv h b)" and ?u = "upd_at h hdr ps"
  have new: "a \<notin> set (hdr # ps @ qs)"
    using wf by (auto simp: skip_wf_def a_def)
  have d: "distinct (hdr # ps @ qs)" and top: "lv h hdr = MAX_LEVEL"
    using wf by (auto simp: skip_wf_def h_def)
  have ch: "chain h i hdr (?f ps @ ?f qs)"
    using wf i by (auto simp: skip_wf_def h_def)
  have uin: "?u j \<in> set (hdr # ps @ qs)" "?u j \<noteq> a" for j
    using upd_at_in [of h hdr ps j] new by auto
  have hf: "has_fwd (h(a \<mapsto> n)) (?u j) j" if "j \<le> level" for j
    using upd_at_in [of h hdr ps j] skip_wf_has_fwd(1) [OF wf uin(1), of j] that l top uin(2) [of j]
    by (auto simp: h_def has_fwd_def)
  have hfa: "has_fwd (h(a \<mapsto> n)) a j" if "j \<le> level" for j
    using that n by (simp add: has_fwd_def)
  have fa: "fwd (h(a \<mapsto> n)) b j = fwd h b j" if "b \<noteq> a" for b j
    using that by (simp add: fwd_def)
  have f: "fwd h' b i = (if i \<le> level then if b = a then fwd h (?u i) i else if b = ?u i then Some a else fwd h b i
       else fwd (h(a \<mapsto> n)) b i)" for b
    unfolding h'_def using hf hfa uin(2) u fa
    by (subst fwd_link) (auto simp: less_Suc_eq_le h_def)
  show ?thesis
  proof (cases "i \<le> level")
    case True
    have "distinct (hdr # ?f ps @ a # ?f qs)"
      using d new by auto
    from chain_insert [OF ch this, of h'] f True show ?thesis
      by (simp add: upd_at_def del: last.simps)
  next
    case False
    then have "chain h' i hdr (?f ps @ ?f qs) = chain h i hdr (?f ps @ ?f qs)"
    proof (intro chain_cong)
      fix b
      assume "b \<in> set (hdr # ?f ps @ ?f qs)"
      then have "b \<noteq> a"
        using new by auto
      then show "fwd h' b i = fwd h b i"
        using False by (simp add: f fa)
    qed
    with ch False show ?thesis by simp
  qed
qed

lemma skip_insert_ok:
  assumes wf: "skip_wf s hdr (ps @ qs)"
    and ps: "\<forall>b\<in>set ps. ky (sk_heap s) b < k" and qs: "\<forall>b\<in>set qs. k < ky (sk_heap s) b"
    and ins: "skip_insert tseed m s hdr (map (upd_at (sk_heap s) hdr ps) [0..<Suc (sk_level s)]) (kd k) (kd v) e = (r, s')"
  shows "if m then r = 0 \<and> skip_wf s' hdr (ps @ sk_next s # qs) \<and>
      snode_entry (nd (sk_heap s') (sk_next s)) = (k, v, e) \<and>
      (\<forall>b\<in>set (ps @ qs). snode_entry (nd (sk_heap s') b) = snode_entry (nd (sk_heap s) b))
    else r = -2 \<and> skip_wf s' hdr (ps @ qs) \<and> sk_heap s' = sk_heap s"
proof -
  define h where "h = sk_heap s"
  define a where "a = sk_next s"
  obtain level seed where lev: "random_level tseed (sk_seed s) = (level, seed)"
    by fastforce
  have l: "level \<le> MAX_LEVEL"
    using random_level_le [OF lev] .
  define l' where "l' = (if level > sk_level s then level else sk_level s)"
  define u where "u = (if level > sk_level s then map (upd_at h hdr ps) [0..<Suc (sk_level s)] @ replicate (level - sk_level s) hdr
      else map (upd_at h hdr ps) [0..<Suc (sk_level s)])"
  define n where "n = skipnode_create level (kd k) (kd v) e"
  define h' where "h' = skip_link (h(a \<mapsto> n)) u a (Suc level)"
  have l': "sk_level s \<le> l'" "level \<le> l'" "l' \<le> MAX_LEVEL"
    using l wf by (auto simp: l'_def skip_wf_def)
  have eq: "(r, s') = (if \<not> m then (-2, s\<lparr>sk_seed := seed, sk_level := l'\<rparr>)
      else (0, s\<lparr>sk_seed := seed, sk_level := l', sk_heap := h', sk_next := a + 1, sk_count := sk_count s + 1\<rparr>))"
    using ins
    by (auto simp: skip_insert_def Let_def lev l'_def u_def n_def h'_def h_def a_def simp del: upt_Suc skip_link.simps
        split: if_splits)
  have fail: "skip_wf (s\<lparr>sk_seed := seed, sk_level := l'\<rparr>) hdr (ps @ qs)"
    using wf l' by (auto simp: skip_wf_def intro: order_trans)
  have new: "a \<notin> set (hdr # ps @ qs)" "dom h = set (hdr # ps @ qs)"
    using wf by (auto simp: skip_wf_def a_def h_def)
  have n: "slevel n = level" "forward n = replicate (level + 1) None" "snode_entry n = (k, v, e)" "skey n = kd k"
    by (simp_all add: n_def skipnode_create_def snode_entry_def kd_def)
  have keep: "lv h' b = lv h b" "skey (nd h' b) = skey (nd h b)" "svalue (nd h' b) = svalue (nd h b)"
    "sexpire_time (nd h' b) = sexpire_time (nd h b)" "length (forward (nd h' b)) = length (forward (nd h b))"
    if "b \<in> set (hdr # ps @ qs)" for b
  proof -
    have b: "b \<in> dom (h(a \<mapsto> n))" "b \<noteq> a" using that new by auto
    show "lv h' b = lv h b" "skey (nd h' b) = skey (nd h b)" "svalue (nd h' b) = svalue (nd h b)"
      "sexpire_time (nd h' b) = sexpire_time (nd h b)" "length (forward (nd h' b)) = length (forward (nd h b))"
      using info_keeps [OF node_info_link b(1), of u a "Suc level"] b(2) by (simp_all add: h'_def)
  qed
  have keepa: "lv h' a = level" "skey (nd h' a) = kd k" "svalue (nd h' a) = svalue n"
    "sexpire_time (nd h' a) = sexpire_time n" "length (forward (nd h' a)) = Suc level"
    using info_keeps [OF node_info_link, of a "h(a \<mapsto> n)" u a "Suc level"] n by (simp_all add: h'_def)
  have dom: "dom h' = set (hdr # ps @ a # qs)"
    using new node_info_dom [OF node_info_link, of "h(a \<mapsto> n)" u a "Suc level"] by (auto simp: h'_def)
  have "u ! j = upd_at h hdr ps j" if "j \<le> level" for j
    unfolding u_def using wf that by (intro upd_path_extended) (auto simp: skip_wf_def h_def)
  then have link: "chain h' i hdr (filter (\<lambda>b. i \<le> lv h b) ps @ (if i \<le> level then [a] else []) @ filter (\<lambda>b. i \<le> lv h b) qs)"
    if "i \<le> MAX_LEVEL" for i
    unfolding h'_def h_def a_def using n(1,2) by (intro skip_link_chain [OF wf that l]) (simp_all add: h_def)
  have ch: "chain h' i hdr (filter (\<lambda>b. i \<le> lv h' b) (ps @ a # qs))" if "i \<le> MAX_LEVEL" for i
  proof -
    have "filter (\<lambda>b. i \<le> lv h' b) ps = filter (\<lambda>b. i \<le> lv h b) ps" "filter (\<lambda>b. i \<le> lv h' b) qs = filter (\<lambda>b. i \<le> lv h b) qs"
      using keep(1) by (auto intro!: filter_cong)
    with link [OF that] keepa(1) show ?thesis by (simp split: if_splits)
  qed
  have keys: "map (ky h') (ps @ a # qs) = map (ky h) ps @ k # map (ky h) qs"
    using keep(2) keepa(2) by simp
  have good: "skip_wf (s\<lparr>sk_seed := seed, sk_level := l', sk_heap := h', sk_next := a + 1, sk_count := sk_count s + 1\<rparr>)
      hdr (ps @ a # qs)"
    unfolding skip_wf_def
  proof (intro conjI ballI allI impI, goal_cases)
    case 1 then show ?case using wf by (simp add: skip_wf_def)
  next
    case 2 then show ?case using wf new(1) by (auto simp: skip_wf_def)
  next
    case 3 then show ?case using dom by simp
  next
    case (4 b) then show ?case using wf by (auto simp: skip_wf_def a_def intro: less_SucI)
  next
    case (5 b)
    have "length (forward (nd h b)) = Suc (lv h b)" if "b \<in> set (hdr # ps @ qs)"
      using wf that by (auto simp: skip_wf_def h_def)
    with 5 keep(1,5) [of b] keepa show ?case by auto
  next
    case 6 then show ?case using wf keep(1) [of hdr] by (simp add: skip_wf_def h_def)
  next
    case 7 then show ?case using l' by simp
  next
    case (8 b)
    have "lv h b \<le> sk_level s" if "b \<in> set (ps @ qs)"
      using wf that by (auto simp: skip_wf_def h_def)
    with 8 l' keep(1) [of b] keepa(1) show ?case by auto
  next
    case (9 b)
    have "kdata (skey (nd h b)) \<noteq> None" if "b \<in> set (ps @ qs)"
      using wf that by (auto simp: skip_wf_def h_def)
    with 9 keep(2) [of b] keepa(2) show ?case by auto
  next
    case 10
    have "sorted_wrt (<) (map (ky h) ps @ k # map (ky h) qs)"
      using wf ps qs by (auto simp: skip_wf_def h_def sorted_wrt_append)
    then show ?case
      unfolding keys [symmetric] by simp
  next
    case (11 i) then show ?case using ch by simp
  next
    case 12 then show ?case using wf by (simp add: skip_wf_def)
  qed
  show ?thesis
    using eq fail good keep keepa n
    by (auto simp: snode_entry_def a_def [symmetric] h_def [symmetric] split: if_splits)
qed

section \<open>The engine contract\<close>

lemma skip_inv_wf: "skip_wf s hdr xs \<Longrightarrow> skip_inv s"
  by (auto simp: skip_inv_def)

lemma skip_wf_header: "skip_wf s hdr xs \<Longrightarrow> sk_header s = Some hdr"
  by (simp add: skip_wf_def)

lemma map_entry_cong:
  "(\<And>b. b \<in> set xs \<Longrightarrow> snode_entry (nd h' b) = snode_entry (nd h b)) \<Longrightarrow>
   map snode_entry (map (nd h') xs) = map snode_entry (map (nd h) xs)"
  by simp

lemma skip_absent_contents:
  assumes "skip_wf s hdr (ps @ qs)"
    and "\<forall>a\<in>set ps. ky (sk_heap s) a < k" and "\<forall>a\<in>set qs. k < ky (sk_heap s) a"
  shows "skip_contents s k = None"
  unfolding skip_contents_wf [OF assms(1)] using assms(2,3) by (rule skip_rest_contents)

lemma skip_present_contents:
  assumes "skip_wf s hdr (ps @ a # qs)" and "sk_heap s a = Some n" and "kbytes (skey n) = k"
    and "\<forall>b\<in>set ps. ky (sk_heap s) b < k" and "\<forall>b\<in>set qs. k < ky (sk_heap s) b"
  shows "skip_contents s = (map_of (map snode_entry (map (nd (sk_heap s)) (ps @ qs))))(k \<mapsto> (kbytes (svalue n), sexpire_time n))"
  unfolding skip_contents_wf [OF assms(1)] using assms(2-)
  by (intro entries_split) (simp_all add: snode_entry_def)

lemma skip_remove_contents:
  assumes "skip_wf s hdr (ps @ a # qs)" and "sk_heap s a = Some n" and "kbytes (skey n) = k"
    and "\<forall>b\<in>set ps. ky (sk_heap s) b < k" and "\<forall>b\<in>set qs. k < ky (sk_heap s) b"
    and "s' = skip_remove s hdr (map (upd_at (sk_heap s) hdr ps) [0..<Suc (sk_level s)]) a"
  shows "skip_inv s'" and "skip_contents s' = (skip_contents s)(k := None)"
proof -
  note ok = skip_remove_ok [OF assms(1,6)]
  show "skip_inv s'"
    using ok(1) by (rule skip_inv_wf)
  have "skip_contents s' = map_of (map snode_entry (map (nd (sk_heap s)) (ps @ qs)))"
    unfolding skip_contents_wf [OF ok(1)] using map_entry_cong [OF ok(2)] by (simp only:)
  moreover have "map_of (map snode_entry (map (nd (sk_heap s)) (ps @ qs))) k = None"
    using assms(4,5) by (rule skip_rest_contents)
  ultimately show "skip_contents s' = (skip_contents s)(k := None)"
    unfolding skip_present_contents [OF assms(1-5)] by (auto simp: fun_eq_iff)
qed

lemma kvs_skip_del_spec:
  assumes inv: "skip_inv s"
  shows "if skip_contents s k = None then kvs_skip_del s (kd k) = (1, s)
    else \<exists>s'. kvs_skip_del s (kd k) = (0, s') \<and> skip_inv s' \<and> skip_contents s' = (skip_contents s)(k := None)"
  using inv
proof (cases rule: skip_locate [where k = k])
  case (absent hdr ps qs)
  then show ?thesis
    using skip_absent_contents [OF absent(1-3)] skip_wf_header [OF absent(1)] by (simp add: kvs_skip_del_def)
next
  case (present hdr ps a n qs)
  have "skip_contents s k \<noteq> None"
    by (simp add: skip_present_contents [OF present(1-5)])
  then show ?thesis
    using present(6) skip_wf_header [OF present(1)] skip_remove_contents [OF present(1-5) refl]
    by (simp add: kvs_skip_del_def del: upt_Suc)
qed

lemma kvs_skip_del_cases:
  assumes "skip_inv s"
  shows "skip_contents s k = None \<Longrightarrow> kvs_skip_del s (kd k) = (1, s)"
    and "skip_contents s k \<noteq> None \<Longrightarrow> \<exists>s'. kvs_skip_del s (kd k) = (0, s') \<and>
       skip_inv s' \<and> skip_contents s' = (skip_contents s)(k := None)"
  using kvs_skip_del_spec [OF assms, of k] by (auto split: if_splits)

lemma skip_insert_contents:
  assumes "skip_wf s hdr (ps @ qs)"
    and "\<forall>b\<in>set ps. ky (sk_heap s) b < k" and "\<forall>b\<in>set qs. k < ky (sk_heap s) b"
    and "skip_insert tseed m s hdr (map (upd_at (sk_heap s) hdr ps) [0..<Suc (sk_level s)]) (kd k) (kd v) e = (r, s')"
  shows "skip_inv s' \<and> (r = 0 \<and> skip_contents s' = (skip_contents s)(k \<mapsto> (v, e)) \<or>
    r \<noteq> 0 \<and> \<not> m \<and> skip_contents s' = skip_contents s)"
proof (cases m)
  case True
  let ?a = "sk_next s"
  have r: "r = 0" and wf: "skip_wf s' hdr (ps @ ?a # qs)"
    and new: "snode_entry (nd (sk_heap s') ?a) = (k, v, e)"
    and old: "\<And>b. b \<in> set (ps @ qs) \<Longrightarrow> snode_entry (nd (sk_heap s') b) = snode_entry (nd (sk_heap s) b)"
    using skip_insert_ok [OF assms] True by auto
  have ky: "ky (sk_heap s') b = ky (sk_heap s) b" if "b \<in> set (ps @ qs)" for b
    using old [OF that] by (simp add: snode_entry_def)
  have "skip_contents s' = (map_of (map snode_entry (map (nd (sk_heap s')) (ps @ qs))))(k \<mapsto> (v, e))"
    unfolding skip_contents_wf [OF wf] using assms(2,3) new ky by (intro entries_split) auto
  also have "\<dots> = (skip_contents s)(k \<mapsto> (v, e))"
    unfolding skip_contents_wf [OF assms(1)] using map_entry_cong [OF old] by (simp only:)
  finally show ?thesis
    using r skip_inv_wf [OF wf] by blast
next
  case False
  then show ?thesis
    using skip_insert_ok [OF assms] skip_contents_wf [OF assms(1)] skip_contents_wf [of s' hdr "ps @ qs"]
    by (auto simp: skip_inv_def)
qed

lemma skip_write_ok:
  assumes wf: "skip_wf s hdr (ps @ a # qs)" and n: "sk_heap s a = Some n"
    and n': "n' = n\<lparr>svalue := v, sexpire_time := e\<rparr>"
    and s': "s' = s\<lparr>sk_heap := (sk_heap s)(a \<mapsto> n')\<rparr>"
  shows "skip_wf s' hdr (ps @ a # qs)"
proof -
  let ?h = "sk_heap s" and ?h' = "(sk_heap s)(a \<mapsto> n')"
  have fwd: "fwd ?h' = fwd ?h"
    using n by (simp add: fun_eq_iff fwd_def n')
  have f: "lv ?h' b = lv ?h b" "skey (nd ?h' b) = skey (nd ?h b)" "forward (nd ?h' b) = forward (nd ?h b)" for b
    using n by (simp_all add: n')
  have "chain ?h' i c ys = chain ?h i c ys" for i c ys
    by (intro chain_cong) (simp add: fwd)
  moreover have "dom ?h' = dom ?h"
    using n by auto
  ultimately show ?thesis
    using wf unfolding skip_wf_def s' by (simp add: f del: fun_upd_apply dom_fun_upd map_append filter_append)
qed

lemma kvs_skip_set_cases:
  assumes inv: "skip_inv s" and st: "kvs_skip_set tseed ok s (kd k) (kd v) e = (r, s')"
  shows "skip_inv s' \<and>
    (r = 0 \<and> skip_contents s' = (skip_contents s)(k \<mapsto> (v, e)) \<or>
     r \<noteq> 0 \<and> \<not> ok 0 \<and> (skip_contents s' = skip_contents s \<or> skip_contents s' = (skip_contents s)(k := None)))"
  using inv
proof (cases rule: skip_locate [where k = k])
  case (absent hdr ps qs)
  then have "skip_insert tseed (ok 0) s hdr (map (upd_at (sk_heap s) hdr ps) [0..<Suc (sk_level s)]) (kd k) (kd v) e = (r, s')"
    using st skip_wf_header [OF absent(1)] by (simp add: kvs_skip_set_def del: upt_Suc)
  from skip_insert_contents [OF absent(1-3) this] show ?thesis by blast
next
  case (present hdr ps a n qs)
  note hdr = skip_wf_header [OF present(1)]
  show ?thesis
  proof (cases "length v \<le> klen (svalue n)")
    case True
    let ?n = "n\<lparr>svalue := (svalue n)\<lparr>kdata := Some v\<rparr>, sexpire_time := e\<rparr>"
    have r: "r = 0" and s': "s' = s\<lparr>sk_heap := (sk_heap s)(a \<mapsto> ?n)\<rparr>"
      using st present(2,6) hdr True by (simp_all add: kvs_skip_set_def del: upt_Suc)
    have wf: "skip_wf s' hdr (ps @ a # qs)"
      using skip_write_ok [OF present(1,2) refl s'] .
    have "a \<notin> set (ps @ qs)"
      using present(1) by (auto simp: skip_wf_def)
    then have other: "nd (sk_heap s') b = nd (sk_heap s) b" if "b \<in> set (ps @ qs)" for b
      using that by (auto simp: s')
    have "skip_contents s' = (map_of (map snode_entry (map (nd (sk_heap s')) (ps @ qs))))(k \<mapsto> (v, e))"
      using skip_present_contents [OF wf, of ?n k] present(3-5) other by (simp add: s' kbytes_def)
    then have "skip_contents s' = (skip_contents s)(k \<mapsto> (v, e))"
      unfolding skip_present_contents [OF present(1-5)] using other by (simp cong: map_cong)
    with r wf show ?thesis
      by (auto intro: skip_inv_wf)
  next
    case False
    obtain s1 where s1: "kvs_skip_del s (kd k) = (0, s1)" "skip_inv s1" "skip_contents s1 = (skip_contents s)(k := None)"
      using kvs_skip_del_cases(2) [OF inv, of k] by (auto simp: skip_present_contents [OF present(1-5)])
    have hdr1: "sk_header s1 = Some hdr"
      using s1(1) present(6) hdr by (auto simp: kvs_skip_del_def skip_remove_def Let_def)
    from s1(2) show ?thesis
    proof (cases rule: skip_locate [where k = k])
      case (absent hdr' ps' qs')
      have "hdr' = hdr"
        using skip_wf_header [OF absent(1)] hdr1 by simp
      then have "skip_insert tseed (ok 0) s1 hdr' (map (upd_at (sk_heap s1) hdr' ps') [0..<Suc (sk_level s1)]) (kd k) (kd v) e = (r, s')"
        using st False present(2,6) hdr s1(1) absent(4) by (simp add: kvs_skip_set_def del: upt_Suc)
      from skip_insert_contents [OF absent(1-3) this] show ?thesis
        using s1(3) by auto
    next
      case (present hdr' ps' a' n' qs')
      have "skip_contents s1 k \<noteq> None"
        by (simp add: skip_present_contents [OF present(1-5)])
      with s1(3) show ?thesis by simp
    qed
  qed
qed

interpretation ske: kv_engine skip_inv "\<lambda>_. True" skip_contents "kvs_skip_set tseed" kvs_skip_get
  kvs_skip_del kvs_skip_exist kvs_skip_del_if_expired for tseed
proof (unfold_locales, goal_cases)
  case (1 s k ok v e r s')
  then show ?case using kvs_skip_set_cases by blast
next
  case (2 s k ok v e s')
  then show ?case using kvs_skip_set_cases [of s tseed ok k v e 0 s'] by simp
next
  case (3 s k ok v e r s' k')
  then show ?case using kvs_skip_set_cases [of s tseed ok k v e r s'] by auto
next
  case (4 s k ttl now)
  from 4(1) show ?case
  proof (cases rule: skip_locate [where k = k])
    case (absent hdr ps qs)
    then show ?thesis using skip_wf_header [OF absent(1)] by (simp add: kvs_skip_get_def)
  next
    case (present hdr ps a n qs)
    then show ?thesis using 4 skip_present_contents [OF present(1-5)] by simp
  qed
next
  case (5 s k v e ttl now)
  from 5(1) show ?case
  proof (cases rule: skip_locate [where k = k])
    case (absent hdr ps qs)
    then show ?thesis using 5 skip_absent_contents [OF absent(1-3)] by simp
  next
    case (present hdr ps a n qs)
    then show ?thesis using 5 skip_present_contents [OF present(1-5)] skip_wf_header [OF present(1)]
      by (auto simp: kvs_skip_get_def expired_def simp del: upt_Suc)
  qed
next
  case (6 s k v e ttl now)
  from 6(1) show ?case
  proof (cases rule: skip_locate [where k = k])
    case (absent hdr ps qs)
    then show ?thesis using 6 skip_absent_contents [OF absent(1-3)] by simp
  next
    case (present hdr ps a n qs)
    then show ?thesis using 6 skip_present_contents [OF present(1-5)] skip_wf_header [OF present(1)]
      by (auto simp: kvs_skip_get_def kvs_skip_del_def handle_expired_node_def expired_def simp del: upt_Suc)
  qed
next
  case (7 s k)
  then show ?case by (rule kvs_skip_del_cases)
next
  case (8 s k ent)
  then show ?case by (intro kvs_skip_del_cases(2)) simp_all
next
  case (9 s ttl now k)
  then show ?case by (simp add: kvs_skip_exist_def split: prod.split)
next
  case (10 s k x)
  from 10(1) show ?case
  proof (cases rule: skip_locate [where k = k])
    case (absent hdr ps qs)
    then show ?thesis using skip_absent_contents [OF absent(1-3)] skip_wf_header [OF absent(1)]
      by (simp add: kvs_skip_del_if_expired_def del: upt_Suc)
  next
    case (present hdr ps a n qs)
    then show ?thesis using skip_present_contents [OF present(1-5)] skip_wf_header [OF present(1)]
      by (simp add: kvs_skip_del_if_expired_def del: upt_Suc)
  qed
qed

lemma chain_None: "(\<And>c. c \<in> set (a # ys) \<Longrightarrow> fwd h c i = None) \<Longrightarrow> chain h i a ys \<longleftrightarrow> ys = []"
  by (cases ys) auto

lemma skip_create_inv:
  "skip_inv (snd (kvs_skip_create True skip_static))" "skip_contents (snd (kvs_skip_create True skip_static)) = (\<lambda>_. None)"
proof -
  have f: "fwd [0 \<mapsto> skipnode_create MAX_LEVEL kd_null kd_null 0] 0 i = None" for i
    by (simp add: fwd_def skipnode_create_def nth_append del: replicate_Suc)
  have wf: "skip_wf (snd (kvs_skip_create True skip_static)) 0 []"
    by (simp add: skip_wf_def kvs_skip_create_def skip_static_def f) (simp add: skipnode_create_def)
  then show "skip_inv (snd (kvs_skip_create True skip_static))"
    by (rule skip_inv_wf)
  show "skip_contents (snd (kvs_skip_create True skip_static)) = (\<lambda>_. None)"
    unfolding skip_contents_wf [OF wf] by simp
qed

text \<open>
  A zero seed, which \<open>pthread_self() ^ time(NULL)\<close> does not exclude, is a fixed point of the
  generator: every node then gets the top level.
\<close>

lemma xorshift32_zero: "xorshift32 0 = 0"
  by (simp add: xorshift32_def)

lemma random_level_loop_zero: "level \<le> MAX_LEVEL \<Longrightarrow> random_level_loop 0 level = (MAX_LEVEL, 0)"
proof (induction "MAX_LEVEL - level" arbitrary: level)
  case 0
  then show ?case by (subst random_level_loop.simps) (simp add: xorshift32_zero)
next
  case (Suc d)
  then have "level < MAX_LEVEL" "random_level_loop 0 (Suc level) = (MAX_LEVEL, 0)"
    by auto
  then show ?case
    by (subst random_level_loop.simps) (simp add: xorshift32_zero word_less_nat_alt)
qed

lemma random_level_zero_seed: "random_level 0 0 = (MAX_LEVEL, 0)"
  by (simp add: random_level_def random_level_loop_zero)

section \<open>Properties\<close>

text \<open>
  C7. The skip list engine implements the abstract map, whatever levels the random generator
  chooses: any sequence of SET, GET, DEL and timer deletions that reports no failed SET leaves
  it with exactly the contents of the abstract map.
\<close>

theorem skip_refines_map:
  assumes "skip_inv s"
    and "run_ops (kvs_skip_set tseed ok) kvs_skip_get kvs_skip_del kvs_skip_del_if_expired s xs = Some s'"
  shows "skip_inv s' \<and> skip_contents s' = foldl spec_op (skip_contents s) xs"
  using assms by (intro ske.run_ops_refines) auto

definition skip_demo_ops :: "store_op list" where
  "skip_demo_ops =
     [OpSet ''b'' ''2'' 5, OpSet ''a'' ''1'' 0, OpSet ''c'' ''3'' 0,
      OpSet ''a'' ''longer'' 9, OpGet True 6 ''b'', OpDel ''c'']"

definition skip_demo :: "kvs_skip option" where
  "skip_demo = run_ops (kvs_skip_set 12345 always_ok) kvs_skip_get kvs_skip_del
     kvs_skip_del_if_expired (snd (kvs_skip_create True skip_static)) skip_demo_ops"

lemma kvs_skip_set_succeeds: "skip_inv s \<Longrightarrow> fst (kvs_skip_set tseed always_ok s (kd k) (kd v) e) = 0"
  using kvs_skip_set_cases [of s tseed always_ok k v e] by (metis prod.collapse)

theorem skip_refines_map_witness:
  "\<exists>s'. skip_demo = Some s' \<and> skip_contents s' ''a'' = Some (''longer'', 9) \<and>
     skip_contents s' ''b'' = None \<and> skip_contents s' ''c'' = None"
proof -
  obtain s' where s': "skip_demo = Some s'"
    using ske.run_ops_total [OF kvs_skip_set_succeeds [of _ 12345] skip_create_inv(1), of skip_demo_ops]
    by (auto simp: skip_demo_def)
  have "skip_contents s' = foldl spec_op (\<lambda>_. None) skip_demo_ops"
    using skip_refines_map [OF skip_create_inv(1) s' [unfolded skip_demo_def]]
    by (simp add: skip_create_inv(2))
  with s' show ?thesis
    by (intro exI [of _ s']) (simp add: skip_demo_ops_def expired_def)
qed

text \<open>
  C8. The pointers of the skip list stay safe: after a SET (also a failing one) or a DEL no
  forward pointer leads to freed memory, and nothing leaks: the live nodes are the header and
  the \<open>count\<close> members. The search loop always ends: \<open>skip_find_update\<close> returns on the new list
  for every key.
\<close>

lemma skip_inv_safe:
  assumes "skip_inv s"
  shows "\<forall>a i b. fwd (sk_heap s) a i = Some b \<longrightarrow> sk_heap s b \<noteq> None"
    and "int (card (dom (sk_heap s))) = sk_count s + 1"
proof -
  obtain hdr xs where wf: "skip_wf s hdr xs"
    using assms by (auto simp: skip_inv_def)
  then have dom: "dom (sk_heap s) = set (hdr # xs)" and d: "distinct (hdr # xs)" and n: "sk_count s = int (length xs)"
    by (auto simp: skip_wf_def)
  then show "int (card (dom (sk_heap s))) = sk_count s + 1"
    by (simp add: distinct_card)
  have target: "b \<in> set ys" if "chain h i c ys" and "a \<in> set (c # ys)" and "fwd h a i = Some b" for h i c ys a b
    using that by (induction ys arbitrary: c) auto
  show "\<forall>a i b. fwd (sk_heap s) a i = Some b \<longrightarrow> sk_heap s b \<noteq> None"
  proof (intro allI impI)
    fix a i b
    assume f: "fwd (sk_heap s) a i = Some b"
    then have h: "has_fwd (sk_heap s) a i" and a: "a \<in> set (hdr # xs)"
      unfolding dom [symmetric] by (auto simp: fwd_def has_fwd_def split: option.splits if_splits)
    then have lv: "i \<le> lv (sk_heap s) a"
      using skip_wf_has_fwd(1) [OF wf a] by simp
    with a wf have i: "i \<le> MAX_LEVEL" and ai: "a \<in> set (hdr # filter (\<lambda>a. i \<le> lv (sk_heap s) a) xs)"
      by (auto simp: skip_wf_def intro: order_trans)
    have "chain (sk_heap s) i hdr (filter (\<lambda>a. i \<le> lv (sk_heap s) a) xs)"
      using wf i by (simp add: skip_wf_def)
    from target [OF this ai f] have "b \<in> set (hdr # xs)"
      by simp
    then show "sk_heap s b \<noteq> None"
      unfolding dom [symmetric] by auto
  qed
qed

theorem skip_pointers_safe:
  assumes "skip_inv s"
    and "s' \<in> {snd (kvs_skip_set tseed ok s (kd k) (kd v) e), snd (kvs_skip_del s (kd k))}"
  shows "(\<forall>a i b. fwd (sk_heap s') a i = Some b \<longrightarrow> sk_heap s' b \<noteq> None) \<and>
    int (card (dom (sk_heap s'))) = sk_count s' + 1 \<and> (\<forall>k'. skip_find_update s' (kd k') \<noteq> None)"
proof -
  have inv: "skip_inv s'"
    using assms ske.set_invar [OF assms(1) TrueI, of tseed ok k v e] ske.del_invar [OF assms(1), of k]
    by (auto simp: prod_eq_iff)
  have "skip_find_update s' (kd k') \<noteq> None" for k'
    using inv by (cases rule: skip_locate [where k = k']) auto
  then show ?thesis
    using skip_inv_safe [OF inv] by blast
qed

theorem skip_pointers_safe_witness:
  "\<forall>k'. skip_find_update (snd (kvs_skip_set 12345 always_ok (snd (kvs_skip_create True skip_static)) (kd ''a'') (kd ''1'') 0)) (kd k') \<noteq> None"
  using skip_pointers_safe [OF skip_create_inv(1), of _ 12345 always_ok "''a''" "''1''" 0] by blast

end
