(* ===== verification/Kvs_Libc.thy ===== *)
theory Kvs_Libc
  imports Kvs_Prelude
begin

text \<open>
  The functions of the C library that the protocol, the command handlers and the sorted sets
  call: decimal output (\<open>%d\<close>, \<open>%lld\<close>, \<open>%015lld\<close>), \<open>atoi\<close> and \<open>atoll\<close> with the saturation of
  \<open>strtol\<close>, \<open>strncmp\<close>, \<open>toupper\<close> and \<open>strncasecmp\<close> (in the C locale). The lemmas show that
  reading a printed number gives it back and that zero-padded numbers sort like numbers.
\<close>

section \<open>Decimal output\<close>

definition digit :: "nat \<Rightarrow> char" where
  "digit d = char_of (48 + d)"

fun dec :: "nat \<Rightarrow> bytes" where
  "dec n = (if n < 10 then [digit n] else dec (n div 10) @ [digit (n mod 10)])"

declare dec.simps [simp del]

definition print_int :: "int \<Rightarrow> bytes" where
  "print_int x = (if x < 0 then CHR ''-'' # dec (nat (- x)) else dec (nat x))"

definition lpad0 :: "nat \<Rightarrow> bytes \<Rightarrow> bytes" where
  "lpad0 w s = replicate (w - length s) CHR ''0'' @ s"

text \<open>\<open>%0<w>lld\<close>: zeros after the sign, up to the width \<open>w\<close>.\<close>

definition print_padded :: "nat \<Rightarrow> int \<Rightarrow> bytes" where
  "print_padded w x = (if x < 0 then CHR ''-'' # lpad0 (w - 1) (dec (nat (- x))) else lpad0 w (dec (nat x)))"

section \<open>Decimal input\<close>

definition is_digit :: "char \<Rightarrow> bool" where
  "is_digit c \<longleftrightarrow> 48 \<le> (of_char c :: nat) \<and> (of_char c :: nat) \<le> 57"

definition is_space :: "char \<Rightarrow> bool" where
  "is_space c \<longleftrightarrow> (of_char c :: nat) = 32 \<or> 9 \<le> (of_char c :: nat) \<and> (of_char c :: nat) \<le> 13"

fun digits_value :: "nat \<Rightarrow> bytes \<Rightarrow> nat" where
  "digits_value acc [] = acc"
| "digits_value acc (c # cs) =
     (if is_digit c then digits_value (10 * acc + (of_char c - 48)) cs else acc)"

definition clamp64 :: "int \<Rightarrow> int" where
  "clamp64 x = max (- (2 ^ 63)) (min (2 ^ 63 - 1) x)"

text \<open>\<open>strtoll(s, NULL, 10)\<close>: white space, an optional sign, digits; out of range values saturate.\<close>

definition strtoll :: "bytes \<Rightarrow> int" where
  "strtoll s =
     (case dropWhile is_space s of
        [] \<Rightarrow> 0
      | c # cs \<Rightarrow>
          if c = CHR ''-'' then clamp64 (- int (digits_value 0 cs))
          else if c = CHR ''+'' then clamp64 (int (digits_value 0 cs))
          else clamp64 (int (digits_value 0 (c # cs))))"

definition atoll :: "bytes \<Rightarrow> int" where
  "atoll s = strtoll s"

definition atoi :: "bytes \<Rightarrow> int" where
  "atoi s = i32 (strtoll s)"

section \<open>Strings\<close>

definition NUL :: char where
  "NUL = char_of (0 :: nat)"

text \<open>A list that ends stands for a string that ends with its NUL byte.\<close>

fun strncmp :: "nat \<Rightarrow> bytes \<Rightarrow> bytes \<Rightarrow> int" where
  "strncmp 0 a b = 0"
| "strncmp (Suc n) [] [] = 0"
| "strncmp (Suc n) [] (y # ys) = - of_char y"
| "strncmp (Suc n) (x # xs) [] = of_char x"
| "strncmp (Suc n) (x # xs) (y # ys) =
     (if x \<noteq> y then of_char x - of_char y else if x = NUL then 0 else strncmp n xs ys)"

definition toupper :: "char \<Rightarrow> char" where
  "toupper c = (let n = (of_char c :: nat) in if 97 \<le> n \<and> n \<le> 122 then char_of (n - 32) else c)"

text \<open>\<open>strncasecmp\<close> compares in lower case; upper case gives the same zero test.\<close>

definition strncasecmp :: "bytes \<Rightarrow> bytes \<Rightarrow> nat \<Rightarrow> int" where
  "strncasecmp a b n = strncmp n (map toupper a) (map toupper b)"

section \<open>Lemmas\<close>

lemma of_char_digit [simp]: "d < 10 \<Longrightarrow> (of_char (digit d) :: nat) = 48 + d"
  by (simp add: digit_def of_char_of)

lemma is_digit_digit [simp]: "d < 10 \<Longrightarrow> is_digit (digit d)"
  by (simp add: is_digit_def)

lemma dec_all_digits: "c \<in> set (dec n) \<Longrightarrow> is_digit c"
proof (induction n rule: dec.induct)
  case (1 n)
  show ?case
  proof (cases "n < 10")
    case True
    with "1.prems" show ?thesis by (subst (asm) dec.simps) simp
  next
    case False
    then have "dec n = dec (n div 10) @ [digit (n mod 10)]"
      by (subst dec.simps) simp
    with "1.IH" False "1.prems" show ?thesis by auto
  qed
qed

lemma dec_nonempty [simp]: "dec n \<noteq> []"
  by (subst dec.simps) simp

lemma digits_value_append:
  "\<forall>c\<in>set xs. is_digit c \<Longrightarrow> digits_value acc (xs @ ys) = digits_value (digits_value acc xs) ys"
  by (induction xs arbitrary: acc) simp_all

lemma digits_value_dec: "digits_value 0 (dec n) = n"
proof (induction n rule: dec.induct)
  case (1 n)
  show ?case
  proof (cases "n < 10")
    case True
    then show ?thesis by (subst dec.simps) simp
  next
    case False
    then have "dec n = dec (n div 10) @ [digit (n mod 10)]"
      by (subst dec.simps) simp
    moreover have "digits_value 0 (dec (n div 10)) = n div 10"
      using "1.IH" False by simp
    ultimately show ?thesis
      using dec_all_digits by (simp add: digits_value_append)
  qed
qed

lemma digits_value_stop:
  "rest = [] \<or> \<not> is_digit (hd rest) \<Longrightarrow> digits_value acc rest = acc"
  by (cases rest) auto

lemma not_space_digit: "is_digit c \<Longrightarrow> \<not> is_space c \<and> c \<noteq> CHR ''-'' \<and> c \<noteq> CHR ''+''"
  by (auto simp: is_digit_def is_space_def)

text \<open>Reading a number that was printed, whatever non-digit follows it.\<close>

lemma strtoll_print_int:
  assumes "- (2 ^ 63) \<le> x" and "x < 2 ^ 63" and "rest = [] \<or> \<not> is_digit (hd rest)"
  shows "strtoll (print_int x @ rest) = x"
proof -
  have val: "digits_value 0 (dec n @ rest) = n" for n
    using dec_all_digits [of _ n] digits_value_stop [OF assms(3)]
    by (simp add: digits_value_append digits_value_dec)
  have clamp: "clamp64 x = x"
    using assms(1,2) by (simp add: clamp64_def)
  show ?thesis
  proof (cases "x < 0")
    case True
    then show ?thesis
      using val [of "nat (- x)"] clamp by (simp add: strtoll_def print_int_def is_space_def)
  next
    case False
    obtain c cs where c: "dec (nat x) = c # cs"
      by (cases "dec (nat x)") auto
    then have "\<not> is_space c \<and> c \<noteq> CHR ''-'' \<and> c \<noteq> CHR ''+''"
      using dec_all_digits [of c "nat x"] by (intro not_space_digit) simp
    then show ?thesis
      using val [of "nat x"] clamp False by (simp add: strtoll_def print_int_def c)
  qed
qed

lemma atoi_print_int:
  "- (2 ^ 31) \<le> x \<Longrightarrow> x < 2 ^ 31 \<Longrightarrow> rest = [] \<or> \<not> is_digit (hd rest) \<Longrightarrow> atoi (print_int x @ rest) = x"
  by (simp add: atoi_def strtoll_print_int i32_id)

lemma atoll_print_int:
  "- (2 ^ 63) \<le> x \<Longrightarrow> x < 2 ^ 63 \<Longrightarrow> rest = [] \<or> \<not> is_digit (hd rest) \<Longrightarrow> atoll (print_int x @ rest) = x"
  by (simp add: atoll_def strtoll_print_int)

text \<open>Zero-padded numbers have a fixed width and sort like numbers.\<close>

fun digs :: "nat \<Rightarrow> nat \<Rightarrow> bytes" where
  "digs 0 n = []"
| "digs (Suc w) n = digs w (n div 10) @ [digit (n mod 10)]"

lemma length_digs [simp]: "length (digs w n) = w"
  by (induction w arbitrary: n) simp_all

lemma digs_zero: "digs w 0 = replicate w CHR ''0''"
proof (induction w)
  case (Suc w)
  have "digit 0 = CHR ''0''"
    by code_simp
  with Suc show ?case by (simp add: replicate_append_same)
qed simp

lemma lpad0_dec: "n < 10 ^ w \<Longrightarrow> 0 < w \<Longrightarrow> lpad0 w (dec n) = digs w n"
proof (induction w arbitrary: n)
  case (Suc w)
  show ?case
  proof (cases "n < 10")
    case True
    then have "dec n = [digit n]" by (subst dec.simps) simp
    with True show ?thesis
      by (simp add: lpad0_def digs_zero)
  next
    case False
    then have d: "dec n = dec (n div 10) @ [digit (n mod 10)]"
      by (subst dec.simps) simp
    have "0 < w"
      using False Suc.prems by (cases w) auto
    moreover have "n div 10 < 10 ^ w"
      using Suc.prems by (simp add: less_mult_imp_div_less mult.commute)
    ultimately have "lpad0 w (dec (n div 10)) = digs w (n div 10)"
      by (intro Suc.IH)
    then show ?thesis
      by (simp add: lpad0_def d)
  qed
qed simp

lemma list_less_snoc:
  "length a = length b \<Longrightarrow> (a @ [x] < b @ [y]) = (a < b \<or> a = b \<and> x < (y :: 'a :: linorder))"
proof (induction a arbitrary: b)
  case (Cons c a)
  then show ?case by (cases b) auto
qed simp

lemma digit_less: "d < 10 \<Longrightarrow> e < 10 \<Longrightarrow> (digit d < digit e) = (d < e)"
  by (simp add: less_char_def)

lemma digit_eq: "d < 10 \<Longrightarrow> e < 10 \<Longrightarrow> (digit d = digit e) = (d = e)"
  by (metis add_left_cancel of_char_digit)

lemma digs_inj: "m < 10 ^ w \<Longrightarrow> n < 10 ^ w \<Longrightarrow> (digs w m = digs w n) = (m = n)"
proof (induction w arbitrary: m n)
  case (Suc w)
  have "m div 10 < 10 ^ w" "n div 10 < 10 ^ w"
    using Suc.prems by (simp_all add: less_mult_imp_div_less mult.commute)
  from Suc.IH [OF this] show ?case
    by (simp add: digit_eq) (metis div_mult_mod_eq)
qed simp

lemma digs_less: "m < 10 ^ w \<Longrightarrow> n < 10 ^ w \<Longrightarrow> (digs w m < digs w n) = (m < n)"
proof (induction w arbitrary: m n)
  case (Suc w)
  have b: "m div 10 < 10 ^ w" "n div 10 < 10 ^ w"
    using Suc.prems by (simp_all add: less_mult_imp_div_less mult.commute)
  have "(digs (Suc w) m < digs (Suc w) n) = (m div 10 < n div 10 \<or> m div 10 = n div 10 \<and> m mod 10 < n mod 10)"
    using Suc.IH [OF b] digs_inj [OF b] by (simp add: list_less_snoc digit_less)
  also have "\<dots> = (m < n)"
  proof -
    have "(a < c \<or> a = c \<and> b < d) = (10 * a + b < 10 * c + d)" if "b < 10" "d < 10" for a b c d :: nat
      using that by (cases a c rule: linorder_cases) auto
    from this [of "m mod 10" "n mod 10" "m div 10" "n div 10"] show ?thesis by simp
  qed
  finally show ?case .
qed simp

end
