(* ===== verification/Kvs_Zset.thy ===== *)
theory Kvs_Zset
  imports Kvs_Skip Kvs_Libc
begin

text \<open>
  The sorted sets of \<^verbatim>\<open>kvs_skiptable.c\<close>: a member is a skip list key made of a timestamp of
  15 digits, a colon and the ID, so that the order of the keys is the order of the times. The
  lemmas show this order for timestamps of at most 15 digits, and that a range query returns
  exactly the IDs in its range, in order.
\<close>

definition zset_make_key :: "nat \<Rightarrow> int \<Rightarrow> bytes \<Rightarrow> bytes option" where
  "zset_make_key buf_size ts i =
     (let p = print_padded 15 ts @ '':'' in if length p + length i \<ge> buf_size then None else Some (p @ i))"

definition zset_extract_id :: "bool \<Rightarrow> bytes \<Rightarrow> bytes option" where
  "zset_extract_id m k = (if length k < 16 then None else if \<not> m then None else Some (drop 16 k))"

definition kvs_zset_add ::
  "32 word \<Rightarrow> alloc_env \<Rightarrow> kvs_skip \<Rightarrow> int \<Rightarrow> kv_data \<Rightarrow> int \<times> kvs_skip" where
  "kvs_zset_add tseed ok s ts i =
     (if sk_header s = None \<or> kdata i = None \<or> klen i = 0 then (-1, s)
      else case zset_make_key 128 ts (kbytes i) of
        None \<Rightarrow> (-1, s)
      | Some k \<Rightarrow> kvs_skip_set tseed ok s (kd k) kd_null 0)"

text \<open>
  The collecting loop of \<open>kvs_zset_recent\<close>: at most \<open>want\<close> IDs. Allocation \<open>Suc j\<close> is the copy
  of the ID of the \<open>j\<close>-th node visited, allocation 0 the result array.
\<close>

fun zset_collect :: "alloc_env \<Rightarrow> nat \<Rightarrow> nat \<Rightarrow> skipnode list \<Rightarrow> bytes list" where
  "zset_collect ok j want [] = []"
| "zset_collect ok j want (n # ns) =
     (if want = 0 then []
      else case zset_extract_id (ok (Suc j)) (kbytes (skey n)) of
        Some i \<Rightarrow> i # zset_collect ok (Suc j) (want - 1) ns
      | None \<Rightarrow> zset_collect ok (Suc j) want ns)"

definition kvs_zset_recent :: "alloc_env \<Rightarrow> kvs_skip \<Rightarrow> int \<Rightarrow> int \<times> bytes list" where
  "kvs_zset_recent ok s n =
     (if sk_header s = None \<or> n \<le> 0 then (-1, [])
      else
        let nodes = skip_nodes s; total = length nodes
        in if total = 0 then (0, [])
           else
             let start = (if int total > n then total - nat n else 0); want = total - start
             in if \<not> ok 0 then (-1, []) else (0, zset_collect ok 0 want (drop start nodes)))"

text \<open>The two passes of \<open>kvs_zset_range\<close>; both stop at the first key above the range.\<close>

fun zset_count :: "bytes \<Rightarrow> bytes \<Rightarrow> skipnode list \<Rightarrow> nat" where
  "zset_count lo hi [] = 0"
| "zset_count lo hi (n # ns) =
     (if klen (skey n) < 16 then zset_count lo hi ns
      else if strncmp 15 (kbytes (skey n)) lo < 0 then zset_count lo hi ns
      else if strncmp 15 (kbytes (skey n)) hi > 0 then 0
      else Suc (zset_count lo hi ns))"

fun zset_gather :: "alloc_env \<Rightarrow> nat \<Rightarrow> nat \<Rightarrow> bytes \<Rightarrow> bytes \<Rightarrow> skipnode list \<Rightarrow> bytes list" where
  "zset_gather ok j left lo hi [] = []"
| "zset_gather ok j left lo hi (n # ns) =
     (if left = 0 then []
      else if klen (skey n) < 16 then zset_gather ok (Suc j) left lo hi ns
      else if strncmp 15 (kbytes (skey n)) lo < 0 then zset_gather ok (Suc j) left lo hi ns
      else if strncmp 15 (kbytes (skey n)) hi > 0 then []
      else case zset_extract_id (ok (Suc j)) (kbytes (skey n)) of
        Some i \<Rightarrow> i # zset_gather ok (Suc j) (left - 1) lo hi ns
      | None \<Rightarrow> zset_gather ok (Suc j) left lo hi ns)"

text \<open>The prefixes are printed into buffers of 20 bytes; only their first 15 are compared.\<close>

definition kvs_zset_range :: "alloc_env \<Rightarrow> kvs_skip \<Rightarrow> int \<Rightarrow> int \<Rightarrow> int \<times> bytes list" where
  "kvs_zset_range ok s min_ts max_ts =
     (if sk_header s = None then (-1, [])
      else if min_ts > max_ts then (-1, [])
      else
        let lo = take 19 (print_padded 15 min_ts);
            hi = take 19 (print_padded 15 max_ts);
            nodes = skip_nodes s;
            n = zset_count lo hi nodes
        in if n = 0 then (0, []) else if \<not> ok 0 then (-1, []) else (0, zset_gather ok 0 n lo hi nodes))"

section \<open>Lemmas\<close>

definition zkey :: "nat \<times> bytes \<Rightarrow> bytes" where
  "zkey e = digs 15 (fst e) @ CHR '':'' # snd e"

abbreviation ts_ok :: "nat \<Rightarrow> bool" where
  "ts_ok t \<equiv> t < 10 ^ 15"

lemma print_padded_ok: "ts_ok t \<Longrightarrow> print_padded 15 (int t) = digs 15 t"
  by (simp add: print_padded_def lpad0_dec)

lemma digs_no_NUL: "c \<in> set (digs w n) \<Longrightarrow> c \<noteq> NUL"
proof (induction w arbitrary: n)
  case (Suc w)
  have "digit d \<noteq> NUL" if "d < 10" for d
  proof
    assume "digit d = NUL"
    then have "(of_char (digit d) :: nat) = of_char NUL" by simp
    with that show False by (simp add: NUL_def)
  qed
  then have "digit (n mod 10) \<noteq> NUL" by simp
  with Suc show ?case by auto
qed simp

lemma strncmp_less:
  assumes "length a = length b" and "NUL \<notin> set a"
  shows "(strncmp (length a) (a @ x) b < 0) = (a < b)" and "(strncmp (length a) (a @ x) b > 0) = (b < a)"
  using assms
proof (induction a arbitrary: b)
  case (Cons c a)
  {
    case 1
    with Cons show ?case
      by (cases b) (auto simp: of_char_int_less_iff)
  next
    case 2
    with Cons show ?case
      by (cases b) (auto simp: of_char_int_less_iff)
  }
qed auto

lemma strncmp_zkey:
  assumes "ts_ok t" and "ts_ok u"
  shows "(strncmp 15 (zkey (t, i)) (take 19 (print_padded 15 (int u))) < 0) = (t < u)"
    and "(strncmp 15 (zkey (t, i)) (take 19 (print_padded 15 (int u))) > 0) = (u < t)"
proof -
  have n: "NUL \<notin> set (digs 15 t)"
    using digs_no_NUL by blast
  have p: "take 19 (print_padded 15 (int u)) = digs 15 u"
    using assms(2) by (simp add: print_padded_ok)
  show "(strncmp 15 (zkey (t, i)) (take 19 (print_padded 15 (int u))) < 0) = (t < u)"
    using strncmp_less(1) [of "digs 15 t" "digs 15 u" "CHR '':'' # i", OF _ n] digs_less [OF assms]
    by (simp only: p zkey_def length_digs fst_conv snd_conv)
  show "(strncmp 15 (zkey (t, i)) (take 19 (print_padded 15 (int u))) > 0) = (u < t)"
    using strncmp_less(2) [of "digs 15 t" "digs 15 u" "CHR '':'' # i", OF _ n] digs_less [OF assms(2,1)]
    by (simp only: p zkey_def length_digs fst_conv snd_conv)
qed

lemma list_less_append:
  "length a = length b \<Longrightarrow> (a @ x < b @ y) = (a < b \<or> a = b \<and> x < (y :: 'a :: linorder list))"
proof (induction a arbitrary: b)
  case (Cons c a)
  then show ?case by (cases b) auto
qed simp

lemma zkey_less:
  assumes "ts_ok (fst d)" and "ts_ok (fst e)"
  shows "(zkey d < zkey e) = (fst d < fst e \<or> fst d = fst e \<and> snd d < snd e)"
  by (simp add: zkey_def list_less_append digs_less [OF assms] digs_inj [OF assms])

text \<open>The members of a skip list all of whose keys are sorted-set keys, in order.\<close>

definition zset_members :: "kvs_skip \<Rightarrow> (nat \<times> bytes) list \<Rightarrow> bool" where
  "zset_members s es \<longleftrightarrow>
     map (\<lambda>n. kbytes (skey n)) (skip_nodes s) = map zkey es \<and> (\<forall>e\<in>set es. ts_ok (fst e))"

lemma zkey_len: "16 \<le> length (zkey e)" "drop 16 (zkey e) = snd e"
  by (simp_all add: zkey_def)

lemma zset_count_members:
  assumes "map (\<lambda>n. kbytes (skey n)) ns = map zkey es" and "\<forall>e\<in>set es. ts_ok (fst e)"
    and "sorted_wrt (\<lambda>d e. fst d \<le> fst e) es" and "ts_ok lo" and "ts_ok hi" and "lo \<le> hi"
  shows "zset_count (take 19 (print_padded 15 (int lo))) (take 19 (print_padded 15 (int hi))) ns =
    length (filter (\<lambda>e. lo \<le> fst e \<and> fst e \<le> hi) es)"
  using assms(1-3)
proof (induction es arbitrary: ns)
  case (Cons e es)
  then obtain n ns' where ns: "ns = n # ns'" and k: "kbytes (skey n) = zkey e"
    by (cases ns) auto
  have e: "ts_ok (fst e)" using Cons.prems by simp
  have cmp: "(strncmp 15 (zkey e) (take 19 (print_padded 15 (int u))) < 0) = (fst e < u)"
    "(strncmp 15 (zkey e) (take 19 (print_padded 15 (int u))) > 0) = (u < fst e)" if "ts_ok u" for u
    using strncmp_zkey [OF e that, of "snd e"] by simp_all
  have "zset_count (take 19 (print_padded 15 (int lo))) (take 19 (print_padded 15 (int hi))) ns' =
    length (filter (\<lambda>e. lo \<le> fst e \<and> fst e \<le> hi) es)"
    using Cons.prems ns by (intro Cons.IH) auto
  moreover have "filter (\<lambda>e. lo \<le> fst e \<and> fst e \<le> hi) es = []" if "hi < fst e"
    using Cons.prems(3) that by (fastforce simp: filter_empty_conv)
  ultimately show ?case
    using cmp(1) [OF assms(4)] cmp(2) [OF assms(5)] zkey_len [of e] assms(6)
    by (auto simp: ns k klen_def)
qed simp

lemma zset_gather_members:
  assumes "map (\<lambda>n. kbytes (skey n)) ns = map zkey es" and "\<forall>e\<in>set es. ts_ok (fst e)"
    and "sorted_wrt (\<lambda>d e. fst d \<le> fst e) es" and "ts_ok lo" and "ts_ok hi" and "lo \<le> hi"
  shows "zset_gather always_ok j (length (filter (\<lambda>e. lo \<le> fst e \<and> fst e \<le> hi) es))
      (take 19 (print_padded 15 (int lo))) (take 19 (print_padded 15 (int hi))) ns =
    map snd (filter (\<lambda>e. lo \<le> fst e \<and> fst e \<le> hi) es)"
  using assms(1-3)
proof (induction es arbitrary: ns j)
  case (Cons e es)
  then obtain n ns' where ns: "ns = n # ns'" and k: "kbytes (skey n) = zkey e"
    by (cases ns) auto
  have e: "ts_ok (fst e)" using Cons.prems by simp
  have cmp: "(strncmp 15 (zkey e) (take 19 (print_padded 15 (int u))) < 0) = (fst e < u)"
    "(strncmp 15 (zkey e) (take 19 (print_padded 15 (int u))) > 0) = (u < fst e)" if "ts_ok u" for u
    using strncmp_zkey [OF e that, of "snd e"] by simp_all
  have "zset_gather always_ok (Suc j) (length (filter (\<lambda>e. lo \<le> fst e \<and> fst e \<le> hi) es))
      (take 19 (print_padded 15 (int lo))) (take 19 (print_padded 15 (int hi))) ns' =
    map snd (filter (\<lambda>e. lo \<le> fst e \<and> fst e \<le> hi) es)"
    using Cons.prems ns by (intro Cons.IH) auto
  moreover have "filter (\<lambda>e. lo \<le> fst e \<and> fst e \<le> hi) es = []" if "hi < fst e"
    using Cons.prems(3) that by (fastforce simp: filter_empty_conv)
  ultimately show ?case
    using cmp(1) [OF assms(4)] cmp(2) [OF assms(5)] zkey_len [of e] assms(6)
    by (auto simp: ns k klen_def zset_extract_id_def)
qed simp

lemma zset_members_sorted:
  assumes "skip_inv s" and "zset_members s es"
  shows "sorted_wrt (\<lambda>d e. fst d < fst e \<or> fst d = fst e \<and> snd d < snd e) es"
proof -
  obtain hdr xs where wf: "skip_wf s hdr xs"
    using assms(1) by (auto simp: skip_inv_def)
  have "map (\<lambda>n. kbytes (skey n)) (skip_nodes s) = map (ky (sk_heap s)) xs"
    by (simp add: skip_nodes_wf [OF wf])
  then have "sorted_wrt (<) (map zkey es)"
    using wf assms(2) by (simp add: zset_members_def skip_wf_def)
  then show ?thesis
    using assms(2) unfolding zset_members_def sorted_wrt_map
    by (auto elim!: sorted_wrt_mono_rel [rotated] simp: zkey_less)
qed

lemma kvs_skip_set_null_value: "kvs_skip_set tseed ok s k kd_null e = kvs_skip_set tseed ok s k (kd []) e"
proof -
  have "skipnode_create l k kd_null e = skipnode_create l k (kd []) e" for l
    by (simp add: skipnode_create_def)
  then have "skip_insert tseed m t hdr u k kd_null e = skip_insert tseed m t hdr u k (kd []) e" for m t hdr u
    unfolding skip_insert_def by (simp only:)
  then show ?thesis
    unfolding kvs_skip_set_def by (simp only: kd_simps list.size)
qed

section \<open>Properties\<close>

text \<open>
  C9. \<open>kvs_zset_range\<close> on a sorted set (timestamps of at most 15 digits) returns exactly the
  IDs whose timestamp lies in the closed range, ordered by timestamp and then by ID; the
  early exit of its loops loses nothing.
\<close>

theorem zset_range_exact:
  assumes "skip_inv s" and "zset_members s es" and "ts_ok lo" and "ts_ok hi" and "lo \<le> hi"
  shows "kvs_zset_range always_ok s (int lo) (int hi) =
      (0, map snd (filter (\<lambda>e. lo \<le> fst e \<and> fst e \<le> hi) es)) \<and>
    sorted_wrt (\<lambda>d e. fst d < fst e \<or> fst d = fst e \<and> snd d < snd e) es"
proof -
  have strict: "sorted_wrt (\<lambda>d e. fst d < fst e \<or> fst d = fst e \<and> snd d < snd e) es"
    using assms(1,2) by (rule zset_members_sorted)
  then have sorted: "sorted_wrt (\<lambda>d e. fst d \<le> fst e) es"
    by (rule sorted_wrt_mono_rel [rotated]) auto
  have es: "map (\<lambda>n. kbytes (skey n)) (skip_nodes s) = map zkey es" "\<forall>e\<in>set es. ts_ok (fst e)"
    using assms(2) by (simp_all add: zset_members_def)
  note passes = zset_count_members [OF es sorted assms(3-5)] zset_gather_members [OF es sorted assms(3-5), of 0]
  moreover have "sk_header s \<noteq> None"
    using assms(1) by (auto simp: skip_inv_def skip_wf_def)
  ultimately show ?thesis
    using strict assms(5) by (simp add: kvs_zset_range_def Let_def)
qed

definition zset_demo :: kvs_skip where
  "zset_demo =
     snd (kvs_zset_add 7 always_ok
       (snd (kvs_zset_add 7 always_ok (snd (kvs_skip_create True skip_static)) 20 (kd ''b''))) 10 (kd ''a''))"

text \<open>Adding a member to a sorted set, on the contents.\<close>

lemma zset_add_contents:
  assumes "skip_inv s" and "ts_ok t" and "i \<noteq> []" and "length i < 112"
  shows "skip_inv (snd (kvs_zset_add tseed always_ok s (int t) (kd i)))"
    and "skip_contents (snd (kvs_zset_add tseed always_ok s (int t) (kd i))) = (skip_contents s)(zkey (t, i) \<mapsto> ([], 0))"
proof -
  have hdr: "sk_header s \<noteq> None"
    using assms(1) by (auto simp: skip_inv_def skip_wf_def)
  have "zset_make_key 128 (int t) i = Some (zkey (t, i))"
    using assms by (simp add: zset_make_key_def print_padded_ok zkey_def Let_def)
  then have eq: "kvs_zset_add tseed always_ok s (int t) (kd i) = kvs_skip_set tseed always_ok s (kd (zkey (t, i))) (kd []) 0"
    using assms hdr by (auto simp: kvs_zset_add_def kvs_skip_set_null_value)
  obtain s' where st: "kvs_skip_set tseed always_ok s (kd (zkey (t, i))) (kd []) 0 = (0, s')"
    using kvs_skip_set_succeeds [OF assms(1)] by (metis prod.collapse)
  show "skip_inv (snd (kvs_zset_add tseed always_ok s (int t) (kd i)))"
    using ske.set_invar [OF assms(1) TrueI st] by (simp add: eq st)
  show "skip_contents (snd (kvs_zset_add tseed always_ok s (int t) (kd i))) = (skip_contents s)(zkey (t, i) \<mapsto> ([], 0))"
    using ske.set_ok [OF assms(1) TrueI st] by (simp add: eq st)
qed

text \<open>The key list is determined by the contents.\<close>

lemma zset_members_by_contents:
  assumes inv: "skip_inv s" and dom: "dom (skip_contents s) = zkey ` set es" and es: "\<forall>e\<in>set es. ts_ok (fst e)"
    and sorted: "sorted_wrt (<) (map zkey es)"
  shows "zset_members s es"
proof -
  obtain hdr xs where wf: "skip_wf s hdr xs"
    using inv by (auto simp: skip_inv_def)
  have keys: "map (\<lambda>n. kbytes (skey n)) (skip_nodes s) = map (ky (sk_heap s)) xs"
    by (simp add: skip_nodes_wf [OF wf])
  have "dom (skip_contents s) = set (map (ky (sk_heap s)) xs)"
    unfolding skip_contents_wf [OF wf] by (force simp: dom_map_of_conv_image_fst snode_entry_def)
  then have "set (map (ky (sk_heap s)) xs) = set (map zkey es)"
    using dom by simp
  moreover have "sorted_wrt (<) (map (ky (sk_heap s)) xs)"
    using wf by (simp add: skip_wf_def)
  ultimately have "map (ky (sk_heap s)) xs = map zkey es"
    using sorted by (intro strict_sorted_equal) auto
  with keys es show ?thesis by (simp add: zset_members_def)
qed

lemma zset_demo_facts: "skip_inv zset_demo" "zset_members zset_demo [(10, ''a''), (20, ''b'')]"
proof -
  let ?s1 = "snd (kvs_zset_add 7 always_ok (snd (kvs_skip_create True skip_static)) 20 (kd ''b''))"
  have s1: "skip_inv ?s1" "skip_contents ?s1 = [zkey (20, ''b'') \<mapsto> ([], 0)]"
    using zset_add_contents [OF skip_create_inv(1), of 20 "''b''" 7] by (simp_all add: skip_create_inv(2))
  then show inv: "skip_inv zset_demo"
    using zset_add_contents(1) [OF s1(1), of 10 "''a''" 7] by (simp add: zset_demo_def)
  have "skip_contents zset_demo = [zkey (20, ''b'') \<mapsto> ([], 0), zkey (10, ''a'') \<mapsto> ([], 0)]"
    using zset_add_contents(2) [OF s1(1), of 10 "''a''" 7] by (simp add: zset_demo_def s1(2))
  then show "zset_members zset_demo [(10, ''a''), (20, ''b'')]"
    by (intro zset_members_by_contents inv) (auto simp: zkey_less)
qed

theorem zset_range_exact_witness:
  "kvs_zset_range always_ok zset_demo 5 15 = (0, [''a''])"
  using zset_range_exact [OF zset_demo_facts, of 5 15] by simp

end
