(* ===== verification/Kvs_Mempool.thy ===== *)
theory Kvs_Mempool
  imports Kvs_Prelude
begin

text \<open>
  \<^verbatim>\<open>mempool.c\<close>: the slab allocator behind \<open>kvs_malloc\<close>. Addresses are natural numbers. A pool
  hands out chunks of one size from 64 KB blocks that are aligned to their size, so the block of a chunk is its address
  with the low 16 bits cleared; free chunks are kept in a LIFO list and a block whose chunks
  are all free goes back to the system. The free list (whose links the C code keeps inside the free chunks) and the
  list of blocks are lists of addresses; block headers are a map from block addresses. The
  answers of \<open>posix_memalign\<close> and \<open>malloc\<close> come from the environment. The lemmas show that no
  chunk is handed out twice and that no block is released while one of its chunks is in use.
\<close>

type_synonym address = nat

definition POOL_BLOCK_SIZE :: nat where
  "POOL_BLOCK_SIZE = 65536"

definition MAX_SLAB_SIZE :: nat where
  "MAX_SLAB_SIZE = 8192"

text \<open>\<open>sizeof(pool_block_t)\<close> on a 64-bit machine.\<close>

definition HEADER_SIZE :: nat where
  "HEADER_SIZE = 40"

definition POOL_BLOCK_MAGIC :: "64 word" where
  "POOL_BLOCK_MAGIC = 0xDEADBEEFCAFEBABE"

definition FALLBACK_MAGIC :: "64 word" where
  "FALLBACK_MAGIC = 0xFBCAFEBABEDEAD"

record pool_block =
  pb_pool :: nat
  pb_capacity :: int
  pb_free_count :: int
  pb_magic :: "64 word"

type_synonym block_map = "address \<Rightarrow> pool_block option"

record mem_pool =
  chunk_size :: nat
  free_list :: "address list"
  blocks :: "address list"
  current_block :: "address option"
  next_free :: address
  remaining :: nat

definition slab_classes :: "nat list" where
  "slab_classes = [32, 64, 128, 256, 512, 1024, 2048, 4096, 8192]"

definition get_block_from_ptr :: "address \<Rightarrow> address" where
  "get_block_from_ptr p = p - p mod POOL_BLOCK_SIZE"

definition mem_pool_create :: "bool \<Rightarrow> nat \<Rightarrow> mem_pool option" where
  "mem_pool_create m user_size =
     (if user_size = 0 then None
      else if \<not> m then None
      else
        let cs = (user_size + 7) div 8 * 8
        in Some \<lparr>chunk_size = (if cs < 8 then 8 else cs), free_list = [], blocks = [],
                 current_block = None, next_free = 0, remaining = 0\<rparr>)"

definition block_capacity :: "nat \<Rightarrow> nat" where
  "block_capacity cs = (POOL_BLOCK_SIZE - HEADER_SIZE) div cs"

text \<open>\<open>mem\<close> is the answer of \<open>posix_memalign\<close>; \<open>idx\<close> names the pool the block belongs to.\<close>

definition add_new_block ::
  "address option \<Rightarrow> nat \<Rightarrow> mem_pool \<Rightarrow> block_map \<Rightarrow> int \<times> mem_pool \<times> block_map" where
  "add_new_block mem idx pool h =
     (case mem of None \<Rightarrow> (-1, pool, h) | Some b \<Rightarrow>
        let cap = block_capacity (chunk_size pool)
        in (0, pool\<lparr>blocks := b # blocks pool, current_block := Some b, next_free := b + HEADER_SIZE, remaining := cap\<rparr>,
            h(b \<mapsto> \<lparr>pb_pool = idx, pb_capacity = int cap, pb_free_count = 0, pb_magic = POOL_BLOCK_MAGIC\<rparr>)))"

definition add_free_count :: "block_map \<Rightarrow> address \<Rightarrow> int \<Rightarrow> block_map" where
  "add_free_count h b d =
     (case h b of None \<Rightarrow> h | Some k \<Rightarrow> h(b \<mapsto> k\<lparr>pb_free_count := pb_free_count k + d\<rparr>))"

definition mem_pool_alloc ::
  "address option \<Rightarrow> nat \<Rightarrow> mem_pool \<Rightarrow> block_map \<Rightarrow> address option \<times> mem_pool \<times> block_map" where
  "mem_pool_alloc mem idx pool h =
     (case free_list pool of
        chunk # rest \<Rightarrow>
          (Some chunk, pool\<lparr>free_list := rest\<rparr>, add_free_count h (get_block_from_ptr chunk) (-1))
      | [] \<Rightarrow>
          let (r, pool1, h1) = (if remaining pool = 0 then add_new_block mem idx pool h else (0, pool, h))
          in if r \<noteq> 0 then (None, pool1, h1)
             else (Some (next_free pool1),
                   pool1\<lparr>next_free := next_free pool1 + chunk_size pool1, remaining := remaining pool1 - 1\<rparr>, h1))"

definition remove_block_from_freelist :: "address list \<Rightarrow> address \<Rightarrow> address list" where
  "remove_block_from_freelist fl b = filter (\<lambda>c. get_block_from_ptr c \<noteq> b) fl"

text \<open>Returning a block to the system, common to \<open>mem_pool_free_with_block\<close> and \<open>mem_pool_trim\<close>.\<close>

definition release_block :: "mem_pool \<Rightarrow> block_map \<Rightarrow> address \<Rightarrow> mem_pool \<times> block_map" where
  "release_block pool h b =
     (let p1 = pool\<lparr>blocks := remove1 b (blocks pool),
                    free_list := remove_block_from_freelist (free_list pool) b\<rparr>;
          p2 = (if current_block p1 = Some b
                then p1\<lparr>current_block := None, next_free := 0, remaining := 0\<rparr> else p1)
      in (p2, h(b := None)))"

definition block_is_free :: "block_map \<Rightarrow> address \<Rightarrow> bool" where
  "block_is_free h b = (case h b of None \<Rightarrow> False | Some k \<Rightarrow> pb_free_count k = pb_capacity k)"

definition mem_pool_free_with_block ::
  "mem_pool \<Rightarrow> block_map \<Rightarrow> address \<Rightarrow> address \<Rightarrow> mem_pool \<times> block_map" where
  "mem_pool_free_with_block pool h p b =
     (let pool1 = pool\<lparr>free_list := p # free_list pool\<rparr>;
          h1 = add_free_count h b 1
      in if block_is_free h1 b then release_block pool1 h1 b else (pool1, h1))"

fun trim_blocks :: "address list \<Rightarrow> mem_pool \<Rightarrow> block_map \<Rightarrow> mem_pool \<times> block_map" where
  "trim_blocks [] pool h = (pool, h)"
| "trim_blocks (b # bs) pool h =
     (if block_is_free h b then (let (p, h') = release_block pool h b in trim_blocks bs p h')
      else trim_blocks bs pool h)"

definition mem_pool_trim :: "mem_pool \<Rightarrow> block_map \<Rightarrow> mem_pool \<times> block_map" where
  "mem_pool_trim pool h = trim_blocks (blocks pool) pool h"

section \<open>The general allocator\<close>

text \<open>
  \<open>slabs\<close> are the pools of \<open>slab_pools\<close>, \<open>size_map\<close> is \<open>g_size_map\<close> with pools named by their
  index, \<open>headers\<close> the block headers, \<open>fallbacks\<close> the live blocks of the system allocator
  (the pointers given to the user) with their size.
\<close>

record mempool =
  slabs :: "nat \<Rightarrow> mem_pool option"
  size_map :: "nat \<Rightarrow> nat option"
  headers :: block_map
  fallbacks :: "address \<Rightarrow> nat option"
  initialized :: bool

text \<open>
  The environment of one call: the answers of \<open>posix_memalign\<close> and of \<open>malloc\<close> (the address of
  the fallback header), and whether the pool descriptors can be allocated.
\<close>

record mem_env =
  sys_memalign :: "address option"
  sys_malloc :: "address option"
  pool_ok :: "nat \<Rightarrow> bool"

definition mempool_static :: mempool where
  "mempool_static =
     \<lparr>slabs = Map.empty, size_map = Map.empty, headers = Map.empty, fallbacks = Map.empty, initialized = False\<rparr>"

text \<open>The first class that is large enough, as an index.\<close>

fun class_index :: "nat list \<Rightarrow> nat \<Rightarrow> nat \<Rightarrow> nat option" where
  "class_index [] i n = None"
| "class_index (c # cs) i n = (if c \<ge> n then Some i else class_index cs (Suc i) n)"

definition kvs_mempool_init :: "(nat \<Rightarrow> bool) \<Rightarrow> mempool \<Rightarrow> mempool" where
  "kvs_mempool_init pok m =
     (if initialized m then m
      else
        let sl = (\<lambda>i. if i < length slab_classes then mem_pool_create (pok i) (slab_classes ! i) else slabs m i)
        in m\<lparr>slabs := sl,
             size_map := (\<lambda>n. if 1 \<le> n \<and> n \<le> MAX_SLAB_SIZE
                             then (case class_index slab_classes 0 n of
                                     None \<Rightarrow> None
                                   | Some i \<Rightarrow> if sl i = None then None else Some i)
                             else size_map m n),
             initialized := True\<rparr>)"

definition kvs_fallback :: "address option \<Rightarrow> mempool \<Rightarrow> nat \<Rightarrow> address option \<times> mempool" where
  "kvs_fallback fh m n =
     (case fh of None \<Rightarrow> (None, m) | Some a \<Rightarrow> (Some (a + 16), m\<lparr>fallbacks := (fallbacks m)(a + 16 \<mapsto> n)\<rparr>))"

text \<open>\<open>kvs_malloc\<close> with \<open>g_enable_mempool\<close> set.\<close>

definition kvs_malloc :: "mem_env \<Rightarrow> mempool \<Rightarrow> nat \<Rightarrow> address option \<times> mempool" where
  "kvs_malloc e m n =
     (if n = 0 then (None, m)
      else
        let m1 = (if n \<le> MAX_SLAB_SIZE \<and> size_map m n = None then kvs_mempool_init (pool_ok e) m else m)
        in if n \<le> MAX_SLAB_SIZE then
             (case size_map m1 n of
                Some i \<Rightarrow>
                  (case slabs m1 i of
                     Some pool \<Rightarrow>
                       let (r, pool', h') = mem_pool_alloc (sys_memalign e) i pool (headers m1)
                       in (r, m1\<lparr>slabs := (slabs m1)(i \<mapsto> pool'), headers := h'\<rparr>)
                   | None \<Rightarrow> kvs_fallback (sys_malloc e) m1 n)
              | None \<Rightarrow> kvs_fallback (sys_malloc e) m1 n)
           else kvs_fallback (sys_malloc e) m1 n)"

text \<open>
  \<open>kvs_free\<close> with \<open>g_enable_mempool\<close> set: \<open>rd\<close> is the memory, read as 64-bit words. The test for a
  fallback header looks at the word below the pointer, whatever it belongs to.
\<close>

definition kvs_free :: "(address \<Rightarrow> 64 word) \<Rightarrow> mempool \<Rightarrow> address \<Rightarrow> mempool" where
  "kvs_free rd m p =
     (if p = 0 then m
      else if rd (p - 8) = FALLBACK_MAGIC then m\<lparr>fallbacks := (fallbacks m)(p := None)\<rparr>
      else
        let b = get_block_from_ptr p
        in case headers m b of
             None \<Rightarrow> m
           | Some k \<Rightarrow>
               if pb_magic k = POOL_BLOCK_MAGIC then
                 (case slabs m (pb_pool k) of
                    None \<Rightarrow> m
                  | Some pool \<Rightarrow>
                      let (pool', h') = mem_pool_free_with_block pool (headers m) p b
                      in m\<lparr>slabs := (slabs m)(pb_pool k \<mapsto> pool'), headers := h'\<rparr>)
               else m)"

text \<open>\<open>kvs_realloc\<close>: the result and the number of bytes copied into a new block.\<close>

definition grow :: "(address \<Rightarrow> 64 word) \<Rightarrow> mem_env \<Rightarrow> mempool \<Rightarrow> address \<Rightarrow> nat \<Rightarrow> nat \<Rightarrow> (address option \<times> nat) \<times> mempool" where
  "grow rd e m p old n =
     (if n \<le> old then ((Some p, 0), m)
      else case kvs_malloc e m n of
        (None, m1) \<Rightarrow> ((None, 0), m1)
      | (Some q, m1) \<Rightarrow> ((Some q, old), kvs_free rd m1 p))"

definition kvs_realloc ::
  "(address \<Rightarrow> 64 word) \<Rightarrow> mem_env \<Rightarrow> mempool \<Rightarrow> address \<Rightarrow> nat \<Rightarrow> (address option \<times> nat) \<times> mempool" where
  "kvs_realloc rd e m p n =
     (if p = 0 then (case kvs_malloc e m n of (r, m') \<Rightarrow> ((r, 0), m'))
      else if n = 0 then ((None, 0), kvs_free rd m p)
      else if rd (p - 8) = FALLBACK_MAGIC then
        grow rd e m p (case fallbacks m p of None \<Rightarrow> 0 | Some s \<Rightarrow> s) n
      else
        case headers m (get_block_from_ptr p) of
          None \<Rightarrow> ((None, 0), m)
        | Some k \<Rightarrow>
            if pb_magic k = POOL_BLOCK_MAGIC then
              grow rd e m p (case slabs m (pb_pool k) of None \<Rightarrow> 0 | Some pool \<Rightarrow> chunk_size pool) n
            else ((None, 0), m))"

fun trim_slabs :: "nat \<Rightarrow> mempool \<Rightarrow> mempool" where
  "trim_slabs 0 m = m"
| "trim_slabs (Suc i) m =
     (let m1 = trim_slabs i m
      in case slabs m1 i of
           None \<Rightarrow> m1
         | Some pool \<Rightarrow> (let (pool', h') = mem_pool_trim pool (headers m1)
                         in m1\<lparr>slabs := (slabs m1)(i \<mapsto> pool'), headers := h'\<rparr>))"

definition kvs_mempool_trim_all :: "mempool \<Rightarrow> mempool" where
  "kvs_mempool_trim_all m = trim_slabs (length slab_classes) m"

section \<open>Chunks of a block\<close>

definition chunk_at :: "nat \<Rightarrow> address \<Rightarrow> nat \<Rightarrow> address" where
  "chunk_at cs b i = b + HEADER_SIZE + i * cs"

definition aligned :: "address \<Rightarrow> bool" where
  "aligned b \<longleftrightarrow> b mod POOL_BLOCK_SIZE = 0"

lemma chunk_end:
  assumes "i < block_capacity cs"
  shows "HEADER_SIZE + i * cs + cs \<le> POOL_BLOCK_SIZE"
proof -
  have "(i + 1) * cs \<le> block_capacity cs * cs"
    using assms by (intro mult_le_mono1) simp
  also have "\<dots> \<le> POOL_BLOCK_SIZE - HEADER_SIZE"
    by (simp add: block_capacity_def)
  finally show ?thesis
    by (simp add: POOL_BLOCK_SIZE_def HEADER_SIZE_def)
qed

lemma block_of_chunk:
  assumes "aligned b" and "i < block_capacity cs" and "0 < cs"
  shows "get_block_from_ptr (chunk_at cs b i) = b"
proof -
  have "HEADER_SIZE + i * cs < POOL_BLOCK_SIZE"
    using chunk_end [OF assms(2)] assms(3) by simp
  moreover have "POOL_BLOCK_SIZE dvd b"
    using assms(1) by (simp add: aligned_def mod_eq_0_iff_dvd)
  ultimately have "(b + (HEADER_SIZE + i * cs)) mod POOL_BLOCK_SIZE = HEADER_SIZE + i * cs"
    by (metis mod_less mod_add_left_eq assms(1) aligned_def add_0)
  then show ?thesis
    by (simp add: get_block_from_ptr_def chunk_at_def add.assoc)
qed

lemma chunk_at_inj: "0 < cs \<Longrightarrow> chunk_at cs b i = chunk_at cs b j \<longleftrightarrow> i = j"
  by (simp add: chunk_at_def)

section \<open>Pool invariant\<close>

text \<open>How many chunks of a block were handed out at least once, and the set of these chunks.\<close>

definition used :: "mem_pool \<Rightarrow> address \<Rightarrow> nat" where
  "used P b = (if current_block P = Some b then block_capacity (chunk_size P) - remaining P
               else block_capacity (chunk_size P))"

definition handed :: "mem_pool \<Rightarrow> address set" where
  "handed P = (\<Union>b\<in>set (blocks P). chunk_at (chunk_size P) b ` {..<used P b})"

definition free_in :: "mem_pool \<Rightarrow> address \<Rightarrow> nat" where
  "free_in P b = length (filter (\<lambda>c. get_block_from_ptr c = b) (free_list P))"

text \<open>\<open>pool_wf idx P h L\<close>: pool \<open>idx\<close> is well formed and the chunks in use are \<open>L\<close>.\<close>

definition pool_wf :: "nat \<Rightarrow> mem_pool \<Rightarrow> block_map \<Rightarrow> address set \<Rightarrow> bool" where
  "pool_wf idx P h L \<longleftrightarrow>
     0 < chunk_size P \<and> 0 < block_capacity (chunk_size P) \<and>
     distinct (blocks P) \<and>
     (\<forall>b\<in>set (blocks P). aligned b \<and>
        h b = Some \<lparr>pb_pool = idx, pb_capacity = int (block_capacity (chunk_size P)),
                   pb_free_count = int (free_in P b), pb_magic = POOL_BLOCK_MAGIC\<rparr> \<and>
        free_in P b < block_capacity (chunk_size P)) \<and>
     (case current_block P of
        None \<Rightarrow> remaining P = 0
      | Some b \<Rightarrow> b \<in> set (blocks P) \<and> remaining P \<le> block_capacity (chunk_size P) \<and>
          next_free P = chunk_at (chunk_size P) b (block_capacity (chunk_size P) - remaining P)) \<and>
     distinct (free_list P) \<and> set (free_list P) \<inter> L = {} \<and> set (free_list P) \<union> L = handed P"

lemma used_le: "used P b \<le> block_capacity (chunk_size P)"
  by (simp add: used_def)

lemma handed_block:
  assumes "pool_wf idx P h L" and "c \<in> handed P"
  shows "get_block_from_ptr c \<in> set (blocks P)" and "\<exists>i<used P (get_block_from_ptr c). c = chunk_at (chunk_size P) (get_block_from_ptr c) i"
proof -
  obtain b i where b: "b \<in> set (blocks P)" "i < used P b" "c = chunk_at (chunk_size P) b i"
    using assms(2) by (auto simp: handed_def)
  have "get_block_from_ptr c = b"
    unfolding b(3) using assms(1) b used_le [of P b] by (intro block_of_chunk) (auto simp: pool_wf_def)
  with b show "get_block_from_ptr c \<in> set (blocks P)" "\<exists>i<used P (get_block_from_ptr c). c = chunk_at (chunk_size P) (get_block_from_ptr c) i"
    by auto
qed

lemma free_in_card:
  assumes "distinct (free_list P)"
  shows "free_in P b = card {c \<in> set (free_list P). get_block_from_ptr c = b}"
  using assms distinct_card [of "filter (\<lambda>c. get_block_from_ptr c = b) (free_list P)"]
  by (simp add: free_in_def)

text \<open>The chunks of one block that were handed out, free or in use.\<close>

lemma handed_in_block:
  assumes "pool_wf idx P h L" and "b \<in> set (blocks P)"
  shows "{c \<in> handed P. get_block_from_ptr c = b} = chunk_at (chunk_size P) b ` {..<used P b}"
proof -
  have "get_block_from_ptr (chunk_at (chunk_size P) d i) = d" if "d \<in> set (blocks P)" "i < used P d" for d i
    using assms(1) that used_le [of P d] by (intro block_of_chunk) (auto simp: pool_wf_def)
  with assms(2) show ?thesis
    by (auto simp: handed_def)
qed

lemma card_handed_in_block:
  assumes "pool_wf idx P h L" and "b \<in> set (blocks P)"
  shows "card {c \<in> handed P. get_block_from_ptr c = b} = used P b"
  unfolding handed_in_block [OF assms]
  using assms(1) by (subst card_image) (auto simp: inj_on_def chunk_at_inj pool_wf_def)

lemma add_free_count_eq:
  "h b = Some k \<Longrightarrow> add_free_count h b d = h(b \<mapsto> k\<lparr>pb_free_count := pb_free_count k + d\<rparr>)"
  by (simp add: add_free_count_def)

section \<open>Allocation\<close>

lemma alloc_reuse:
  assumes wf: "pool_wf idx P h L" and fl: "free_list P = c # rest"
  shows "pool_wf idx (P\<lparr>free_list := rest\<rparr>) (add_free_count h (get_block_from_ptr c) (-1)) (insert c L) \<and> c \<notin> L"
proof -
  let ?b = "get_block_from_ptr c" and ?P = "P\<lparr>free_list := rest\<rparr>"
  have c: "c \<in> handed P"
    using wf fl by (auto simp: pool_wf_def)
  have b: "?b \<in> set (blocks P)"
    using handed_block(1) [OF wf c] .
  have fi: "free_in P d = (if d = ?b then Suc (free_in ?P d) else free_in ?P d)" for d
    by (simp add: free_in_def fl)
  have "h ?b = Some \<lparr>pb_pool = idx, pb_capacity = int (block_capacity (chunk_size P)),
      pb_free_count = int (free_in P ?b), pb_magic = POOL_BLOCK_MAGIC\<rparr>"
    using wf b by (simp add: pool_wf_def)
  note h' = add_free_count_eq [of h ?b, OF this]
  have "used ?P = used P"
    by (simp add: used_def fun_eq_iff)
  then have sel: "handed ?P = handed P"
    by (simp add: handed_def)
  have "c \<notin> L" "c \<notin> set rest"
    using wf fl by (auto simp: pool_wf_def)
  moreover have "set rest \<union> insert c L = handed P"
    using wf fl by (auto simp: pool_wf_def)
  ultimately show ?thesis
    using wf fl b fi by (auto simp: pool_wf_def h' sel Suc_lessD split: option.splits)
qed

lemma alloc_bump:
  assumes wf: "pool_wf idx P h L" and fl: "free_list P = []" and rem: "remaining P \<noteq> 0"
  shows "pool_wf idx (P\<lparr>next_free := next_free P + chunk_size P, remaining := remaining P - 1\<rparr>) h (insert (next_free P) L) \<and>
    next_free P \<notin> L"
proof -
  let ?P = "P\<lparr>next_free := next_free P + chunk_size P, remaining := remaining P - 1\<rparr>"
  let ?cs = "chunk_size P" and ?cap = "block_capacity (chunk_size P)"
  obtain b where cur: "current_block P = Some b"
    using wf rem by (auto simp: pool_wf_def split: option.splits)
  with wf have b: "b \<in> set (blocks P)" "remaining P \<le> ?cap" and nf: "next_free P = chunk_at ?cs b (?cap - remaining P)"
    and L: "L = handed P" and cs: "0 < ?cs"
    using fl by (auto simp: pool_wf_def)
  have u: "used ?P b = Suc (used P b)" "used P b = ?cap - remaining P" "d \<noteq> b \<Longrightarrow> used ?P d = used P d" for d
    using cur b(2) rem by (auto simp: used_def)
  have "get_block_from_ptr (next_free P) = b"
    unfolding nf using wf b rem cs by (intro block_of_chunk) (auto simp: pool_wf_def)
  then have new: "next_free P \<notin> handed P"
    using handed_block(2) [OF wf, of "next_free P"] u(2) cs nf by (auto simp: chunk_at_inj)
  have "handed ?P = insert (next_free P) (handed P)"
  proof -
    have "chunk_at ?cs d ` {..<used ?P d} =
        (if d = b then insert (next_free P) (chunk_at ?cs d ` {..<used P d}) else chunk_at ?cs d ` {..<used P d})" for d
      using u by (cases "d = b") (simp_all add: lessThan_Suc nf)
    then show ?thesis
      using b(1) by (auto simp: handed_def split: if_splits)
  qed
  moreover have "next_free ?P = chunk_at ?cs b (?cap - remaining ?P)"
  proof -
    have "?cap - (remaining P - 1) = Suc (?cap - remaining P)"
      using rem b(2) by simp
    then show ?thesis
      by (simp add: nf chunk_at_def)
  qed
  moreover have "free_in ?P = free_in P"
    by (simp add: free_in_def fun_eq_iff)
  ultimately show ?thesis
    using wf fl L new cur b by (auto simp: pool_wf_def)
qed

lemma alloc_new_block:
  assumes wf: "pool_wf idx P h L" and fl: "free_list P = []" and rem: "remaining P = 0"
    and new: "aligned b" "h b = None"
    and add: "add_new_block (Some b) idx P h = (r, P', h')"
  shows "r = 0 \<and> pool_wf idx P' h' L \<and> free_list P' = [] \<and> remaining P' \<noteq> 0"
proof -
  let ?cap = "block_capacity (chunk_size P)"
  have P': "r = 0" "P' = P\<lparr>blocks := b # blocks P, current_block := Some b, next_free := b + HEADER_SIZE, remaining := ?cap\<rparr>"
    "h' = h(b \<mapsto> \<lparr>pb_pool = idx, pb_capacity = int ?cap, pb_free_count = 0, pb_magic = POOL_BLOCK_MAGIC\<rparr>)"
    using add by (auto simp: add_new_block_def Let_def)
  have b: "b \<notin> set (blocks P)"
    using wf new(2) by (auto simp: pool_wf_def)
  have full: "used P d = ?cap" if "d \<in> set (blocks P)" for d
    using rem by (simp add: used_def)
  have "used P' b = 0" "\<And>d. d \<noteq> b \<Longrightarrow> used P' d = ?cap"
    by (auto simp: used_def P'(2))
  then have hd: "handed P' = handed P"
    using b full by (force simp: handed_def P'(2))
  have "free_in P' d = 0" "free_in P d = 0" for d
    using fl by (simp_all add: free_in_def P'(2))
  then show ?thesis
    using wf fl b new hd by (auto simp: pool_wf_def P' chunk_at_def)
qed

lemma mem_pool_alloc_ok:
  assumes wf: "pool_wf idx P h L" and env: "\<And>b. mem = Some b \<Longrightarrow> aligned b \<and> h b = None"
    and al: "mem_pool_alloc mem idx P h = (r, P', h')"
  shows "case r of None \<Rightarrow> pool_wf idx P' h' L | Some c \<Rightarrow> c \<notin> L \<and> pool_wf idx P' h' (insert c L)"
proof (cases "free_list P")
  case (Cons c rest)
  then show ?thesis
    using al alloc_reuse [OF wf Cons] by (auto simp: mem_pool_alloc_def)
next
  case Nil
  show ?thesis
  proof (cases "remaining P = 0")
    case False
    then show ?thesis
      using al Nil alloc_bump [OF wf Nil False] by (auto simp: mem_pool_alloc_def)
  next
    case True
    show ?thesis
    proof (cases mem)
      case None
      then show ?thesis
        using al Nil True wf by (auto simp: mem_pool_alloc_def add_new_block_def)
    next
      case (Some b)
      obtain r1 P1 h1 where add: "add_new_block (Some b) idx P h = (r1, P1, h1)"
        by (cases "add_new_block (Some b) idx P h") auto
      then have "r1 = 0 \<and> pool_wf idx P1 h1 L \<and> free_list P1 = [] \<and> remaining P1 \<noteq> 0"
        using alloc_new_block [OF wf Nil True _ _ add] env [OF Some] by simp
      then show ?thesis
        using al Nil True Some add alloc_bump [of idx P1 h1 L] by (auto simp: mem_pool_alloc_def)
    qed
  qed
qed

section \<open>Release\<close>

text \<open>Marking a chunk as free, before the test for an empty block.\<close>

definition pool_pre :: "nat \<Rightarrow> mem_pool \<Rightarrow> block_map \<Rightarrow> address set \<Rightarrow> address \<Rightarrow> bool" where
  "pool_pre idx P h L b \<longleftrightarrow>
     0 < chunk_size P \<and> 0 < block_capacity (chunk_size P) \<and> b \<in> set (blocks P) \<and>
     distinct (blocks P) \<and>
     (\<forall>d\<in>set (blocks P). aligned d \<and>
        h d = Some \<lparr>pb_pool = idx, pb_capacity = int (block_capacity (chunk_size P)),
                   pb_free_count = int (free_in P d), pb_magic = POOL_BLOCK_MAGIC\<rparr> \<and>
        (d \<noteq> b \<longrightarrow> free_in P d < block_capacity (chunk_size P)) \<and>
        free_in P d \<le> block_capacity (chunk_size P)) \<and>
     (case current_block P of
        None \<Rightarrow> remaining P = 0
      | Some d \<Rightarrow> d \<in> set (blocks P) \<and> remaining P \<le> block_capacity (chunk_size P) \<and>
          next_free P = chunk_at (chunk_size P) d (block_capacity (chunk_size P) - remaining P)) \<and>
     distinct (free_list P) \<and> set (free_list P) \<inter> L = {} \<and> set (free_list P) \<union> L = handed P"

lemma free_marks:
  assumes wf: "pool_wf idx P h L" and c: "c \<in> L"
  shows "pool_pre idx (P\<lparr>free_list := c # free_list P\<rparr>) (add_free_count h (get_block_from_ptr c) 1) (L - {c}) (get_block_from_ptr c)"
proof -
  let ?b = "get_block_from_ptr c" and ?P = "P\<lparr>free_list := c # free_list P\<rparr>"
  have hd: "c \<in> handed P"
    using wf c by (auto simp: pool_wf_def)
  have b: "?b \<in> set (blocks P)"
    using handed_block(1) [OF wf hd] .
  have fi: "free_in ?P d = (if d = ?b then Suc (free_in P d) else free_in P d)" for d
    by (simp add: free_in_def)
  have "h ?b = Some \<lparr>pb_pool = idx, pb_capacity = int (block_capacity (chunk_size P)),
      pb_free_count = int (free_in P ?b), pb_magic = POOL_BLOCK_MAGIC\<rparr>"
    using wf b by (simp add: pool_wf_def)
  note h' = add_free_count_eq [of h ?b, OF this]
  have "used ?P = used P"
    by (simp add: used_def fun_eq_iff)
  then have sel: "handed ?P = handed P"
    by (simp add: handed_def)
  have "set (c # free_list P) \<union> (L - {c}) = handed P" "c \<notin> set (free_list P)"
    using wf c by (auto simp: pool_wf_def)
  moreover have "free_in P d < block_capacity (chunk_size P)" if "d \<in> set (blocks P)" for d
    using wf that by (simp add: pool_wf_def)
  ultimately show ?thesis
    using wf b fi by (auto simp: pool_pre_def pool_wf_def h' sel less_imp_le Suc_le_eq split: option.splits)
qed

lemma pool_pre_wf:
  assumes "pool_pre idx P h L b" and "free_in P b \<noteq> block_capacity (chunk_size P)"
  shows "pool_wf idx P h L"
  using assms unfolding pool_pre_def pool_wf_def by (metis le_neq_implies_less)

lemma release_ok:
  assumes pre: "pool_pre idx P h L b" and full: "free_in P b = block_capacity (chunk_size P)"
    and rel: "release_block P h b = (P', h')"
  shows "pool_wf idx P' h' L \<and> h' = h(b := None) \<and> blocks P' = remove1 b (blocks P) \<and> (\<forall>c\<in>L. get_block_from_ptr c \<noteq> b)"
proof -
  let ?cs = "chunk_size P" and ?cap = "block_capacity (chunk_size P)"
  let ?fl = "{c \<in> set (free_list P). get_block_from_ptr c = b}"
  have pre': "0 < ?cs" "b \<in> set (blocks P)" "distinct (blocks P)" "distinct (free_list P)"
    "set (free_list P) \<inter> L = {}" "set (free_list P) \<union> L = handed P" "\<And>d. d \<in> set (blocks P) \<Longrightarrow> aligned d"
    using pre by (auto simp: pool_pre_def)
  have blk: "get_block_from_ptr (chunk_at ?cs d i) = d" if "d \<in> set (blocks P)" "i < used P d" for d i
    using pre'(1) pre'(7) [OF that(1)] that used_le [of P d] by (intro block_of_chunk) auto
  have inb: "{c \<in> handed P. get_block_from_ptr c = b} = chunk_at ?cs b ` {..<used P b}"
    using blk pre'(2) by (auto simp: handed_def)
  then have cardb: "card {c \<in> handed P. get_block_from_ptr c = b} = used P b"
    using pre'(1) by (simp add: card_image inj_on_def chunk_at_inj)
  have sub: "?fl \<subseteq> {c \<in> handed P. get_block_from_ptr c = b}"
    using pre'(6) by auto
  have cardf: "card ?fl = ?cap"
    using free_in_card [OF pre'(4), of b] full by simp
  then have all: "?fl = {c \<in> handed P. get_block_from_ptr c = b}"
    using sub cardb used_le [of P b] inb by (intro card_seteq) auto
  have noL: "get_block_from_ptr c \<noteq> b" if "c \<in> L" for c
    using that all pre'(5,6) by auto
  have P': "blocks P' = remove1 b (blocks P)" "free_list P' = filter (\<lambda>c. get_block_from_ptr c \<noteq> b) (free_list P)"
    "chunk_size P' = ?cs" "h' = h(b := None)"
    "current_block P' = (if current_block P = Some b then None else current_block P)"
    "remaining P' = (if current_block P = Some b then 0 else remaining P)"
    "current_block P \<noteq> Some b \<Longrightarrow> next_free P' = next_free P"
    using rel by (auto simp: release_block_def remove_block_from_freelist_def Let_def split: if_splits)
  have bs: "set (blocks P') = set (blocks P) - {b}"
    using pre'(3) by (simp add: P'(1))
  have u: "used P' d = used P d" if "d \<noteq> b" for d
    using that by (auto simp: used_def P')
  have hd: "handed P' = handed P - {c. get_block_from_ptr c = b}"
  proof -
    have "handed P' = (\<Union>d\<in>set (blocks P) - {b}. chunk_at ?cs d ` {..<used P d})"
      unfolding handed_def bs P'(3) using u by auto
    also have "\<dots> = handed P - {c. get_block_from_ptr c = b}"
      using blk by (force simp: handed_def)
    finally show ?thesis .
  qed
  have fi: "free_in P' d = free_in P d" if "d \<noteq> b" for d
    using that unfolding free_in_def P'(2) by (simp add: filter_filter conj_commute cong: conj_cong)
  have sets: "set (free_list P') \<inter> L = {}" "set (free_list P') \<union> L = handed P'"
    using pre'(5,6) noL unfolding hd P'(2) by auto
  have "pool_wf idx P' h' L"
    unfolding pool_wf_def
  proof (intro conjI ballI, goal_cases)
    case 1 then show ?case using pre'(1) by (simp add: P')
  next
    case 2 then show ?case using pre by (simp add: P' pool_pre_def)
  next
    case 3 then show ?case using pre'(3) by (simp add: P')
  next
    case (4 d) then show ?case using pre'(7) bs by simp
  next
    case (5 d) then show ?case using pre bs fi [of d] by (simp add: P' pool_pre_def)
  next
    case (6 d) then show ?case using pre bs fi [of d] by (simp add: P' pool_pre_def)
  next
    case 7 then show ?case using pre bs P' by (auto simp: pool_pre_def split: option.splits)
  next
    case 8 then show ?case using pre'(4) by (simp add: P')
  qed (use sets in auto)
  with P' noL show ?thesis by blast
qed

lemma mem_pool_free_ok:
  assumes wf: "pool_wf idx P h L" and c: "c \<in> L"
    and fr: "mem_pool_free_with_block P h c (get_block_from_ptr c) = (P', h')"
  shows "pool_wf idx P' h' (L - {c}) \<and> chunk_size P' = chunk_size P \<and> set (blocks P') \<subseteq> set (blocks P) \<and>
    (\<forall>d. d \<notin> set (blocks P) \<longrightarrow> h' d = h d)"
proof -
  let ?b = "get_block_from_ptr c" and ?P = "P\<lparr>free_list := c # free_list P\<rparr>"
  let ?h = "add_free_count h ?b 1"
  have pre: "pool_pre idx ?P ?h (L - {c}) ?b"
    using free_marks [OF wf c] .
  have b: "?b \<in> set (blocks P)"
    using pre by (simp add: pool_pre_def)
  have free: "block_is_free ?h ?b \<longleftrightarrow> free_in ?P ?b = block_capacity (chunk_size ?P)"
    using pre by (auto simp: block_is_free_def pool_pre_def)
  have other: "?h d = h d" if "d \<notin> set (blocks P)" for d
    using that b by (auto simp: add_free_count_def split: option.split)
  show ?thesis
  proof (cases "block_is_free ?h ?b")
    case True
    then have rel: "release_block ?P ?h ?b = (P', h')"
      using fr by (simp add: mem_pool_free_with_block_def Let_def)
    have "chunk_size P' = chunk_size P"
      using rel by (auto simp: release_block_def Let_def split: if_splits)
    moreover have "set (remove1 ?b (blocks P)) \<subseteq> set (blocks P)"
      by (rule set_remove1_subset)
    ultimately show ?thesis
      using release_ok [OF pre _ rel] True free other b by auto
  next
    case False
    then have "P' = ?P" "h' = ?h"
      using fr by (auto simp: mem_pool_free_with_block_def Let_def)
    then show ?thesis
      using pool_pre_wf [OF pre] False free other by simp
  qed
qed

text \<open>A well-formed pool has no empty block, so trimming it changes nothing.\<close>

lemma mem_pool_trim_noop: "pool_wf idx P h L \<Longrightarrow> mem_pool_trim P h = (P, h)"
proof -
  assume wf: "pool_wf idx P h L"
  have "trim_blocks bs P h = (P, h)" if "set bs \<subseteq> set (blocks P)" for bs
    using that wf by (induction bs) (auto simp: block_is_free_def pool_wf_def)
  then show ?thesis
    by (simp add: mem_pool_trim_def)
qed

section \<open>The whole allocator\<close>

lemma pool_wf_cong:
  "(\<And>b. b \<in> set (blocks P) \<Longrightarrow> h' b = h b) \<Longrightarrow> pool_wf idx P h' L = pool_wf idx P h L"
  by (simp add: pool_wf_def)

lemma mem_pool_alloc_frame:
  assumes "pool_wf idx P h L" and "mem_pool_alloc mem idx P h = (r, P', h')"
  shows "chunk_size P' = chunk_size P" and "set (blocks P) \<subseteq> set (blocks P')"
    and "set (blocks P') \<subseteq> set (blocks P) \<union> set_option mem" and "d \<notin> set (blocks P') \<Longrightarrow> h' d = h d"
proof -
  have "get_block_from_ptr c \<in> set (blocks P)" if "c \<in> set (free_list P)" for c
    using assms(1) that by (intro handed_block(1) [OF assms(1)]) (auto simp: pool_wf_def)
  then show "chunk_size P' = chunk_size P" "set (blocks P) \<subseteq> set (blocks P')"
    "set (blocks P') \<subseteq> set (blocks P) \<union> set_option mem" "d \<notin> set (blocks P') \<Longrightarrow> h' d = h d"
    using assms(2)
    by (auto simp: mem_pool_alloc_def add_new_block_def add_free_count_def Let_def
        split: list.splits option.splits if_splits)
qed

definition slab_live :: "mempool \<Rightarrow> address set \<Rightarrow> nat \<Rightarrow> address set" where
  "slab_live m L i = {c \<in> L. \<exists>k. headers m (get_block_from_ptr c) = Some k \<and> pb_pool k = i}"

definition mem_inv :: "mempool \<Rightarrow> address set \<Rightarrow> bool" where
  "mem_inv m L \<longleftrightarrow>
     (\<forall>i P. slabs m i = Some P \<longrightarrow>
        pool_wf i P (headers m) (slab_live m L i) \<and> i < length slab_classes \<and> chunk_size P = slab_classes ! i) \<and>
     (\<forall>b k. headers m b = Some k \<longrightarrow> (\<exists>P. slabs m (pb_pool k) = Some P \<and> b \<in> set (blocks P))) \<and>
     (\<forall>p\<in>dom (fallbacks m). headers m (get_block_from_ptr p) = None) \<and>
     dom (fallbacks m) \<subseteq> L \<and> (\<forall>c\<in>L. c \<in> dom (fallbacks m) \<or> headers m (get_block_from_ptr c) \<noteq> None) \<and>
     (\<forall>n i. size_map m n = Some i \<longrightarrow> slabs m i \<noteq> None \<and> class_index slab_classes 0 n = Some i) \<and>
     (\<not> initialized m \<longrightarrow> slabs m = Map.empty \<and> size_map m = Map.empty)"

text \<open>
  What the allocator may expect of the system allocator (memory it returns is not in use) and
  of the memory itself: the word below a fallback pointer holds the magic number, and the
  word below a pool chunk does not.
\<close>

definition env_ok :: "mempool \<Rightarrow> mem_env \<Rightarrow> bool" where
  "env_ok m e \<longleftrightarrow>
     (\<forall>b. sys_memalign e = Some b \<longrightarrow> aligned b \<and> headers m b = None \<and>
        (\<forall>p\<in>dom (fallbacks m). get_block_from_ptr p \<noteq> b)) \<and>
     (\<forall>a. sys_malloc e = Some a \<longrightarrow> fallbacks m (a + 16) = None \<and> headers m (get_block_from_ptr (a + 16)) = None)"

definition mem_ok :: "mempool \<Rightarrow> (address \<Rightarrow> 64 word) \<Rightarrow> bool" where
  "mem_ok m rd \<longleftrightarrow>
     (\<forall>p\<in>dom (fallbacks m). rd (p - 8) = FALLBACK_MAGIC) \<and>
     (\<forall>p. headers m (get_block_from_ptr p) \<noteq> None \<longrightarrow> rd (p - 8) \<noteq> FALLBACK_MAGIC)"

lemma class_index_bounds:
  "class_index cs i n = Some j \<Longrightarrow> i \<le> j \<and> j < i + length cs \<and> n \<le> cs ! (j - i)"
proof (induction cs arbitrary: i)
  case (Cons c cs)
  show ?case
  proof (cases "n \<le> c")
    case True
    with Cons.prems show ?thesis by auto
  next
    case False
    with Cons.prems have ih: "Suc i \<le> j" "j < Suc i + length cs" "n \<le> cs ! (j - Suc i)"
      using Cons.IH [of "Suc i"] by auto
    then have "j - i = Suc (j - Suc i)"
      by simp
    with ih show ?thesis by simp
  qed
qed simp

lemma pool_create_wf:
  assumes "mem_pool_create True c = Some P" and "c \<in> set slab_classes"
  shows "pool_wf i P h {} \<and> chunk_size P = c"
  using assms
  by (auto simp: mem_pool_create_def slab_classes_def pool_wf_def handed_def block_capacity_def
      POOL_BLOCK_SIZE_def HEADER_SIZE_def Let_def)

lemma init_inv:
  assumes "mem_inv m L"
  shows "mem_inv (kvs_mempool_init pok m) L \<and> headers (kvs_mempool_init pok m) = headers m \<and>
    fallbacks (kvs_mempool_init pok m) = fallbacks m"
proof (cases "initialized m")
  case True
  with assms show ?thesis by (simp add: kvs_mempool_init_def)
next
  case False
  then have empty: "slabs m = Map.empty" "size_map m = Map.empty"
    using assms by (auto simp: mem_inv_def)
  then have nohdr: "headers m = Map.empty"
    using assms by (fastforce simp: mem_inv_def)
  let ?m = "kvs_mempool_init pok m"
  have same: "headers ?m = headers m" "fallbacks ?m = fallbacks m" "initialized ?m"
    using False by (simp_all add: kvs_mempool_init_def Let_def)
  have sl: "slabs ?m = (\<lambda>i. if i < length slab_classes then mem_pool_create (pok i) (slab_classes ! i) else None)"
    using False empty by (auto simp: kvs_mempool_init_def Let_def fun_eq_iff)
  have pools: "pool_wf i P (headers ?m) (slab_live ?m L i) \<and> i < length slab_classes \<and> chunk_size P = slab_classes ! i"
    if "slabs ?m i = Some P" for i P
  proof -
    have i: "i < length slab_classes" "mem_pool_create (pok i) (slab_classes ! i) = Some P"
      using that by (auto simp: sl split: if_splits)
    then have "mem_pool_create True (slab_classes ! i) = Some P"
      by (cases "pok i") (auto simp: mem_pool_create_def split: if_splits)
    moreover have "slab_live ?m L i = {}"
      by (simp add: slab_live_def same nohdr)
    ultimately show ?thesis
      using i(1) pool_create_wf [of "slab_classes ! i" P i "headers ?m"] by simp
  qed
  have map: "slabs ?m i \<noteq> None \<and> class_index slab_classes 0 n = Some i" if "size_map ?m n = Some i" for n i
    using that False empty sl by (auto simp: kvs_mempool_init_def Let_def split: if_splits option.splits)
  show ?thesis
    using assms pools map same nohdr unfolding mem_inv_def by auto
qed

lemma fallback_inv:
  assumes inv: "mem_inv m L" and env: "env_ok m e" and f: "kvs_fallback (sys_malloc e) m n = (r, m')"
  shows "case r of None \<Rightarrow> mem_inv m' L | Some p \<Rightarrow> p \<notin> L \<and> mem_inv m' (insert p L)"
proof (cases "sys_malloc e")
  case None
  with inv f show ?thesis by (auto simp: kvs_fallback_def)
next
  case (Some a)
  then have r: "r = Some (a + 16)" "m' = m\<lparr>fallbacks := (fallbacks m)(a + 16 \<mapsto> n)\<rparr>"
    using f by (auto simp: kvs_fallback_def)
  have new: "fallbacks m (a + 16) = None" "headers m (get_block_from_ptr (a + 16)) = None"
    using env Some by (auto simp: env_ok_def)
  have "slab_live m' (insert (a + 16) L) = slab_live m L"
    using new by (auto simp: slab_live_def r(2) fun_eq_iff)
  moreover have "a + 16 \<notin> L"
    using inv new by (auto simp: mem_inv_def)
  ultimately show ?thesis
    using inv new by (auto simp: mem_inv_def r)
qed

lemma mem_inv_header:
  "mem_inv m L \<Longrightarrow> headers m b = Some k \<Longrightarrow> \<exists>P. slabs m (pb_pool k) = Some P \<and> b \<in> set (blocks P)"
  by (simp add: mem_inv_def)

lemma mem_inv_block:
  "mem_inv m L \<Longrightarrow> slabs m i = Some P \<Longrightarrow> b \<in> set (blocks P) \<Longrightarrow> \<exists>k. headers m b = Some k \<and> pb_pool k = i"
  by (auto simp: mem_inv_def pool_wf_def)

text \<open>Replacing one pool and the headers of its blocks.\<close>

lemma slab_update_inv:
  assumes inv: "mem_inv m L" and i: "slabs m i = Some P"
    and wf: "pool_wf i P' h' L'" and cs: "chunk_size P' = chunk_size P"
    and frame: "\<And>d. d \<notin> set (blocks P) \<union> set (blocks P') \<Longrightarrow> h' d = headers m d"
    and gone: "\<And>d. d \<in> set (blocks P) - set (blocks P') \<Longrightarrow> h' d = None"
    and new: "\<And>d. d \<in> set (blocks P') - set (blocks P) \<Longrightarrow> headers m d = None \<and> (\<forall>p\<in>dom (fallbacks m). get_block_from_ptr p \<noteq> d)"
  shows "mem_inv (m\<lparr>slabs := (slabs m)(i \<mapsto> P'), headers := h'\<rparr>) (L - slab_live m L i \<union> L')"
proof -
  let ?m = "m\<lparr>slabs := (slabs m)(i \<mapsto> P'), headers := h'\<rparr>" and ?L = "L - slab_live m L i \<union> L'"
  have hP: "pb_pool k = i" if "headers m d = Some k" "d \<in> set (blocks P)" for d k
    using inv i that by (fastforce simp: mem_inv_def pool_wf_def)
  have hP': "\<exists>k. h' d = Some k \<and> pb_pool k = i" if "d \<in> set (blocks P')" for d
    using wf that by (auto simp: pool_wf_def)
  have L': "get_block_from_ptr c \<in> set (blocks P')" if "c \<in> L'" for c
    using wf that by (intro handed_block(1) [OF wf]) (auto simp: pool_wf_def)
  have L: "get_block_from_ptr c \<in> set (blocks P) \<longleftrightarrow> (\<exists>k. headers m (get_block_from_ptr c) = Some k \<and> pb_pool k = i)" for c
    using inv i hP by (fastforce simp: mem_inv_def pool_wf_def)
  have keep: "h' d = headers m d" if "headers m d = Some k" "pb_pool k \<noteq> i" for d k
    using that hP new by (intro frame) fastforce
  have origin: "headers m d = Some k" if "h' d = Some k" "pb_pool k \<noteq> i" for d k
    using that hP' [of d] frame [of d] gone [of d] by (cases "d \<in> set (blocks P')"; cases "d \<in> set (blocks P)") auto
  have live: "slab_live ?m ?L j = (if j = i then L' else slab_live m L j)" for j
  proof (cases "j = i")
    case True
    have "c \<in> L'" if "c \<in> L" "c \<notin> slab_live m L i" "h' (get_block_from_ptr c) = Some k" "pb_pool k = i" for c k
    proof -
      have "c \<in> dom (fallbacks m) \<or> headers m (get_block_from_ptr c) \<noteq> None"
        using inv that(1) by (simp add: mem_inv_def)
      moreover have "get_block_from_ptr c \<notin> set (blocks P)"
        using that(1,2) L [of c] by (auto simp: slab_live_def)
      ultimately show ?thesis
        using that frame [of "get_block_from_ptr c"] new [of "get_block_from_ptr c"] inv
        by (cases "get_block_from_ptr c \<in> set (blocks P')") (auto simp: mem_inv_def slab_live_def)
    qed
    then show ?thesis
      using True hP' L' by (auto simp: slab_live_def)
  next
    case False
    have "x \<in> slab_live ?m ?L j \<longleftrightarrow> x \<in> slab_live m L j" for x
    proof
      assume "x \<in> slab_live ?m ?L j"
      then obtain k where k: "x \<in> ?L" "h' (get_block_from_ptr x) = Some k" "pb_pool k = j"
        by (auto simp: slab_live_def)
      then have "x \<notin> L'"
        using False hP' [OF L', of x] by auto
      with k origin [OF k(2)] False show "x \<in> slab_live m L j"
        by (auto simp: slab_live_def)
    next
      assume "x \<in> slab_live m L j"
      then obtain k where k: "x \<in> L" "headers m (get_block_from_ptr x) = Some k" "pb_pool k = j"
        by (auto simp: slab_live_def)
      with keep [OF k(2)] False show "x \<in> slab_live ?m ?L j"
        by (auto simp: slab_live_def)
    qed
    then have "slab_live ?m ?L j = slab_live m L j" by blast
    with False show ?thesis by simp
  qed
  have pools: "pool_wf j Q h' (slab_live ?m ?L j) \<and> j < length slab_classes \<and> chunk_size Q = slab_classes ! j"
    if "((slabs m)(i \<mapsto> P')) j = Some Q" for j Q
  proof (cases "j = i")
    case True
    then show ?thesis
      using that wf live cs inv i by (auto simp: mem_inv_def)
  next
    case False
    then have Q: "slabs m j = Some Q" using that by simp
    then have wfj: "pool_wf j Q (headers m) (slab_live m L j)"
      using inv by (simp add: mem_inv_def)
    have "h' d = headers m d" if "d \<in> set (blocks Q)" for d
      using wfj that False by (intro keep) (auto simp: pool_wf_def)
    then have "pool_wf j Q h' (slab_live m L j)"
      using wfj by (subst pool_wf_cong [of Q h' "headers m"]) auto
    then show ?thesis
      using Q False live inv by (simp add: mem_inv_def)
  qed
  have hdr: "\<exists>Q. ((slabs m)(i \<mapsto> P')) (pb_pool k) = Some Q \<and> d \<in> set (blocks Q)" if "h' d = Some k" for d k
  proof (cases "pb_pool k = i")
    case True
    have "d \<in> set (blocks P')"
    proof (rule ccontr)
      assume "d \<notin> set (blocks P')"
      then have "headers m d = Some k" "d \<notin> set (blocks P)"
        using that frame [of d] gone [of d] by (cases "d \<in> set (blocks P)"; auto)+
      then show False
        using inv i True by (fastforce simp: mem_inv_def)
    qed
    with True show ?thesis by simp
  next
    case False
    then show ?thesis
      using origin [OF that] inv by (auto simp: mem_inv_def)
  qed
  have fb: "h' (get_block_from_ptr p) = None" if "p \<in> dom (fallbacks m)" for p
  proof -
    have none: "headers m (get_block_from_ptr p) = None"
      using inv that by (simp add: mem_inv_def)
    then have out: "get_block_from_ptr p \<notin> set (blocks P)"
      using mem_inv_block [OF inv i] by fastforce
    then have "get_block_from_ptr p \<notin> set (blocks P')"
      using new [of "get_block_from_ptr p"] that by blast
    with out none frame [of "get_block_from_ptr p"] show ?thesis
      by simp
  qed
  have fbL: "x \<in> L \<and> headers m (get_block_from_ptr x) = None" if "x \<in> dom (fallbacks m)" for x
    using inv that by (auto simp: mem_inv_def)
  then have dom: "dom (fallbacks m) \<subseteq> ?L"
    by (force simp: slab_live_def)
  have own: "c \<in> dom (fallbacks m) \<or> h' (get_block_from_ptr c) \<noteq> None" if "c \<in> ?L" for c
  proof (cases "c \<in> L'")
    case True
    then show ?thesis using hP' [OF L'] by auto
  next
    case False
    with that have c: "c \<in> L" "c \<notin> slab_live m L i" by auto
    then have "c \<in> dom (fallbacks m) \<or> headers m (get_block_from_ptr c) \<noteq> None"
      using inv by (simp add: mem_inv_def)
    then show ?thesis
      using c keep by (fastforce simp: slab_live_def)
  qed
  have "initialized m"
    using inv i by (auto simp: mem_inv_def)
  then show ?thesis
    using inv pools hdr fb dom own i unfolding mem_inv_def by simp
qed

lemma kvs_malloc_cases:
  assumes inv: "mem_inv m L" and env: "env_ok m e" and al: "kvs_malloc e m n = (r, m')"
  obtains (zero) "n = 0" and "r = None" and "m' = m"
  | (slab) m1 i P P' h' where "mem_inv m1 L" and "env_ok m1 e" and "size_map m1 n = Some i" and "slabs m1 i = Some P"
    and "mem_pool_alloc (sys_memalign e) i P (headers m1) = (r, P', h')"
    and "m' = m1\<lparr>slabs := (slabs m1)(i \<mapsto> P'), headers := h'\<rparr>"
  | (fallback) m1 where "mem_inv m1 L" and "env_ok m1 e" and "kvs_fallback (sys_malloc e) m1 n = (r, m')"
proof (cases "n = 0")
  case True
  with al zero show ?thesis by (auto simp: kvs_malloc_def)
next
  case False
  define m1 where "m1 = (if n \<le> MAX_SLAB_SIZE \<and> size_map m n = None then kvs_mempool_init (pool_ok e) m else m)"
  have m1: "mem_inv m1 L" "headers m1 = headers m" "fallbacks m1 = fallbacks m"
    using init_inv [OF inv, of "pool_ok e"] inv by (auto simp: m1_def)
  then have env1: "env_ok m1 e"
    using env by (simp add: env_ok_def)
  have al1: "(if n \<le> MAX_SLAB_SIZE then
       (case size_map m1 n of
          Some i \<Rightarrow>
            (case slabs m1 i of
               Some pool \<Rightarrow>
                 let (r, pool', h') = mem_pool_alloc (sys_memalign e) i pool (headers m1)
                 in (r, m1\<lparr>slabs := (slabs m1)(i \<mapsto> pool'), headers := h'\<rparr>)
             | None \<Rightarrow> kvs_fallback (sys_malloc e) m1 n)
        | None \<Rightarrow> kvs_fallback (sys_malloc e) m1 n)
     else kvs_fallback (sys_malloc e) m1 n) = (r, m')"
    using al False unfolding kvs_malloc_def m1_def [symmetric] Let_def [of m1] by simp
  show ?thesis
  proof (cases "n \<le> MAX_SLAB_SIZE \<and> (\<exists>i P. size_map m1 n = Some i \<and> slabs m1 i = Some P)")
    case True
    then obtain i P where i: "size_map m1 n = Some i" "slabs m1 i = Some P"
      by blast
    obtain r' P' h' where a: "mem_pool_alloc (sys_memalign e) i P (headers m1) = (r', P', h')"
      by (cases "mem_pool_alloc (sys_memalign e) i P (headers m1)") auto
    have r: "r' = r" "m' = m1\<lparr>slabs := (slabs m1)(i \<mapsto> P'), headers := h'\<rparr>"
      using al1 True i a by auto
    show ?thesis
      using a r by (intro slab [OF m1(1) env1 i]) auto
  next
    case no: False
    then have "kvs_fallback (sys_malloc e) m1 n = (r, m')"
      using al1 by (auto split: if_splits option.splits)
    then show ?thesis
      by (rule fallback [OF m1(1) env1])
  qed
qed

lemma kvs_malloc_inv:
  assumes inv: "mem_inv m L" and env: "env_ok m e" and al: "kvs_malloc e m n = (r, m')"
  shows "case r of None \<Rightarrow> mem_inv m' L | Some p \<Rightarrow> p \<notin> L \<and> mem_inv m' (insert p L)"
  using inv env al
proof (cases rule: kvs_malloc_cases)
  case zero
  with inv show ?thesis by simp
next
  case fallback
  then show ?thesis
    by (rule fallback_inv)
next
  case (slab m1 i P P' h')
  note m1 = slab(1) and env1 = slab(2) and i = slab(3,4) and a = slab(5) and r = slab(6)
  have wf: "pool_wf i P (headers m1) (slab_live m1 L i)"
    using m1 i(2) by (simp add: mem_inv_def)
  have memalign: "aligned b \<and> headers m1 b = None \<and> (\<forall>p\<in>dom (fallbacks m1). get_block_from_ptr p \<noteq> b)"
    if "sys_memalign e = Some b" for b
    using env1 that by (simp add: env_ok_def)
  note frame = mem_pool_alloc_frame [OF wf a]
  have fresh: "sys_memalign e = Some d" if "d \<in> set (blocks P') - set (blocks P)" for d
    using that frame(3) by auto
  have upd: "mem_inv m' (L - slab_live m1 L i \<union> L')" if "pool_wf i P' h' L'" for L'
    unfolding r
  proof (rule slab_update_inv [OF m1 i(2) that frame(1)])
    show "headers m1 d = None \<and> (\<forall>p\<in>dom (fallbacks m1). get_block_from_ptr p \<noteq> d)"
      if "d \<in> set (blocks P') - set (blocks P)" for d
      using memalign [OF fresh [OF that]] by blast
  qed (use frame in auto)
  show ?thesis
  proof (cases r)
    case None
    then have "pool_wf i P' h' (slab_live m1 L i)"
      using mem_pool_alloc_ok [OF wf _ a] memalign by simp
    from upd [OF this] None show ?thesis
      by (simp add: Un_absorb2 slab_live_def subset_iff)
  next
    case (Some p)
    then have p: "p \<notin> slab_live m1 L i" and wf': "pool_wf i P' h' (insert p (slab_live m1 L i))"
      using mem_pool_alloc_ok [OF wf _ a] memalign by simp_all
    have "get_block_from_ptr p \<in> set (blocks P')"
      using wf' by (intro handed_block(1) [OF wf']) (auto simp: pool_wf_def)
    then have "get_block_from_ptr p \<in> set (blocks P) \<or> sys_memalign e = Some (get_block_from_ptr p)"
      using frame(3) by auto
    then have "p \<notin> L"
      using p m1 memalign wf by (fastforce simp: mem_inv_def slab_live_def pool_wf_def)
    moreover have "L - slab_live m1 L i \<union> insert p (slab_live m1 L i) = insert p L"
      by (auto simp: slab_live_def)
    ultimately show ?thesis
      using upd [OF wf'] Some by simp
  qed
qed

lemma kvs_free_inv:
  assumes inv: "mem_inv m L" and rd: "mem_ok m rd" and p: "p \<in> L" and nz: "p \<noteq> 0"
  shows "mem_inv (kvs_free rd m p) (L - {p})"
proof (cases "p \<in> dom (fallbacks m)")
  case True
  then have "kvs_free rd m p = m\<lparr>fallbacks := (fallbacks m)(p := None)\<rparr>"
    using rd nz by (simp add: kvs_free_def mem_ok_def)
  moreover have hdr: "headers m (get_block_from_ptr p) = None"
    using inv True by (simp add: mem_inv_def)
  moreover have "slab_live (m\<lparr>fallbacks := (fallbacks m)(p := None)\<rparr>) (L - {p}) = slab_live m L"
    using hdr by (auto simp: slab_live_def fun_eq_iff)
  ultimately show ?thesis
    using inv by (auto simp: mem_inv_def)
next
  case False
  let ?b = "get_block_from_ptr p"
  obtain k where k: "headers m ?b = Some k"
    using inv p False by (auto simp: mem_inv_def)
  have "\<exists>P. slabs m (pb_pool k) = Some P \<and> ?b \<in> set (blocks P)"
    using inv k by (simp add: mem_inv_def)
  then obtain P where P: "slabs m (pb_pool k) = Some P" "?b \<in> set (blocks P)"
    by blast
  let ?i = "pb_pool k"
  have wf: "pool_wf ?i P (headers m) (slab_live m L ?i)"
    using inv P(1) by (simp add: mem_inv_def)
  have "headers m ?b = Some \<lparr>pb_pool = ?i, pb_capacity = int (block_capacity (chunk_size P)),
      pb_free_count = int (free_in P ?b), pb_magic = POOL_BLOCK_MAGIC\<rparr>"
    using wf P(2) by (simp add: pool_wf_def)
  then have magic: "pb_magic k = POOL_BLOCK_MAGIC"
    using k by (metis option.inject pool_block.select_convs(4))
  have live: "p \<in> slab_live m L ?i"
    using p k by (simp add: slab_live_def)
  obtain P' h' where f: "mem_pool_free_with_block P (headers m) p ?b = (P', h')"
    by fastforce
  have eq: "kvs_free rd m p = m\<lparr>slabs := (slabs m)(?i \<mapsto> P'), headers := h'\<rparr>"
    using rd nz k magic P(1) f by (auto simp: kvs_free_def mem_ok_def)
  have ok: "pool_wf ?i P' h' (slab_live m L ?i - {p})" "chunk_size P' = chunk_size P" "set (blocks P') \<subseteq> set (blocks P)"
    "\<And>d. d \<notin> set (blocks P) \<Longrightarrow> h' d = headers m d"
    using mem_pool_free_ok [OF wf live f] by auto
  have gone: "h' d = None" if "d \<in> set (blocks P) - set (blocks P')" for d
    using that f by (auto simp: mem_pool_free_with_block_def release_block_def Let_def split: if_splits)
  have "mem_inv (kvs_free rd m p) (L - slab_live m L ?i \<union> (slab_live m L ?i - {p}))"
    unfolding eq using ok gone by (intro slab_update_inv [OF inv P(1)]) auto
  moreover have "L - slab_live m L ?i \<union> (slab_live m L ?i - {p}) = L - {p}"
    using live by (auto simp: slab_live_def)
  ultimately show ?thesis by simp
qed

section \<open>The allocator contract\<close>

text \<open>
  The states an allocator can reach from \<open>s0\<close>, with the pointers in use: allocations under
  an environment that keeps its promises, and releases of pointers in use.
\<close>

inductive mem_reach for al fr eok mok s0 where
  start: "mem_reach al fr eok mok s0 s0 []"
| alloc: "mem_reach al fr eok mok s0 s ps \<Longrightarrow> eok s e \<Longrightarrow> al e s n = (Some p, s') \<Longrightarrow>
    mem_reach al fr eok mok s0 s' (p # ps)"
| fail: "mem_reach al fr eok mok s0 s ps \<Longrightarrow> eok s e \<Longrightarrow> al e s n = (None, s') \<Longrightarrow>
    mem_reach al fr eok mok s0 s' ps"
| release: "mem_reach al fr eok mok s0 s ps \<Longrightarrow> p \<in> set ps \<Longrightarrow> mok s rd \<Longrightarrow>
    mem_reach al fr eok mok s0 (fr rd s p) (remove1 p ps)"

locale chunk_allocator =
  fixes inv :: "'s \<Rightarrow> address set \<Rightarrow> bool"
    and al :: "'e \<Rightarrow> 's \<Rightarrow> nat \<Rightarrow> address option \<times> 's"
    and fr :: "'r \<Rightarrow> 's \<Rightarrow> address \<Rightarrow> 's"
    and eok :: "'s \<Rightarrow> 'e \<Rightarrow> bool" and mok :: "'s \<Rightarrow> 'r \<Rightarrow> bool" and s0 :: 's
  assumes init: "inv s0 {}"
    and alloc_fresh: "inv s L \<Longrightarrow> eok s e \<Longrightarrow> al e s n = (Some p, s') \<Longrightarrow> p \<notin> L \<and> inv s' (insert p L)"
    and alloc_fail: "inv s L \<Longrightarrow> eok s e \<Longrightarrow> al e s n = (None, s') \<Longrightarrow> inv s' L"
    and release_ok: "inv s L \<Longrightarrow> p \<in> L \<Longrightarrow> mok s rd \<Longrightarrow> inv (fr rd s p) (L - {p})"
begin

lemma reach_inv:
  assumes "mem_reach al fr eok mok s0 s ps"
  shows "distinct ps \<and> inv s (set ps)"
  using assms
proof (induction rule: mem_reach.induct)
  case start
  then show ?case using init by simp
next
  case (alloc s ps e n p s')
  then show ?case using alloc_fresh by force
next
  case (fail s ps e n s')
  then show ?case using alloc_fail by blast
next
  case (release s ps p rd)
  then show ?case using release_ok [of s "set ps" p rd] by simp
qed

end

text \<open>Null pointers are never handed out: the low addresses belong to no block.\<close>

definition mem_inv0 :: "mempool \<Rightarrow> address set \<Rightarrow> bool" where
  "mem_inv0 m L \<longleftrightarrow> mem_inv m L \<and> 0 \<notin> L"

lemma chunk_pos: "mem_inv m L \<Longrightarrow> p \<in> L \<Longrightarrow> p \<notin> dom (fallbacks m) \<Longrightarrow> p \<noteq> 0"
proof -
  assume inv: "mem_inv m L" and p: "p \<in> L" "p \<notin> dom (fallbacks m)"
  then obtain k where k: "headers m (get_block_from_ptr p) = Some k"
    by (auto simp: mem_inv_def)
  then obtain P where P: "slabs m (pb_pool k) = Some P"
    using mem_inv_header [OF inv] by blast
  have wf: "pool_wf (pb_pool k) P (headers m) (slab_live m L (pb_pool k))"
    using inv P by (simp add: mem_inv_def)
  have "p \<in> handed P"
    using wf p k by (auto simp: pool_wf_def slab_live_def)
  then show "p \<noteq> 0"
    by (auto simp: handed_def chunk_at_def HEADER_SIZE_def)
qed

lemma fallback_pos: "kvs_malloc e m n = (r, m') \<Longrightarrow> 0 \<notin> dom (fallbacks m) \<Longrightarrow> 0 \<notin> dom (fallbacks m')"
  by (auto simp: kvs_malloc_def kvs_fallback_def kvs_mempool_init_def Let_def
      split: if_splits option.splits prod.splits)

interpretation mp: chunk_allocator mem_inv0 kvs_malloc kvs_free env_ok mem_ok mempool_static
proof (unfold_locales, goal_cases)
  case 1
  then show ?case
    by (simp add: mem_inv0_def mem_inv_def mempool_static_def)
next
  case (2 s L e n p s')
  then have ok: "mem_inv s L" "p \<notin> L \<and> mem_inv s' (insert p L)" "0 \<notin> L"
    using kvs_malloc_inv [of s L e n "Some p" s'] by (auto simp: mem_inv0_def)
  have "0 \<notin> dom (fallbacks s)"
    using ok(1,3) by (auto simp: mem_inv_def)
  with 2(3) have "0 \<notin> dom (fallbacks s')"
    by (rule fallback_pos)
  then have "p \<noteq> 0"
    using ok(2) chunk_pos [of s' "insert p L" p] by auto
  with ok show ?case by (simp add: mem_inv0_def)
next
  case (3 s L e n s')
  then show ?case
    using kvs_malloc_inv [of s L e n None s'] by (simp add: mem_inv0_def)
next
  case (4 s L p rd)
  then show ?case
    using kvs_free_inv [of s L rd p] by (auto simp: mem_inv0_def)
qed

section \<open>Properties\<close>

definition usable_size :: "mempool \<Rightarrow> address \<Rightarrow> nat" where
  "usable_size m p =
     (case fallbacks m p of
        Some n \<Rightarrow> n
      | None \<Rightarrow>
          (case headers m (get_block_from_ptr p) of
             None \<Rightarrow> 0
           | Some k \<Rightarrow> (case slabs m (pb_pool k) of None \<Rightarrow> 0 | Some P \<Rightarrow> chunk_size P)))"

lemma slab_chunk:
  assumes inv: "mem_inv m L" and p: "p \<in> L" "fallbacks m p = None"
  obtains b k P i where "b = get_block_from_ptr p" and "headers m b = Some k" and "slabs m (pb_pool k) = Some P"
    and "aligned b" and "i < block_capacity (chunk_size P)" and "p = chunk_at (chunk_size P) b i"
    and "usable_size m p = chunk_size P"
proof -
  let ?b = "get_block_from_ptr p"
  obtain k where k: "headers m ?b = Some k"
    using inv p by (auto simp: mem_inv_def)
  obtain P where P: "slabs m (pb_pool k) = Some P" "?b \<in> set (blocks P)"
    using mem_inv_header [OF inv k] by blast
  have wf: "pool_wf (pb_pool k) P (headers m) (slab_live m L (pb_pool k))"
    using inv P by (simp add: mem_inv_def)
  have "p \<in> handed P"
    using wf p k by (auto simp: pool_wf_def slab_live_def)
  then obtain i where "i < used P ?b" "p = chunk_at (chunk_size P) ?b i"
    using handed_block(2) [OF wf] by blast
  then show ?thesis
    using that [of ?b k P i] k P wf p used_le [of P ?b] by (auto simp: usable_size_def pool_wf_def)
qed

lemma aligned_disjoint:
  assumes "aligned b" and "aligned d" and "b < d"
  shows "b + POOL_BLOCK_SIZE \<le> d"
proof -
  obtain x y where "b = POOL_BLOCK_SIZE * x" "d = POOL_BLOCK_SIZE * y"
    using assms(1,2) unfolding aligned_def mod_eq_0_iff_dvd by (metis dvdE)
  moreover from this have "x < y"
    using assms(3) by simp
  then have "POOL_BLOCK_SIZE * (x + 1) \<le> POOL_BLOCK_SIZE * y"
    by (intro mult_le_mono2) simp
  ultimately show ?thesis by simp
qed

lemma chunks_disjoint:
  assumes inv: "mem_inv m L" and p: "p \<in> L" "fallbacks m p = None" and q: "q \<in> L" "fallbacks m q = None" and pq: "p < q"
  shows "p + usable_size m p \<le> q"
proof -
  from inv p obtain b k P i where b: "headers m b = Some k" "slabs m (pb_pool k) = Some P" "aligned b"
    "i < block_capacity (chunk_size P)" "p = chunk_at (chunk_size P) b i" "usable_size m p = chunk_size P"
    by (rule slab_chunk)
  from inv q obtain d l Q j where d: "headers m d = Some l" "slabs m (pb_pool l) = Some Q" "aligned d"
    "j < block_capacity (chunk_size Q)" "q = chunk_at (chunk_size Q) d j" "usable_size m q = chunk_size Q"
    by (rule slab_chunk)
  have pend: "p + chunk_size P \<le> b + POOL_BLOCK_SIZE"
    using chunk_end [OF b(4)] by (simp add: b(5) chunk_at_def)
  have qend: "q + chunk_size Q \<le> d + POOL_BLOCK_SIZE"
    using chunk_end [OF d(4)] by (simp add: d(5) chunk_at_def)
  consider "b = d" | "b < d" | "d < b" by linarith
  then show ?thesis
  proof cases
    case 1
    then have "P = Q" using b d by simp
    then have "i < j"
      using pq 1 by (simp add: b(5) d(5) chunk_at_def)
    then have "(i + 1) * chunk_size P \<le> j * chunk_size P"
      by (intro mult_le_mono1) simp
    then have "p + chunk_size P \<le> q"
      using 1 \<open>P = Q\<close> by (simp add: b(5) d(5) chunk_at_def)
    then show ?thesis by (simp add: b(6))
  next
    case 2
    then show ?thesis
      using aligned_disjoint [OF b(3) d(3)] pend by (simp add: b(6) d(5) chunk_at_def)
  next
    case 3
    then show ?thesis
      using aligned_disjoint [OF d(3) b(3)] qend pq by (simp add: b(5) chunk_at_def)
  qed
qed

text \<open>
  C10. The slab allocator is safe: in every state reached by \<open>kvs_malloc\<close> and \<open>kvs_free\<close> calls
  (with the word below a chunk never equal to the fallback magic number) no pointer is in use
  twice, the chunks in use do not overlap, and the block of every chunk in use is still
  allocated.
\<close>

theorem mempool_safe:
  assumes "mem_reach kvs_malloc kvs_free env_ok mem_ok mempool_static m ps"
  shows "distinct ps \<and> 0 \<notin> set ps \<and>
    (\<forall>p\<in>set ps. fallbacks m p = None \<longrightarrow> headers m (get_block_from_ptr p) \<noteq> None) \<and>
    (\<forall>p\<in>set ps. \<forall>q\<in>set ps. fallbacks m p = None \<longrightarrow> fallbacks m q = None \<longrightarrow> p < q \<longrightarrow> p + usable_size m p \<le> q)"
proof -
  have r: "distinct ps" "mem_inv m (set ps)" "0 \<notin> set ps"
    using mp.reach_inv [OF assms] by (auto simp: mem_inv0_def)
  have "headers m (get_block_from_ptr p) \<noteq> None" if "p \<in> set ps" "fallbacks m p = None" for p
    using r(2) that by (auto simp: mem_inv_def)
  then show ?thesis
    using r chunks_disjoint [OF r(2)] by blast
qed

definition mem_demo_env :: mem_env where
  "mem_demo_env = \<lparr>sys_memalign = Some 131072, sys_malloc = None, pool_ok = (\<lambda>_. True)\<rparr>"

lemmas mem_demo_simps = mem_demo_env_def kvs_malloc_def mempool_static_def kvs_mempool_init_def MAX_SLAB_SIZE_def
  slab_classes_def mem_pool_create_def mem_pool_alloc_def add_new_block_def HEADER_SIZE_def Let_def

theorem mempool_safe_witness:
  "\<exists>m. mem_reach kvs_malloc kvs_free env_ok mem_ok mempool_static m [131112] \<and>
     headers m (get_block_from_ptr 131112) \<noteq> None"
proof -
  obtain r m where al: "kvs_malloc mem_demo_env mempool_static 10 = (r, m)"
    by fastforce
  have "fst (kvs_malloc mem_demo_env mempool_static 10) = Some 131112"
    by (simp add: mem_demo_simps)
  with al have r: "kvs_malloc mem_demo_env mempool_static 10 = (Some 131112, m)"
    by simp
  have "env_ok mempool_static mem_demo_env"
    by (simp add: env_ok_def mempool_static_def mem_demo_env_def aligned_def POOL_BLOCK_SIZE_def)
  with r have reach: "mem_reach kvs_malloc kvs_free env_ok mem_ok mempool_static m [131112]"
    using mem_reach.alloc [OF mem_reach.start] by metis
  have "snd (kvs_malloc mem_demo_env mempool_static 10) = m"
    using r by simp
  moreover have "fallbacks (snd (kvs_malloc mem_demo_env mempool_static 10)) 131112 = None"
    by (simp add: mem_demo_simps)
  ultimately have "headers m (get_block_from_ptr 131112) \<noteq> None"
    using mempool_safe [OF reach] by simp
  with reach show ?thesis by blast
qed



text \<open>
  \<open>kvs_mempool_trim_all\<close> never finds a block to release in a state the program can reach:
  a block is released by the \<open>kvs_free\<close> that empties it.
\<close>

theorem mempool_trim_noop:
  assumes "mem_reach kvs_malloc kvs_free env_ok mem_ok mempool_static m ps"
  shows "kvs_mempool_trim_all m = m"
proof -
  have inv: "mem_inv m (set ps)"
    using mp.reach_inv [OF assms] by (auto simp: mem_inv0_def)
  have "trim_slabs j m = m" for j
  proof (induction j)
    case (Suc j)
    show ?case
    proof (cases "slabs m j")
      case (Some P)
      then have "mem_pool_trim P (headers m) = (P, headers m)"
        using inv by (intro mem_pool_trim_noop) (auto simp: mem_inv_def)
      moreover have "(slabs m)(j \<mapsto> P) = slabs m"
        using Some by auto
      ultimately show ?thesis
        using Suc Some by simp
    qed (use Suc in simp)
  qed simp
  then show ?thesis
    by (simp add: kvs_mempool_trim_all_def)
qed

theorem mempool_trim_noop_witness: "kvs_mempool_trim_all mempool_static = mempool_static"
  by (rule mempool_trim_noop [OF mem_reach.start])

end
