(* ===== verification/Expire_Queue.thy ===== *)
theory Expire_Queue
  imports Kv_Utils
begin

text \<open>
  The lock-free single-producer single-consumer ring of \<^verbatim>\<open>expire.c\<close> (\<open>queue_push\<close>, \<open>queue_pop\<close>).
  The sequential operations are functions; they implement a bounded FIFO queue (the locale
  \<open>fifo\<close>). The concurrent use by the network thread and the expire thread is a step relation in
  which every atomic load and store and every access to a slot is a step of its own; rule
  induction shows that in every interleaving the consumer gets the produced items in order,
  without loss, duplication or a torn slot.
\<close>

definition EXPIRE_QUEUE_SIZE :: nat where
  "EXPIRE_QUEUE_SIZE = 65536"

definition EXPIRE_QUEUE_MASK :: "32 word" where
  "EXPIRE_QUEUE_MASK = 65535"

record 'a expire_queue =
  q_items :: "nat \<Rightarrow> 'a"
  q_head :: "32 word"
  q_tail :: "32 word"

definition queue_push :: "'a expire_queue \<Rightarrow> 'a \<Rightarrow> int \<times> 'a expire_queue" where
  "queue_push q item =
     (let head = q_head q; tail = q_tail q
      in if (head + 1) AND EXPIRE_QUEUE_MASK = tail then (-1, q)
         else (0, q\<lparr>q_items := (q_items q)(unat head := item), q_head := (head + 1) AND EXPIRE_QUEUE_MASK\<rparr>))"

definition queue_pop :: "'a expire_queue \<Rightarrow> 'a option \<times> 'a expire_queue" where
  "queue_pop q =
     (let tail = q_tail q; head = q_head q
      in if tail = head then (None, q)
         else (Some (q_items q (unat tail)), q\<lparr>q_tail := (tail + 1) AND EXPIRE_QUEUE_MASK\<rparr>))"

section \<open>Interleaved execution\<close>

text \<open>
  The producer: idle; after loading its own index; after loading both; after writing the slot.
  The consumer: idle; after loading its own index; after loading both; after reading the slot. \<open>g_pushed\<close> and \<open>g_popped\<close> record the items
  of the calls that returned 0, in order.
\<close>

datatype 'a producer = P_idle | P_head 'a "32 word" | P_loaded 'a "32 word" "32 word" | P_written 'a "32 word"

datatype 'a consumer = C_idle | C_tail "32 word" | C_loaded "32 word" "32 word" | C_read 'a "32 word"

record 'a conc =
  c_queue :: "'a expire_queue"
  c_prod :: "'a producer"
  c_cons :: "'a consumer"
  g_pushed :: "'a list"
  g_popped :: "'a list"

inductive q_step :: "'a conc \<Rightarrow> 'a conc \<Rightarrow> bool" where
  p_head: "c_prod s = P_idle \<Longrightarrow> q_step s (s\<lparr>c_prod := P_head x (q_head (c_queue s))\<rparr>)"
| p_load: "c_prod s = P_head x h \<Longrightarrow> q_step s (s\<lparr>c_prod := P_loaded x h (q_tail (c_queue s))\<rparr>)"
| p_full: "c_prod s = P_loaded x h t \<Longrightarrow> (h + 1) AND EXPIRE_QUEUE_MASK = t \<Longrightarrow>
    q_step s (s\<lparr>c_prod := P_idle\<rparr>)"
| p_write: "c_prod s = P_loaded x h t \<Longrightarrow> (h + 1) AND EXPIRE_QUEUE_MASK \<noteq> t \<Longrightarrow>
    q_step s (s\<lparr>c_prod := P_written x h,
                c_queue := (c_queue s)\<lparr>q_items := (q_items (c_queue s))(unat h := x)\<rparr>\<rparr>)"
| p_publish: "c_prod s = P_written x h \<Longrightarrow>
    q_step s (s\<lparr>c_prod := P_idle, g_pushed := g_pushed s @ [x],
                c_queue := (c_queue s)\<lparr>q_head := (h + 1) AND EXPIRE_QUEUE_MASK\<rparr>\<rparr>)"
| c_tail: "c_cons s = C_idle \<Longrightarrow> q_step s (s\<lparr>c_cons := C_tail (q_tail (c_queue s))\<rparr>)"
| c_load: "c_cons s = C_tail t \<Longrightarrow> q_step s (s\<lparr>c_cons := C_loaded t (q_head (c_queue s))\<rparr>)"
| c_empty: "c_cons s = C_loaded t h \<Longrightarrow> t = h \<Longrightarrow> q_step s (s\<lparr>c_cons := C_idle\<rparr>)"
| c_read: "c_cons s = C_loaded t h \<Longrightarrow> t \<noteq> h \<Longrightarrow>
    q_step s (s\<lparr>c_cons := C_read (q_items (c_queue s) (unat t)) t\<rparr>)"
| c_publish: "c_cons s = C_read x t \<Longrightarrow>
    q_step s (s\<lparr>c_cons := C_idle, g_popped := g_popped s @ [x],
                c_queue := (c_queue s)\<lparr>q_tail := (t + 1) AND EXPIRE_QUEUE_MASK\<rparr>\<rparr>)"

definition q_init :: "(nat \<Rightarrow> 'a) \<Rightarrow> 'a conc" where
  "q_init junk = \<lparr>c_queue = \<lparr>q_items = junk, q_head = 0, q_tail = 0\<rparr>, c_prod = P_idle, c_cons = C_idle,
     g_pushed = [], g_popped = []\<rparr>"

section \<open>Index arithmetic\<close>

abbreviation N :: nat where
  "N \<equiv> EXPIRE_QUEUE_SIZE"

lemma mask_succ:
  assumes "unat w = n mod N"
  shows "unat ((w + 1) AND EXPIRE_QUEUE_MASK) = Suc n mod N"
proof -
  have "EXPIRE_QUEUE_MASK = mask 16"
    by (simp add: EXPIRE_QUEUE_MASK_def mask_eq_exp_minus_1)
  then have "unat ((w + 1) AND EXPIRE_QUEUE_MASK) = unat (take_bit 16 (w + 1))"
    by (simp add: take_bit_eq_mask)
  also have "\<dots> = unat (w + 1) mod 2 ^ 16"
    by (simp only: unsigned_take_bit_eq) (simp only: take_bit_eq_mod)
  also have "\<dots> = (unat w + 1) mod 2 ^ 16"
  proof -
    have "unat w < N"
      using assms by (simp add: EXPIRE_QUEUE_SIZE_def)
    then have "unat (w + 1) = unat w + 1"
      by (simp add: unat_word_ariths EXPIRE_QUEUE_SIZE_def)
    then show ?thesis by simp
  qed
  also have "\<dots> = Suc n mod N"
    using assms by (simp add: EXPIRE_QUEUE_SIZE_def mod_Suc_eq)
  finally show ?thesis .
qed

lemma mod_eq_window:
  assumes "m \<le> n" and "n < m + N"
  shows "m mod N = n mod N \<longleftrightarrow> m = n"
proof
  assume "m mod N = n mod N"
  then have "N dvd n - m"
    using assms(1) by (metis mod_eq_dvd_iff_nat)
  then show "m = n"
    using assms by (metis diff_is_0_eq dvd_imp_le less_diff_conv2 le_antisym not_gr_zero not_less add.commute)
qed simp

section \<open>Sequential queue: a bounded FIFO\<close>

text \<open>The contents: \<open>ring q h n\<close> are the \<open>n\<close> items from position \<open>h\<close> on.\<close>

definition ring :: "(nat \<Rightarrow> 'a) \<Rightarrow> nat \<Rightarrow> nat \<Rightarrow> 'a list" where
  "ring f t n = map (\<lambda>i. f ((t + i) mod N)) [0..<n]"

definition queue_len :: "'a expire_queue \<Rightarrow> nat" where
  "queue_len q = (unat (q_head q) + N - unat (q_tail q)) mod N"

definition queue_inv :: "'a expire_queue \<Rightarrow> bool" where
  "queue_inv q \<longleftrightarrow> unat (q_head q) < N \<and> unat (q_tail q) < N"

definition queue_contents :: "'a expire_queue \<Rightarrow> 'a list" where
  "queue_contents q = ring (q_items q) (unat (q_tail q)) (queue_len q)"

lemma ring_snoc: "ring f t (Suc n) = ring f t n @ [f ((t + n) mod N)]"
  by (simp add: ring_def)

lemma ring_Cons: "ring f t (Suc n) = f (t mod N) # ring f (Suc t) n"
  by (simp add: ring_def map_upt_Suc del: upt_Suc)

lemma ring_mod: "ring f (t mod N) n = ring f t n"
  by (simp add: ring_def mod_add_left_eq)

lemma ring_upd: "(\<And>i. i < n \<Longrightarrow> (t + i) mod N \<noteq> j) \<Longrightarrow> ring (f(j := x)) t n = ring f t n"
  by (simp add: ring_def)

lemma queue_len_less: "queue_len q < N"
  by (simp add: queue_len_def EXPIRE_QUEUE_SIZE_def)

lemma queue_head_pos:
  assumes "queue_inv q"
  shows "(unat (q_tail q) + queue_len q) mod N = unat (q_head q)"
proof -
  have "(unat (q_tail q) + queue_len q) mod N = (unat (q_tail q) + (unat (q_head q) + N - unat (q_tail q))) mod N"
    by (simp add: queue_len_def mod_add_right_eq)
  also have "\<dots> = (unat (q_head q) + N) mod N"
    using assms by (simp add: queue_inv_def)
  finally show ?thesis
    using assms by (simp add: queue_inv_def)
qed

text \<open>The length is the one number below the size that leads from the tail to the head.\<close>

lemma queue_len_unique:
  assumes "queue_inv q" and "n < N" and "(unat (q_tail q) + n) mod N = unat (q_head q)"
  shows "queue_len q = n"
proof -
  let ?t = "unat (q_tail q)"
  have eq: "(?t + n) mod N = (?t + queue_len q) mod N"
    using assms queue_head_pos by metis
  show ?thesis
  proof (cases "n \<le> queue_len q")
    case True
    with eq queue_len_less [of q] show ?thesis
      using mod_eq_window [of "?t + n" "?t + queue_len q"] by simp
  next
    case False
    with eq assms(2) show ?thesis
      using mod_eq_window [of "?t + queue_len q" "?t + n"] by simp
  qed
qed

lemma N_pos [simp]: "0 < N"
  by (simp add: EXPIRE_QUEUE_SIZE_def)

lemma queue_empty_iff: "queue_inv q \<Longrightarrow> q_tail q = q_head q \<longleftrightarrow> queue_len q = 0"
proof -
  assume inv: "queue_inv q"
  have "q_tail q = q_head q \<longleftrightarrow> unat (q_tail q) = unat (q_head q)"
    by (simp add: word_unat_eq_iff)
  also have "\<dots> \<longleftrightarrow> queue_len q = 0"
    using inv queue_head_pos [OF inv] queue_len_unique [OF inv N_pos] by (auto simp: queue_inv_def)
  finally show ?thesis .
qed

lemma queue_full_iff:
  assumes inv: "queue_inv q"
  shows "(q_head q + 1) AND EXPIRE_QUEUE_MASK = q_tail q \<longleftrightarrow> queue_len q = N - 1"
proof -
  let ?t = "unat (q_tail q)"
  have "unat ((q_head q + 1) AND EXPIRE_QUEUE_MASK) = Suc (?t + queue_len q) mod N"
    using queue_head_pos [OF inv] by (intro mask_succ) simp
  then have "(q_head q + 1) AND EXPIRE_QUEUE_MASK = q_tail q \<longleftrightarrow> (?t + Suc (queue_len q)) mod N = ?t"
    by (simp add: word_unat_eq_iff)
  also have "\<dots> \<longleftrightarrow> queue_len q = N - 1"
  proof
    assume eq: "(?t + Suc (queue_len q)) mod N = ?t"
    show "queue_len q = N - 1"
    proof (rule ccontr)
      assume "queue_len q \<noteq> N - 1"
      then have "Suc (queue_len q) < N"
        using queue_len_less [of q] by simp
      then show False
        using eq mod_eq_window [of ?t "?t + Suc (queue_len q)"] inv by (simp add: queue_inv_def)
    qed
  next
    assume "queue_len q = N - 1"
    then have "?t + Suc (queue_len q) = ?t + N"
      by simp
    then show "(?t + Suc (queue_len q)) mod N = ?t"
      using inv by (simp add: queue_inv_def)
  qed
  finally show ?thesis .
qed

lemma length_contents: "length (queue_contents q) = queue_len q"
  by (simp add: queue_contents_def ring_def)

lemma queue_push_spec:
  assumes inv: "queue_inv q" and push: "queue_push q x = (r, q')"
  shows "queue_inv q' \<and> (if length (queue_contents q) = N - 1 then r = -1 \<and> q' = q
    else r = 0 \<and> queue_contents q' = queue_contents q @ [x])"
proof (cases "queue_len q = N - 1")
  case True
  then show ?thesis
    using inv push queue_full_iff [OF inv] by (auto simp: queue_push_def Let_def length_contents)
next
  case False
  let ?t = "unat (q_tail q)" and ?n = "queue_len q"
  have q': "r = 0" "q' = q\<lparr>q_items := (q_items q)(unat (q_head q) := x), q_head := (q_head q + 1) AND EXPIRE_QUEUE_MASK\<rparr>"
    using push False queue_full_iff [OF inv] by (auto simp: queue_push_def Let_def)
  have n: "Suc ?n < N"
    using False queue_len_less [of q] by simp
  have head: "unat (q_head q') = (?t + Suc ?n) mod N"
    using queue_head_pos [OF inv] mask_succ [of "q_head q" "?t + ?n"] by (simp add: q'(2))
  then have inv': "queue_inv q'"
    using inv by (simp add: queue_inv_def q'(2))
  then have len: "queue_len q' = Suc ?n"
    using n head by (intro queue_len_unique) (simp_all add: q'(2))
  have "(?t + i) mod N \<noteq> unat (q_head q)" if "i < ?n" for i
    using that n mod_eq_window [of "?t + i" "?t + ?n"] queue_head_pos [OF inv] by auto
  then have "queue_contents q' = queue_contents q @ [x]"
    using queue_head_pos [OF inv] len
    by (simp add: queue_contents_def ring_snoc q'(2) ring_upd)
  with q' inv' False show ?thesis by (simp add: length_contents)
qed

lemma queue_pop_spec:
  assumes inv: "queue_inv q" and pop: "queue_pop q = (r, q')"
  shows "queue_inv q' \<and> (case queue_contents q of [] \<Rightarrow> r = None \<and> q' = q
    | x # xs \<Rightarrow> r = Some x \<and> queue_contents q' = xs)"
proof (cases "queue_len q")
  case 0
  then show ?thesis
    using inv pop queue_empty_iff [OF inv] by (auto simp: queue_pop_def Let_def queue_contents_def ring_def)
next
  case (Suc n)
  let ?t = "unat (q_tail q)"
  have q': "r = Some (q_items q ?t)" "q' = q\<lparr>q_tail := (q_tail q + 1) AND EXPIRE_QUEUE_MASK\<rparr>"
    using pop Suc queue_empty_iff [OF inv] by (auto simp: queue_pop_def Let_def)
  have t: "?t < N"
    using inv by (simp add: queue_inv_def)
  have tail: "unat (q_tail q') = Suc ?t mod N"
    using mask_succ [of "q_tail q" ?t] t by (simp add: q'(2))
  then have inv': "queue_inv q'"
    using inv by (simp add: queue_inv_def q'(2))
  have "(unat (q_tail q') + n) mod N = (?t + Suc n) mod N"
    unfolding tail by (simp add: mod_add_left_eq)
  then have len: "queue_len q' = n"
    using inv' queue_head_pos [OF inv] queue_len_less [of q] Suc
    by (intro queue_len_unique) (simp_all add: q'(2))
  have "queue_contents q' = ring (q_items q) (Suc ?t) n"
    unfolding queue_contents_def len tail ring_mod by (simp add: q'(2))
  then have "queue_contents q = q_items q ?t # queue_contents q'"
    using t by (simp add: queue_contents_def Suc ring_Cons)
  with q' inv' show ?thesis by simp
qed


text \<open>The contract of a bounded FIFO queue, and what its clients get from it.\<close>

locale fifo =
  fixes inv :: "'q \<Rightarrow> bool" and contents :: "'q \<Rightarrow> 'a list" and capacity :: nat
    and push :: "'q \<Rightarrow> 'a \<Rightarrow> int \<times> 'q" and pop :: "'q \<Rightarrow> 'a option \<times> 'q"
  assumes push_ok: "inv q \<Longrightarrow> length (contents q) < capacity \<Longrightarrow>
      \<exists>q'. push q x = (0, q') \<and> inv q' \<and> contents q' = contents q @ [x]"
    and push_full: "inv q \<Longrightarrow> capacity \<le> length (contents q) \<Longrightarrow> push q x = (-1, q)"
    and pop_empty: "inv q \<Longrightarrow> contents q = [] \<Longrightarrow> pop q = (None, q)"
    and pop_ok: "inv q \<Longrightarrow> contents q = x # xs \<Longrightarrow> \<exists>q'. pop q = (Some x, q') \<and> inv q' \<and> contents q' = xs"
begin

lemma push_inv: "inv q \<Longrightarrow> push q x = (r, q') \<Longrightarrow> inv q'"
  using push_ok [of q x] push_full [of q x] by (cases "length (contents q) < capacity") auto

lemma push_contents:
  "inv q \<Longrightarrow> push q x = (r, q') \<Longrightarrow> contents q' = (if r = 0 then contents q @ [x] else contents q)"
  using push_ok [of q x] push_full [of q x] by (cases "length (contents q) < capacity") auto

lemma pop_inv: "inv q \<Longrightarrow> pop q = (r, q') \<Longrightarrow> inv q'"
  using pop_empty [of q] pop_ok [of q] by (cases "contents q") fastforce+

lemma pop_contents:
  "inv q \<Longrightarrow> pop q = (r, q') \<Longrightarrow> contents q = (case r of None \<Rightarrow> contents q' | Some x \<Rightarrow> x # contents q')"
  using pop_empty [of q] pop_ok [of q] by (cases "contents q") fastforce+

lemma pop_None_iff: "inv q \<Longrightarrow> fst (pop q) = None \<longleftrightarrow> contents q = []"
  using pop_empty [of q] pop_ok [of q] by (cases "contents q") fastforce+

end

interpretation eq: fifo queue_inv queue_contents "N - 1" queue_push queue_pop
proof (unfold_locales, goal_cases)
  case (1 q x)
  then show ?case
    using queue_push_spec [OF 1(1), of x] by (cases "queue_push q x") auto
next
  case (2 q x)
  then have "length (queue_contents q) = N - 1"
    using queue_len_less [of q] by (simp add: length_contents)
  then show ?case
    using queue_push_spec [OF 2(1), of x] by (cases "queue_push q x") auto
next
  case (3 q)
  then show ?case
    using queue_pop_spec [OF 3(1)] by (cases "queue_pop q") auto
next
  case (4 q x xs)
  then show ?case
    using queue_pop_spec [OF 4(1)] by (cases "queue_pop q") auto
qed

section \<open>Every interleaving\<close>

text \<open>
  \<open>H\<close> and \<open>T\<close> count the finished pushes and pops; the indices are their remainders. What a thread
  has loaded of the other index may be old, but an old tail only makes the queue look fuller
  and an old head only makes it look emptier.
\<close>

fun prod_inv :: "'a expire_queue \<Rightarrow> nat \<Rightarrow> nat \<Rightarrow> 'a producer \<Rightarrow> bool" where
  "prod_inv q H T P_idle \<longleftrightarrow> True"
| "prod_inv q H T (P_head x h) \<longleftrightarrow> h = q_head q"
| "prod_inv q H T (P_loaded x h t) \<longleftrightarrow> h = q_head q \<and> (\<exists>T0\<le>T. unat t = T0 mod N \<and> H < T0 + N)"
| "prod_inv q H T (P_written x h) \<longleftrightarrow> h = q_head q \<and> q_items q (H mod N) = x \<and> Suc H < T + N"

fun cons_inv :: "'a expire_queue \<Rightarrow> 'a list \<Rightarrow> nat \<Rightarrow> 'a consumer \<Rightarrow> bool" where
  "cons_inv q xs T C_idle \<longleftrightarrow> True"
| "cons_inv q xs T (C_tail t) \<longleftrightarrow> t = q_tail q"
| "cons_inv q xs T (C_loaded t h) \<longleftrightarrow> t = q_tail q \<and> (\<exists>H0\<le>length xs. unat h = H0 mod N \<and> T \<le> H0)"
| "cons_inv q xs T (C_read x t) \<longleftrightarrow> t = q_tail q \<and> T < length xs \<and> x = xs ! T"

definition ring_inv :: "'a expire_queue \<Rightarrow> 'a list \<Rightarrow> 'a list \<Rightarrow> bool" where
  "ring_inv q xs ys \<longleftrightarrow>
     unat (q_head q) = length xs mod N \<and> unat (q_tail q) = length ys mod N \<and>
     length ys \<le> length xs \<and> length xs < length ys + N \<and> ys = take (length ys) xs \<and>
     (\<forall>i. length ys \<le> i \<and> i < length xs \<longrightarrow> q_items q (i mod N) = xs ! i)"

definition conc_inv :: "'a conc \<Rightarrow> bool" where
  "conc_inv s \<longleftrightarrow>
     ring_inv (c_queue s) (g_pushed s) (g_popped s) \<and>
     prod_inv (c_queue s) (length (g_pushed s)) (length (g_popped s)) (c_prod s) \<and>
     cons_inv (c_queue s) (g_pushed s) (length (g_popped s)) (c_cons s)"

lemma prod_inv_pop:
  "prod_inv q H T p \<Longrightarrow> prod_inv (q\<lparr>q_tail := t\<rparr>) H (Suc T) p"
  by (cases p) (auto intro: le_SucI)

lemma cons_inv_push:
  "cons_inv q xs T c \<Longrightarrow> cons_inv (q\<lparr>q_head := h\<rparr>) (xs @ [x]) T c"
  by (cases c) (auto simp: nth_append intro: le_SucI)

lemma cons_inv_items: "cons_inv (q\<lparr>q_items := f\<rparr>) xs T c = cons_inv q xs T c"
  by (cases c) auto

lemma conc_inv_init: "conc_inv (q_init junk)"
  by (simp add: conc_inv_def ring_inv_def q_init_def)

text \<open>The steps that touch the queue.\<close>

lemma p_write_inv:
  assumes inv: "conc_inv s" and p: "c_prod s = P_loaded x h t" and nf: "(h + 1) AND EXPIRE_QUEUE_MASK \<noteq> t"
  shows "conc_inv (s\<lparr>c_prod := P_written x h,
    c_queue := (c_queue s)\<lparr>q_items := (q_items (c_queue s))(unat h := x)\<rparr>\<rparr>)"
proof -
  let ?H = "length (g_pushed s)" and ?T = "length (g_popped s)"
  obtain T0 where T0: "T0 \<le> ?T" "unat t = T0 mod N" "?H < T0 + N" and h: "h = q_head (c_queue s)" "unat h = ?H mod N"
    using inv p by (auto simp: conc_inv_def ring_inv_def)
  have "Suc ?H mod N \<noteq> T0 mod N"
    using nf mask_succ [OF h(2)] T0(2) by (simp add: word_unat_eq_iff)
  then have "Suc ?H \<noteq> T0 + N" by auto
  then have room: "Suc ?H < ?T + N"
    using T0 by linarith
  moreover have "i mod N \<noteq> ?H mod N" if "?T \<le> i" "i < ?H" for i
    using that room mod_eq_window [of i ?H] by simp
  ultimately show ?thesis
    using inv p h by (auto simp: conc_inv_def ring_inv_def cons_inv_items)
qed

lemma p_publish_inv:
  assumes inv: "conc_inv s" and p: "c_prod s = P_written x h"
  shows "conc_inv (s\<lparr>c_prod := P_idle, g_pushed := g_pushed s @ [x],
    c_queue := (c_queue s)\<lparr>q_head := (h + 1) AND EXPIRE_QUEUE_MASK\<rparr>\<rparr>)"
proof -
  let ?H = "length (g_pushed s)" and ?T = "length (g_popped s)"
  have h: "unat h = ?H mod N" "q_items (c_queue s) (?H mod N) = x" "Suc ?H < ?T + N" "?T \<le> ?H"
    using inv p by (auto simp: conc_inv_def ring_inv_def)
  have "q_items (c_queue s) (i mod N) = (g_pushed s @ [x]) ! i" if "?T \<le> i" "i < Suc ?H" for i
    using inv that h(2) by (cases "i = ?H") (auto simp: conc_inv_def ring_inv_def nth_append)
  moreover have "unat ((h + 1) AND EXPIRE_QUEUE_MASK) = Suc ?H mod N"
    using mask_succ [OF h(1)] .
  ultimately have "ring_inv ((c_queue s)\<lparr>q_head := (h + 1) AND EXPIRE_QUEUE_MASK\<rparr>) (g_pushed s @ [x]) (g_popped s)"
    using inv h by (simp add: conc_inv_def ring_inv_def)
  then show ?thesis
    using inv by (simp add: conc_inv_def cons_inv_push)
qed

lemma c_read_inv:
  assumes inv: "conc_inv s" and c: "c_cons s = C_loaded t h" and ne: "t \<noteq> h"
  shows "conc_inv (s\<lparr>c_cons := C_read (q_items (c_queue s) (unat t)) t\<rparr>)"
proof -
  let ?H = "length (g_pushed s)" and ?T = "length (g_popped s)"
  obtain H0 where H0: "H0 \<le> ?H" "unat h = H0 mod N" "?T \<le> H0" and t: "t = q_tail (c_queue s)" "unat t = ?T mod N"
    using inv c by (auto simp: conc_inv_def ring_inv_def)
  have "?T \<noteq> H0"
    using ne H0(2) t(2) by (auto simp: word_unat_eq_iff)
  then have "?T < ?H"
    using H0 by linarith
  then show ?thesis
    using inv c t by (simp add: conc_inv_def ring_inv_def)
qed

lemma c_publish_inv:
  assumes inv: "conc_inv s" and c: "c_cons s = C_read x t"
  shows "conc_inv (s\<lparr>c_cons := C_idle, g_popped := g_popped s @ [x],
    c_queue := (c_queue s)\<lparr>q_tail := (t + 1) AND EXPIRE_QUEUE_MASK\<rparr>\<rparr>)"
proof -
  let ?H = "length (g_pushed s)" and ?T = "length (g_popped s)"
  have t: "unat t = ?T mod N" "?T < ?H" "x = g_pushed s ! ?T" "g_popped s = take ?T (g_pushed s)"
    using inv c by (auto simp: conc_inv_def ring_inv_def)
  have "g_popped s @ [x] = take (Suc ?T) (g_pushed s)"
    using t by (metis take_Suc_conv_app_nth)
  moreover have "unat ((t + 1) AND EXPIRE_QUEUE_MASK) = Suc ?T mod N"
    using mask_succ [OF t(1)] .
  ultimately have "ring_inv ((c_queue s)\<lparr>q_tail := (t + 1) AND EXPIRE_QUEUE_MASK\<rparr>) (g_pushed s) (g_popped s @ [x])"
    using inv t(2) by (simp add: conc_inv_def ring_inv_def)
  then show ?thesis
    using inv by (simp add: conc_inv_def prod_inv_pop)
qed

lemma conc_inv_step: "q_step s s' \<Longrightarrow> conc_inv s \<Longrightarrow> conc_inv s'"
proof (induction rule: q_step.induct)
  case (p_load s x h)
  then show ?case by (auto simp: conc_inv_def ring_inv_def)
next
  case (c_load s t)
  then show ?case by (auto simp: conc_inv_def ring_inv_def)
next
  case (p_write s x h t)
  then show ?case by (intro p_write_inv)
next
  case (p_publish s x h)
  then show ?case by (intro p_publish_inv)
next
  case (c_read s t h)
  then show ?case by (intro c_read_inv)
next
  case (c_publish s x t)
  then show ?case by (intro c_publish_inv)
qed (simp_all add: conc_inv_def)

lemma conc_reachable: "q_step\<^sup>*\<^sup>* (q_init junk) s \<Longrightarrow> conc_inv s"
  by (induction rule: rtranclp_induct) (auto simp: conc_inv_init conc_inv_step)

section \<open>Properties\<close>

text \<open>
  C12. The timer queues are linearisable FIFO queues without locks: in every interleaving of
  the loads, slot accesses and stores of one producer and one consumer, the items popped are
  exactly the first ones pushed, in the same order, at most 65535 are outstanding, and an item
  the consumer has read but not yet released is the next one in that order.
\<close>

theorem spsc_queue_fifo:
  assumes "q_step\<^sup>*\<^sup>* (q_init junk) s"
  shows "g_popped s = take (length (g_popped s)) (g_pushed s) \<and>
    length (g_popped s) \<le> length (g_pushed s) \<and>
    length (g_pushed s) - length (g_popped s) \<le> 65535 \<and>
    (\<forall>x t. c_cons s = C_read x t \<longrightarrow> x = g_pushed s ! length (g_popped s))"
proof -
  have "conc_inv s"
    using assms by (rule conc_reachable)
  then show ?thesis
    by (auto simp: conc_inv_def ring_inv_def EXPIRE_QUEUE_SIZE_def)
qed

theorem spsc_queue_fifo_witness:
  "\<exists>s :: char conc. q_step\<^sup>*\<^sup>* (q_init (\<lambda>_. CHR ''z'')) s \<and> g_pushed s = ''a'' \<and> g_popped s = []"
proof -
  define s0 where "s0 = q_init (\<lambda>_. CHR ''z'')"
  define s1 where "s1 = s0\<lparr>c_prod := P_head CHR ''a'' (q_head (c_queue s0))\<rparr>"
  define s2 where "s2 = s1\<lparr>c_prod := P_loaded CHR ''a'' 0 (q_tail (c_queue s1))\<rparr>"
  define s3 where "s3 = s2\<lparr>c_prod := P_written CHR ''a'' 0,
    c_queue := (c_queue s2)\<lparr>q_items := (q_items (c_queue s2))(unat (0 :: 32 word) := CHR ''a'')\<rparr>\<rparr>"
  define s4 where "s4 = s3\<lparr>c_prod := P_idle, g_pushed := g_pushed s3 @ ''a'',
    c_queue := (c_queue s3)\<lparr>q_head := (0 + 1) AND EXPIRE_QUEUE_MASK\<rparr>\<rparr>"
  have pc: "c_prod s0 = P_idle" "c_prod s1 = P_head CHR ''a'' 0" "c_prod s2 = P_loaded CHR ''a'' 0 0"
    "c_prod s3 = P_written CHR ''a'' 0"
    by (simp_all add: s0_def s1_def s2_def s3_def q_init_def)
  have "q_step s0 s1"
    unfolding s1_def by (rule q_step.p_head [OF pc(1)])
  then have "q_step\<^sup>*\<^sup>* s0 s1" by blast
  also have "q_step s1 s2"
    unfolding s2_def by (rule q_step.p_load [OF pc(2)])
  also have "q_step s2 s3"
    unfolding s3_def by (rule q_step.p_write [OF pc(3)]) (simp add: EXPIRE_QUEUE_MASK_def)
  also have "q_step s3 s4"
    unfolding s4_def by (rule q_step.p_publish [OF pc(4)])
  finally have reach: "q_step\<^sup>*\<^sup>* (q_init (\<lambda>_. CHR ''z'')) s4"
    by (simp add: s0_def)
  have "g_pushed s4 = ''a''" "length (g_popped s4) = 0"
    by (simp_all add: s0_def s1_def s2_def s3_def s4_def q_init_def)
  with spsc_queue_fifo [OF reach] reach show ?thesis
    by (intro exI [of _ s4]) simp
qed

end
