(* ===== verification/Expire_Heap.thy ===== *)
theory Expire_Heap
  imports Kv_Utils
begin

text \<open>
  The binary min-heap of the expire thread (\<^verbatim>\<open>expire.c\<close>: \<open>heap_init\<close>, \<open>heap_push\<close>,
  \<open>heap_pop\<close>) and the timer items it orders by expiry time. The array is a list of the first
  \<open>size\<close> entries, with the capacity beside it. The locale \<open>priority_queue\<close> states the contract
  on multisets; the heap implements it.
\<close>

record expire_item =
  ikey :: kv_data
  iexpire :: int
  iversion :: "64 word"
  itype :: int

record min_heap =
  hdata :: "expire_item list"
  hcapacity :: nat

definition heap_init :: "nat \<Rightarrow> min_heap" where
  "heap_init init_cap = \<lparr>hdata = [], hcapacity = (if init_cap > 1024 then init_cap else 1024)\<rparr>"

definition heap_swap :: "expire_item list \<Rightarrow> nat \<Rightarrow> nat \<Rightarrow> expire_item list" where
  "heap_swap xs i j = xs[i := xs ! j, j := xs ! i]"

text \<open>The loop of \<open>heap_push\<close>: \<open>cur\<close> moves up while it is earlier than its parent.\<close>

fun sift_up :: "expire_item list \<Rightarrow> nat \<Rightarrow> expire_item list" where
  "sift_up xs cur =
     (if cur > 0 then
        let parent = (cur - 1) div 2
        in if iexpire (xs ! cur) \<ge> iexpire (xs ! parent) then xs
           else sift_up (heap_swap xs cur parent) parent
      else xs)"

declare sift_up.simps [simp del]

definition heap_push :: "min_heap \<Rightarrow> expire_item \<Rightarrow> min_heap" where
  "heap_push h item =
     \<lparr>hdata = sift_up (hdata h @ [item]) (length (hdata h)),
      hcapacity = (if length (hdata h) \<ge> hcapacity h then 2 * hcapacity h else hcapacity h)\<rparr>"

text \<open>The loop of \<open>heap_pop\<close>: \<open>cur\<close> moves down to its earlier child while that is earlier.\<close>

definition smallest_child :: "expire_item list \<Rightarrow> nat \<Rightarrow> nat" where
  "smallest_child xs cur =
     (let left = 2 * cur + 1; right = 2 * cur + 2;
          s1 = (if left < length xs \<and> iexpire (xs ! left) < iexpire (xs ! cur) then left else cur)
      in if right < length xs \<and> iexpire (xs ! right) < iexpire (xs ! s1) then right else s1)"

lemma smallest_child_bounds:
  "smallest_child xs cur = cur \<or> cur < smallest_child xs cur \<and> smallest_child xs cur < length xs"
  by (auto simp: smallest_child_def Let_def)

lemma length_heap_swap [simp]: "length (heap_swap xs i j) = length xs"
  by (simp add: heap_swap_def)

function sift_down :: "expire_item list \<Rightarrow> nat \<Rightarrow> expire_item list" where
  "sift_down xs cur =
     (let smallest = smallest_child xs cur
      in if smallest = cur then xs else sift_down (heap_swap xs cur smallest) smallest)"
  by pat_completeness auto
termination
proof (relation "measure (\<lambda>(xs, cur). length xs - cur)")
  fix xs cur x
  assume "x = smallest_child xs cur" and "x \<noteq> cur"
  then show "((heap_swap xs cur x, x), xs, cur) \<in> measure (\<lambda>(xs, cur). length xs - cur)"
    using smallest_child_bounds [of xs cur] by auto
qed simp

declare sift_down.simps [simp del]

definition heap_pop :: "min_heap \<Rightarrow> expire_item option \<times> min_heap" where
  "heap_pop h =
     (case hdata h of
        [] \<Rightarrow> (None, h)
      | x # xs \<Rightarrow>
          (Some x, h\<lparr>hdata := sift_down (butlast ((x # xs)[0 := last (x # xs)])) 0\<rparr>))"

section \<open>Heap order\<close>

abbreviation key_at :: "expire_item list \<Rightarrow> nat \<Rightarrow> int" where
  "key_at xs i \<equiv> iexpire (xs ! i)"

abbreviation parent_of :: "nat \<Rightarrow> nat" where
  "parent_of i \<equiv> (i - 1) div 2"

lemma parent_less: "0 < i \<Longrightarrow> parent_of i < i"
  by linarith

definition heap_ok :: "expire_item list \<Rightarrow> bool" where
  "heap_ok xs \<longleftrightarrow> (\<forall>i. 0 < i \<and> i < length xs \<longrightarrow> key_at xs (parent_of i) \<le> key_at xs i)"

lemma mset_heap_swap: "i < length xs \<Longrightarrow> j < length xs \<Longrightarrow> mset (heap_swap xs i j) = mset xs"
  by (simp add: heap_swap_def mset_swap)

lemma nth_heap_swap:
  "i < length xs \<Longrightarrow> j < length xs \<Longrightarrow> k < length xs \<Longrightarrow>
   heap_swap xs i j ! k = (if k = j then xs ! i else if k = i then xs ! j else xs ! k)"
  by (simp add: heap_swap_def nth_list_update)

text \<open>While sifting up: the order may fail at \<open>c\<close> only, and the children of \<open>c\<close> are above its parent.\<close>

definition up_inv :: "expire_item list \<Rightarrow> nat \<Rightarrow> bool" where
  "up_inv xs c \<longleftrightarrow>
     (\<forall>i. 0 < i \<and> i < length xs \<and> i \<noteq> c \<longrightarrow> key_at xs (parent_of i) \<le> key_at xs i) \<and>
     (\<forall>i. 0 < i \<and> i < length xs \<and> parent_of i = c \<and> 0 < c \<longrightarrow> key_at xs (parent_of c) \<le> key_at xs i)"

lemma up_inv_step:
  assumes inv: "up_inv xs c" and c: "0 < c" "c < length xs" and less: "key_at xs c < key_at xs (parent_of c)"
  shows "up_inv (heap_swap xs c (parent_of c)) (parent_of c)"
proof -
  let ?p = "parent_of c" and ?ys = "heap_swap xs c (parent_of c)"
  have p: "?p < length xs" "?p < c"
    using c by auto
  have key: "key_at ?ys k = (if k = ?p then key_at xs c else if k = c then key_at xs ?p else key_at xs k)"
    if "k < length xs" for k
    using nth_heap_swap [OF c(2) p(1) that] by simp
  have ord: "key_at xs (parent_of i) \<le> key_at xs i" if "0 < i" "i < length xs" "i \<noteq> c" for i
    using inv that by (simp add: up_inv_def)
  have child: "key_at xs ?p \<le> key_at xs i" if "0 < i" "i < length xs" "parent_of i = c" for i
    using inv that c(1) by (simp add: up_inv_def)
  have first: "key_at ?ys (parent_of i) \<le> key_at ?ys i" if i: "0 < i" "i < length xs" "i \<noteq> ?p" for i
  proof -
    have pi: "parent_of i < length xs" "parent_of i < i"
      using i by auto
    consider "i = c" | "i \<noteq> c" "parent_of i = ?p" | "i \<noteq> c" "parent_of i = c" | "i \<noteq> c" "parent_of i \<noteq> ?p" "parent_of i \<noteq> c"
      by blast
    then show ?thesis
    proof cases
      case 1
      then show ?thesis using key c p less by simp
    next
      case 2
      then show ?thesis using key [of i] key [of ?p] ord [of i] i p less by simp
    next
      case 3
      then show ?thesis using key [of i] key [of c] child [of i] i c p by simp
    next
      case 4
      then show ?thesis using key [of i] key [of "parent_of i"] ord [of i] i pi by simp
    qed
  qed
  moreover have "key_at ?ys (parent_of ?p) \<le> key_at ?ys i"
    if i: "0 < i" "i < length xs" "parent_of i = ?p" "0 < ?p" for i
  proof -
    note pl = parent_less [OF i(4)]
    have gp: "key_at ?ys (parent_of ?p) = key_at xs (parent_of ?p)"
      using key [OF less_trans [OF pl p(1)]] less_trans [OF pl p(2)] pl
      by (simp only: less_imp_neq if_False)
    have up: "key_at xs (parent_of ?p) \<le> key_at xs ?p"
      using ord [of ?p] i(4) p by simp
    show ?thesis
    proof (cases "i = c")
      case True
      then have "key_at ?ys i = key_at xs ?p"
        using key [OF i(2)] p(2) by (metis less_irrefl)
      with gp up show ?thesis by (simp only:)
    next
      case False
      have "i \<noteq> ?p"
        using parent_less [OF i(1)] i(3) by (metis less_irrefl)
      with False have "key_at ?ys i = key_at xs i"
        using key [OF i(2)] by (simp only: if_False)
      moreover have "key_at xs ?p \<le> key_at xs i"
        using ord [OF i(1,2) False] i(3) by (simp only:)
      ultimately show ?thesis
        using gp up order_trans [OF up] by (simp only:)
    qed
  qed
  ultimately show ?thesis
    by (simp add: up_inv_def)
qed

lemma sift_up_ok:
  assumes "up_inv xs c" and "c < length xs"
  shows "heap_ok (sift_up xs c) \<and> mset (sift_up xs c) = mset xs"
  using assms
proof (induction xs c rule: sift_up.induct)
  case (1 xs c)
  show ?case
  proof (cases "0 < c \<and> key_at xs c < key_at xs (parent_of c)")
    case True
    let ?ys = "heap_swap xs c (parent_of c)"
    have "sift_up xs c = sift_up ?ys (parent_of c)"
      using True by (subst sift_up.simps) (simp add: Let_def)
    moreover have "heap_ok (sift_up ?ys (parent_of c)) \<and> mset (sift_up ?ys (parent_of c)) = mset ?ys"
      using True 1 up_inv_step [of xs c] by (intro "1.IH") auto
    moreover have "mset ?ys = mset xs"
      using 1 by (intro mset_heap_swap) auto
    ultimately show ?thesis by simp
  next
    case False
    then have eq: "sift_up xs c = xs"
      by (subst sift_up.simps) (auto simp: Let_def)
    have "heap_ok xs"
      using 1(2) False unfolding heap_ok_def up_inv_def by (metis not_less)
    with eq show ?thesis by simp
  qed
qed

lemma heap_push_ok:
  assumes "heap_ok (hdata h)"
  shows "heap_ok (hdata (heap_push h x)) \<and> mset (hdata (heap_push h x)) = add_mset x (mset (hdata h))"
proof -
  let ?n = "length (hdata h)"
  have "up_inv (hdata h @ [x]) ?n"
    unfolding up_inv_def
  proof (intro conjI allI impI)
    fix i
    assume i: "0 < i \<and> i < length (hdata h @ [x]) \<and> i \<noteq> ?n"
    then have "i < ?n" "parent_of i < ?n"
      using parent_less [of i] by auto
    with assms i show "key_at (hdata h @ [x]) (parent_of i) \<le> key_at (hdata h @ [x]) i"
      by (simp only: nth_append heap_ok_def if_True)
  next
    fix i
    assume i: "0 < i \<and> i < length (hdata h @ [x]) \<and> parent_of i = ?n \<and> 0 < ?n"
    then have "parent_of i < i" "i \<le> ?n"
      using parent_less [of i] by auto
    with i show "key_at (hdata h @ [x]) (parent_of ?n) \<le> key_at (hdata h @ [x]) i"
      by linarith
  qed
  from sift_up_ok [OF this] show ?thesis
    by (simp add: heap_push_def)
qed

text \<open>While sifting down: the order may fail between \<open>c\<close> and its children only.\<close>

definition down_inv :: "expire_item list \<Rightarrow> nat \<Rightarrow> bool" where
  "down_inv xs c \<longleftrightarrow>
     (\<forall>i. 0 < i \<and> i < length xs \<and> parent_of i \<noteq> c \<longrightarrow> key_at xs (parent_of i) \<le> key_at xs i) \<and>
     (\<forall>i. 0 < i \<and> i < length xs \<and> parent_of i = c \<and> 0 < c \<longrightarrow> key_at xs (parent_of c) \<le> key_at xs i)"

lemma parent_iff: "0 < i \<Longrightarrow> parent_of i = c \<longleftrightarrow> i = 2 * c + 1 \<or> i = 2 * c + 2"
  by auto

lemma smallest_child_stop:
  assumes "smallest_child xs c = c" and "0 < i" and "i < length xs" and "parent_of i = c"
  shows "key_at xs c \<le> key_at xs i"
proof -
  have "i = 2 * c + 1 \<or> i = 2 * c + 2"
    using parent_iff assms(2,4) by blast
  then show ?thesis
    using assms(1,3) by (auto simp: smallest_child_def Let_def split: if_splits)
qed

lemma smallest_child_least:
  assumes "smallest_child xs c \<noteq> c" and "0 < i" and "i < length xs" and "parent_of i = c"
  shows "key_at xs (smallest_child xs c) \<le> key_at xs i"
proof -
  have "i = 2 * c + 1 \<or> i = 2 * c + 2"
    using parent_iff assms(2,4) by blast
  then show ?thesis
    using assms(1,3) by (auto simp: smallest_child_def Let_def split: if_splits)
qed

lemma smallest_child_props:
  assumes "smallest_child xs c \<noteq> c"
  shows "parent_of (smallest_child xs c) = c" and "key_at xs (smallest_child xs c) < key_at xs c"
    and "\<And>i. 0 < i \<Longrightarrow> i < length xs \<Longrightarrow> parent_of i = c \<Longrightarrow> key_at xs (smallest_child xs c) \<le> key_at xs i"
proof -
  show "parent_of (smallest_child xs c) = c" "key_at xs (smallest_child xs c) < key_at xs c"
    using assms by (auto simp: smallest_child_def Let_def split: if_splits)
qed (rule smallest_child_least [OF assms])

lemma down_inv_step:
  assumes inv: "down_inv xs c" and c: "c < length xs" and ne: "smallest_child xs c \<noteq> c"
  shows "down_inv (heap_swap xs c (smallest_child xs c)) (smallest_child xs c)"
proof -
  let ?s = "smallest_child xs c" and ?ys = "heap_swap xs c (smallest_child xs c)"
  note sc = smallest_child_props [OF ne]
  have s: "?s < length xs" "c < ?s"
    using smallest_child_bounds [of xs c] ne by auto
  have key: "key_at ?ys k = (if k = ?s then key_at xs c else if k = c then key_at xs ?s else key_at xs k)"
    if "k < length xs" for k
    using nth_heap_swap [OF c s(1) that] by simp
  have ord: "key_at xs (parent_of i) \<le> key_at xs i" if "0 < i" "i < length xs" "parent_of i \<noteq> c" for i
    using inv that by (simp add: down_inv_def)
  have child: "key_at xs (parent_of c) \<le> key_at xs i" if "0 < i" "i < length xs" "parent_of i = c" "0 < c" for i
    using inv that by (simp add: down_inv_def)
  have first: "key_at ?ys (parent_of i) \<le> key_at ?ys i" if i: "0 < i" "i < length xs" "parent_of i \<noteq> ?s" for i
  proof -
    have pi: "parent_of i < length xs" "parent_of i < i"
      using i by auto
    consider "i = ?s" | "i \<noteq> ?s" "parent_of i = c" | "i = c" | "i \<noteq> ?s" "i \<noteq> c" "parent_of i \<noteq> c"
      by blast
    then show ?thesis
    proof cases
      case 1
      then show ?thesis using key [of i] key [of c] sc c s by simp
    next
      case 2
      then show ?thesis using key [of i] key [of c] sc(3) [of i] i c s pi by auto
    next
      case 3
      have "parent_of c \<noteq> c" "0 < c"
        using 3 i by auto
      moreover have "key_at xs (parent_of c) \<le> key_at xs ?s"
        using child [of ?s] sc(1) s \<open>0 < c\<close> by simp
      ultimately show ?thesis
        using 3 key [of c] key [of "parent_of c"] pi s c by auto
    next
      case 4
      then show ?thesis using key [of i] key [of "parent_of i"] ord [of i] i pi by simp
    qed
  qed
  moreover have "key_at ?ys (parent_of ?s) \<le> key_at ?ys i"
    if i: "0 < i" "i < length xs" "parent_of i = ?s" for i
  proof -
    have "i \<noteq> ?s" "i \<noteq> c" "parent_of i \<noteq> c"
      using i s by auto
    then show ?thesis
      using i key [of i] key [of c] ord [of i] sc(1) c s by simp
  qed
  ultimately show ?thesis
    by (simp add: down_inv_def)
qed

lemma sift_down_ok:
  assumes "down_inv xs c" and "c < length xs"
  shows "heap_ok (sift_down xs c) \<and> mset (sift_down xs c) = mset xs"
  using assms
proof (induction xs c rule: sift_down.induct)
  case (1 xs c)
  let ?s = "smallest_child xs c"
  show ?case
  proof (cases "?s = c")
    case True
    then have eq: "sift_down xs c = xs"
      by (subst sift_down.simps) simp
    have "heap_ok xs"
      using "1.prems"(1) smallest_child_stop [OF True] by (auto simp: heap_ok_def down_inv_def)
    with eq show ?thesis by simp
  next
    case False
    let ?ys = "heap_swap xs c ?s"
    have s: "?s < length xs"
      using smallest_child_bounds [of xs c] False by auto
    have "sift_down xs c = sift_down ?ys ?s"
      using False by (subst sift_down.simps) (simp add: Let_def)
    moreover have "heap_ok (sift_down ?ys ?s) \<and> mset (sift_down ?ys ?s) = mset ?ys"
      using False "1.prems" s down_inv_step by (intro "1.IH") auto
    moreover have "mset ?ys = mset xs"
      using "1.prems"(2) s by (rule mset_heap_swap)
    ultimately show ?thesis by simp
  qed
qed

lemma heap_ok_root: "heap_ok xs \<Longrightarrow> i < length xs \<Longrightarrow> key_at xs 0 \<le> key_at xs i"
proof (induction i rule: less_induct)
  case (less i)
  show ?case
  proof (cases "i = 0")
    case False
    then have "parent_of i < i" "parent_of i < length xs" "key_at xs (parent_of i) \<le> key_at xs i"
      using less.prems by (auto simp: heap_ok_def)
    then show ?thesis
      using less.IH [of "parent_of i"] less.prems by simp
  qed simp
qed

lemma heap_pop_ok:
  assumes ok: "heap_ok (hdata h)" and pop: "heap_pop h = (r, h')"
  shows "case r of None \<Rightarrow> hdata h = [] \<and> h' = h
    | Some x \<Rightarrow> heap_ok (hdata h') \<and> mset (hdata h) = add_mset x (mset (hdata h')) \<and>
        (\<forall>y\<in>set (hdata h). iexpire x \<le> iexpire y)"
proof (cases "hdata h")
  case Nil
  with pop show ?thesis by (auto simp: heap_pop_def)
next
  case (Cons x xs)
  let ?ys = "butlast ((x # xs)[0 := last (x # xs)])"
  have r: "r = Some x" "hdata h' = sift_down ?ys 0"
    using pop Cons by (auto simp: heap_pop_def)
  have min: "\<forall>y\<in>set (hdata h). iexpire x \<le> iexpire y"
    using heap_ok_root [OF ok] Cons by (metis in_set_conv_nth nth_Cons_0)
  have "heap_ok (hdata h') \<and> mset (x # xs) = add_mset x (mset (hdata h'))"
  proof (cases xs rule: rev_cases)
    case Nil
    then have "hdata h' = []"
      by (simp add: r(2) sift_down.simps smallest_child_def)
    with Nil show ?thesis by (simp add: heap_ok_def)
  next
    case (snoc zs z)
    have ys: "?ys = z # zs"
      using snoc by (cases zs) (simp_all add: butlast_append)
    have key: "(x # zs @ [z]) ! i = (z # zs) ! i" if "0 < i" "i < length (z # zs)" for i
      using that by (cases i) (auto simp: nth_append)
    have "down_inv (z # zs) 0"
      unfolding down_inv_def
    proof (intro conjI allI impI)
      fix i
      assume i: "0 < i \<and> i < length (z # zs) \<and> parent_of i \<noteq> 0"
      then have "parent_of i < length (z # zs)"
        using parent_less [of i] by linarith
      moreover have "key_at (x # zs @ [z]) (parent_of i) \<le> key_at (x # zs @ [z]) i"
        using ok i unfolding Cons snoc heap_ok_def by (metis less_SucI length_Cons length_append_singleton)
      ultimately show "key_at (z # zs) (parent_of i) \<le> key_at (z # zs) i"
        using key [of i] key [of "parent_of i"] i by simp
    qed simp
    from sift_down_ok [OF this] have "heap_ok (hdata h') \<and> mset (hdata h') = mset (z # zs)"
      unfolding r(2) ys by blast
    with snoc show ?thesis by simp
  qed
  with r min Cons show ?thesis by simp
qed

section \<open>The contract\<close>

locale priority_queue =
  fixes inv :: "'h \<Rightarrow> bool" and items :: "'h \<Rightarrow> 'a multiset" and prio :: "'a \<Rightarrow> int"
    and push :: "'h \<Rightarrow> 'a \<Rightarrow> 'h" and pop :: "'h \<Rightarrow> 'a option \<times> 'h"
  assumes push_inv: "inv h \<Longrightarrow> inv (push h x)"
    and push_items: "inv h \<Longrightarrow> items (push h x) = add_mset x (items h)"
    and pop_empty: "inv h \<Longrightarrow> items h = {#} \<Longrightarrow> pop h = (None, h)"
    and pop_min: "inv h \<Longrightarrow> items h \<noteq> {#} \<Longrightarrow> \<exists>x h'. pop h = (Some x, h') \<and> inv h' \<and>
      items h = add_mset x (items h') \<and> (\<forall>y\<in>#items h. prio x \<le> prio y)"
begin

lemma pop_inv: "inv h \<Longrightarrow> pop h = (r, h') \<Longrightarrow> inv h'"
  using pop_empty [of h] pop_min [of h] by (cases "items h = {#}") auto

lemma pop_Some:
  "inv h \<Longrightarrow> pop h = (Some x, h') \<Longrightarrow>
     inv h' \<and> items h = add_mset x (items h') \<and> (\<forall>y\<in>#items h. prio x \<le> prio y)"
  using pop_empty [of h] pop_min [of h] by (cases "items h = {#}") auto

end

interpretation eh: priority_queue "\<lambda>h. heap_ok (hdata h)" "\<lambda>h. mset (hdata h)" iexpire heap_push heap_pop
proof (unfold_locales, goal_cases)
  case (1 h x)
  then show ?case using heap_push_ok by blast
next
  case (2 h x)
  then show ?case using heap_push_ok by blast
next
  case (3 h)
  then show ?case by (simp add: heap_pop_def)
next
  case (4 h)
  obtain r h' where p: "heap_pop h = (r, h')" by fastforce
  moreover have "r \<noteq> None"
    using 4 p by (auto simp: heap_pop_def split: list.splits)
  ultimately show ?case
    using heap_pop_ok [OF 4(1) p] by auto
qed

section \<open>Properties\<close>

text \<open>
  C13. The timer heap always yields the earliest timer: on a heap-ordered array \<open>heap_push\<close>
  adds exactly one item and keeps the order, and \<open>heap_pop\<close> of a non-empty heap removes exactly
  one item, none of the others expires before it, and the rest is a heap again.
\<close>

theorem heap_earliest_first:
  assumes "heap_ok (hdata h)" and "hdata h \<noteq> []"
  shows "heap_ok (hdata (heap_push h y)) \<and> mset (hdata (heap_push h y)) = add_mset y (mset (hdata h)) \<and>
    (\<exists>x h'. heap_pop h = (Some x, h') \<and> heap_ok (hdata h') \<and>
      mset (hdata h) = add_mset x (mset (hdata h')) \<and> (\<forall>z\<in>set (hdata h). iexpire x \<le> iexpire z))"
  using heap_push_ok [OF assms(1)] eh.pop_min [of h] assms by auto

definition demo_item :: "bytes \<Rightarrow> int \<Rightarrow> expire_item" where
  "demo_item k e = \<lparr>ikey = kd k, iexpire = e, iversion = 0, itype = 0\<rparr>"

definition heap_demo :: min_heap where
  "heap_demo = \<lparr>hdata = [demo_item ''a'' 5, demo_item ''b'' 9, demo_item ''c'' 7], hcapacity = 1024\<rparr>"

theorem heap_earliest_first_witness:
  "\<exists>x h'. heap_pop heap_demo = (Some x, h') \<and> heap_ok (hdata h')"
proof -
  have "heap_ok (hdata heap_demo)"
    by (auto simp: heap_demo_def heap_ok_def demo_item_def less_Suc_eq numeral_3_eq_3)
  moreover have "hdata heap_demo \<noteq> []"
    by (simp add: heap_demo_def)
  ultimately show ?thesis
    using heap_earliest_first by blast
qed

end
