(* ===== verification/Resp_Parse.thy ===== *)
theory Resp_Parse
  imports Kvs_Libc
begin

text \<open>
  The RESP codec of \<^verbatim>\<open>resp.c\<close>: \<open>is_write_command\<close>, \<open>find_crlf\<close>, \<open>has_complete_resp_command\<close>,
  \<open>resp_unpack_no_modify\<close>, \<open>resp_pack\<close> and \<open>resp_pack_with_realloc\<close>. A \<open>char *\<close> into the receive
  buffer is the list of the bytes from that address on (the bytes after the received ones are
  stale memory, which \<open>atoi\<close> may look at), together with the length the code passes along. A
  read before the start of the buffer is the outcome \<open>P_fault\<close>.

  The lemmas give the reference encoder \<open>resp_encode\<close> and show that the code decodes what it
  encodes, takes no half-received command for a complete one, and never writes past the send
  buffer.
\<close>

section \<open>Requests and replies\<close>

datatype kvs_status =
    KVS_RESP_OK | KVS_RESP_GET_OK | KVS_RESP_PONG | KVS_RESP_NO_EXISTS | KVS_RESP_EXISTS
  | KVS_RESP_SUCCESS | KVS_RESP_ERROR | KVS_RESP_PARSE_ERROR | KVS_RESP_UNKNOWN | KVS_RESP_ERR

record resp_reply =
  status :: kvs_status
  body :: "bytes option"

text \<open>
  \<open>rargv\<close> and \<open>rargv_len\<close> are \<open>argv\<close> and \<open>argv_len\<close>: the pointers (as the bytes from there on)
  and the lengths the client announced.
\<close>

record resp_request =
  argc :: int
  rargv :: "bytes list"
  rargv_len :: "int list"
  is_dynamic :: bool

definition RESP_STATIC_ARGC :: int where
  "RESP_STATIC_ARGC = 16"

section \<open>Parsing\<close>

abbreviation CR :: char where
  "CR \<equiv> CHR 0x0D"

abbreviation LF :: char where
  "LF \<equiv> CHR 0x0A"

text \<open>\<open>find_crlf(buf, len)\<close>, as the offset of the CR.\<close>

fun find_crlf :: "bytes \<Rightarrow> nat \<Rightarrow> nat option" where
  "find_crlf (a # b # xs) (Suc (Suc n)) =
     (if a = CR \<and> b = LF then Some 0 else map_option Suc (find_crlf (b # xs) (Suc n)))"
| "find_crlf _ _ = None"

datatype probe = P_incomplete | P_complete nat | P_fault

text \<open>The loop over the arguments: \<open>i\<close> of them to go, \<open>p\<close> the offset from \<open>buf\<close>.\<close>

fun complete_args :: "bytes \<Rightarrow> nat \<Rightarrow> nat \<Rightarrow> nat \<Rightarrow> probe" where
  "complete_args buf buf_len 0 p = P_complete p"
| "complete_args buf buf_len (Suc i) p =
     (if p \<ge> buf_len \<or> buf ! p \<noteq> CHR ''$'' then P_incomplete
      else case find_crlf (drop p buf) (buf_len - p) of
        None \<Rightarrow> P_incomplete
      | Some c \<Rightarrow>
          let arg_len = atoi (drop (p + 1) buf); q = int (p + c + 2)
          in if q + arg_len + 2 > int buf_len then P_incomplete
             else if q + arg_len < 0 then P_fault
             else if buf ! nat (q + arg_len) \<noteq> CR \<or> buf ! nat (q + arg_len + 1) \<noteq> LF then P_incomplete
             else complete_args buf buf_len i (nat (q + arg_len + 2)))"

definition has_complete_resp_command :: "bytes \<Rightarrow> nat \<Rightarrow> probe" where
  "has_complete_resp_command buf buf_len =
     (if buf_len < 4 \<or> buf ! 0 \<noteq> CHR ''*'' then P_incomplete
      else case find_crlf buf buf_len of
        None \<Rightarrow> P_incomplete
      | Some c \<Rightarrow> complete_args buf buf_len (nat (atoi (drop 1 buf))) (c + 2))"

text \<open>
  The loop of \<open>resp_unpack_no_modify\<close>; \<open>p\<close> may not leave the buffer to the left, since
  \<open>has_complete_resp_command\<close> accepted the command.
\<close>

fun unpack_args :: "bytes \<Rightarrow> nat \<Rightarrow> nat \<Rightarrow> int \<Rightarrow> (bytes \<times> int) list" where
  "unpack_args buf buf_len 0 p = []"
| "unpack_args buf buf_len (Suc i) p =
     (case find_crlf (drop (nat p) buf) (nat (int buf_len - p)) of
        None \<Rightarrow> []
      | Some c \<Rightarrow>
          let arg_len = atoi (drop (nat p + 1) buf); q = p + int c + 2
          in (drop (nat q) buf, arg_len) # unpack_args buf buf_len i (q + arg_len + 2))"

text \<open>
  \<open>None\<close>: a vector of more than 16 arguments could not be allocated, and the loop writes
  through the NULL pointer.
\<close>

definition resp_unpack_no_modify :: "alloc_env \<Rightarrow> bytes \<Rightarrow> nat \<Rightarrow> resp_request option" where
  "resp_unpack_no_modify ok buf buf_len =
     (case find_crlf buf buf_len of
        None \<Rightarrow> Some \<lparr>argc = 0, rargv = [], rargv_len = [], is_dynamic = False\<rparr>
      | Some c \<Rightarrow>
          let n = atoi (drop 1 buf);
              dynamic = (n > RESP_STATIC_ARGC);
              args = unpack_args buf buf_len (nat n) (int c + 2)
          in if dynamic \<and> \<not> (ok 0 \<and> ok 1) \<and> args \<noteq> [] then None
             else Some \<lparr>argc = (if n \<le> 0 then n else int (length args)),
                        rargv = map fst args, rargv_len = map snd args, is_dynamic = dynamic\<rparr>)"

definition free_resp_request :: "resp_request \<Rightarrow> resp_request" where
  "free_resp_request req =
     (if is_dynamic req then \<lparr>argc = 0, rargv = [], rargv_len = [], is_dynamic = False\<rparr>
      else req\<lparr>argc := 0\<rparr>)"

text \<open>The commands that change the data and are therefore logged.\<close>

definition write_names :: "bytes list" where
  "write_names =
     [''SET'', ''DEL'', ''MOD'', ''RSET'', ''RDEL'', ''RMOD'', ''HSET'', ''HDEL'', ''HMOD'',
      ''SSET'', ''SDEL'', ''SMOD'', ''KEEP'', ''SETCTX'', ''SETREC'', ''SETIDX'', ''ZADD'', ''DELCTX'']"

definition is_write_command :: "bytes \<Rightarrow> int \<Rightarrow> bool" where
  "is_write_command cmd len \<longleftrightarrow>
     (\<exists>n\<in>set write_names. len = int (length n) \<and> strncasecmp cmd n (length n) = 0)"

section \<open>Replies\<close>

abbreviation crlf :: bytes where
  "crlf \<equiv> [CR, LF]"

text \<open>\<open>resp_pack\<close>: the bytes appended to the send buffer.\<close>

definition resp_pack :: "resp_reply \<Rightarrow> bytes" where
  "resp_pack reply =
     (case status reply of
        KVS_RESP_OK \<Rightarrow> ''+OK'' @ crlf
      | KVS_RESP_PONG \<Rightarrow> ''+PONG'' @ crlf
      | KVS_RESP_SUCCESS \<Rightarrow> ''+OK'' @ crlf
      | KVS_RESP_ERR \<Rightarrow> ''-ERR save snapshot failed'' @ crlf
      | KVS_RESP_GET_OK \<Rightarrow>
          (case body reply of
             None \<Rightarrow> []
           | Some b \<Rightarrow> CHR ''$'' # print_int (int (length b)) @ crlf @ b @ crlf)
      | KVS_RESP_NO_EXISTS \<Rightarrow> ''$-1'' @ crlf
      | KVS_RESP_EXISTS \<Rightarrow> ''-ERR key already exists'' @ crlf
      | KVS_RESP_UNKNOWN \<Rightarrow> ''-ERR unknown command'' @ crlf
      | KVS_RESP_PARSE_ERROR \<Rightarrow> ''-ERR syntax error'' @ crlf
      | KVS_RESP_ERROR \<Rightarrow> [])"

text \<open>The send buffer of a connection: the \<open>wlen\<close> bytes in use, and the capacity.\<close>

record wbuffer =
  wdata :: bytes
  wcap :: int

definition body_len :: "resp_reply \<Rightarrow> int" where
  "body_len reply = (case body reply of None \<Rightarrow> 0 | Some b \<Rightarrow> int (length b))"

definition resp_pack_with_realloc :: "bool \<Rightarrow> wbuffer \<Rightarrow> resp_reply \<Rightarrow> wbuffer" where
  "resp_pack_with_realloc m w reply =
     (let needed = i32 (int (length (wdata w)) + 1024 + body_len reply) in
      if needed > wcap w then
        let new_cap = (if i32 (wcap w * 2) < needed then needed else i32 (wcap w * 2))
        in if m then \<lparr>wdata = wdata w @ resp_pack reply, wcap = new_cap\<rparr> else w
      else w\<lparr>wdata := wdata w @ resp_pack reply\<rparr>)"


section \<open>Reference encoding\<close>

text \<open>A request as a client sends it: an array of bulk strings.\<close>

definition resp_arg :: "bytes \<Rightarrow> bytes" where
  "resp_arg a = CHR ''$'' # print_int (int (length a)) @ crlf @ a @ crlf"

definition resp_args :: "bytes list \<Rightarrow> bytes" where
  "resp_args args = concat (map resp_arg args)"

definition resp_encode :: "bytes list \<Rightarrow> bytes" where
  "resp_encode args = CHR ''*'' # print_int (int (length args)) @ crlf @ resp_args args"

lemma resp_args_simps [simp]: "resp_args [] = []" "resp_args (a # as) = resp_arg a @ resp_args as"
  by (simp_all add: resp_args_def)

lemma length_resp_arg: "length (resp_arg a) = length (print_int (int (length a))) + length a + 5"
  by (simp add: resp_arg_def)

section \<open>Finding the line end\<close>

lemma find_crlf_first:
  assumes "CR \<notin> set pre" and "length pre + 2 \<le> n"
  shows "find_crlf (pre @ CR # LF # rest) n = Some (length pre)"
  using assms
proof (induction pre arbitrary: n)
  case Nil
  then obtain m where "n = Suc (Suc m)"
    by (metis add_2_eq_Suc less_eqE list.size(3) plus_nat.add_0)
  then show ?case by simp
next
  case (Cons a pre)
  then obtain m where n: "n = Suc (Suc m)" "length pre + 2 \<le> Suc m"
    by (cases n; cases "n - 1") auto
  then have "find_crlf (pre @ CR # LF # rest) (Suc m) = Some (length pre)"
    using Cons by auto
  then show ?case
    using Cons.prems n by (cases pre) auto
qed

lemma find_crlf_cut:
  assumes "CR \<notin> set pre" and "n < length pre + 2"
  shows "find_crlf (take n (pre @ CR # LF # rest) @ stale) n = None"
  using assms
proof (induction pre arbitrary: n)
  case Nil
  then have "n = 0 \<or> n = 1" by auto
  then show ?case by auto
next
  case (Cons a pre)
  show ?case
  proof (cases n)
    case (Suc m)
    then have "find_crlf (take m (pre @ CR # LF # rest) @ stale) m = None"
      using Cons by auto
    with Suc Cons.prems show ?thesis
      by (cases m; cases "take m (pre @ CR # LF # rest) @ stale") auto
  qed simp
qed

lemma find_crlf_bound: "find_crlf buf n = Some c \<Longrightarrow> c + 2 \<le> n"
  by (induction buf n arbitrary: c rule: find_crlf.induct) (fastforce split: if_splits)+

lemma find_crlf_pos: "find_crlf (x # buf) n = Some c \<Longrightarrow> x \<noteq> CR \<Longrightarrow> 0 < c"
  by (cases buf; cases n; cases "n - 1") (auto split: if_splits)

lemma print_int_no_CR: "CR \<notin> set (print_int x)"
proof -
  have "is_digit c \<Longrightarrow> c \<noteq> CR" for c
    by (auto simp: is_digit_def)
  then show ?thesis
    using dec_all_digits by (auto simp: print_int_def)
qed

lemma header_number:
  assumes "0 \<le> x" and "x < 2 ^ 31"
  shows "atoi (print_int x @ CR # rest) = x"
  using assms by (intro atoi_print_int) (simp_all add: is_digit_def)

section \<open>Complete and incomplete commands\<close>

lemma complete_args_step:
  assumes "p < n" and "buf ! p = CHR ''$''" and "find_crlf (drop p buf) (n - p) = Some c"
    and "atoi (drop (Suc p) buf) = int k"
  shows "complete_args buf n (Suc i) p =
    (if n < p + c + 2 + k + 2 then P_incomplete
     else if buf ! (p + c + 2 + k) \<noteq> CR \<or> buf ! (p + c + 2 + k + 1) \<noteq> LF then P_incomplete
     else complete_args buf n i (p + c + 2 + k + 2))"
proof -
  have e: "int (p + c + 2) + int k = int (p + c + 2 + k)"
    "int (p + c + 2 + k) + 1 = int (p + c + 2 + k + 1)" "int (p + c + 2 + k) + 2 = int (p + c + 2 + k + 2)"
    by simp_all
  have "\<not> p \<ge> n"
    using assms(1) by simp
  then show ?thesis
    unfolding complete_args.simps assms(2,3) Suc_eq_plus1 [symmetric] assms(4) option.case Let_def e
    by (simp del: of_nat_add of_nat_Suc)
qed

text \<open>What the code reads at the header line of an argument, and at its last two bytes.\<close>

lemma arg_header_at:
  assumes "drop p buf = CHR ''$'' # print_int (int k) @ CR # LF # rest" and "k < 2 ^ 31"
  shows "buf ! p = CHR ''$''" and "atoi (drop (Suc p) buf) = int k"
    and "p + length (print_int (int k)) + 3 \<le> n \<Longrightarrow>
      find_crlf (drop p buf) (n - p) = Some (Suc (length (print_int (int k))))"
proof -
  have "p \<le> length buf"
    using assms(1) by (metis drop_all linorder_linear list.distinct(1))
  then show "buf ! p = CHR ''$''"
    using assms(1) nth_drop [of p buf 0] by simp
  have "drop (Suc p) buf = print_int (int k) @ CR # LF # rest"
    using assms(1) by (metis drop_Suc list.sel(3) tl_drop)
  then show "atoi (drop (Suc p) buf) = int k"
    using assms(2) header_number [of "int k"] by simp
  show "find_crlf (drop p buf) (n - p) = Some (Suc (length (print_int (int k))))"
    if "p + length (print_int (int k)) + 3 \<le> n"
    unfolding assms(1) using that print_int_no_CR find_crlf_first [of "CHR ''$'' # print_int (int k)" "n - p"]
    by simp
qed

lemma arg_end_at:
  assumes "drop p buf = resp_arg a @ rest"
  shows "buf ! (p + Suc (length (print_int (int (length a)))) + 2 + length a) = CR"
    and "buf ! (p + Suc (length (print_int (int (length a)))) + 2 + length a + 1) = LF"
proof -
  let ?h = "CHR ''$'' # print_int (int (length a))"
  have d: "drop p buf = ?h @ CR # LF # a @ CR # LF # rest"
    using assms(1) by (simp add: resp_arg_def)
  then have plen: "p \<le> length buf"
    by (metis append_is_Nil_conv drop_all linorder_linear list.distinct(1))
  have at: "buf ! (p + j) = (?h @ CR # LF # a @ CR # LF # rest) ! j" for j
    using d nth_drop [OF plen, of j] by simp
  have e: "p + Suc (length (print_int (int (length a)))) + 2 + length a = p + (length (?h @ CR # LF # a))"
    "p + Suc (length (print_int (int (length a)))) + 2 + length a + 1 = p + Suc (length (?h @ CR # LF # a))"
    by simp_all
  show "buf ! (p + Suc (length (print_int (int (length a)))) + 2 + length a) = CR"
    unfolding e(1) at using nth_append_length [of "?h @ CR # LF # a" CR "LF # rest"] by simp
  show "buf ! (p + Suc (length (print_int (int (length a)))) + 2 + length a + 1) = LF"
    unfolding e(2) at using nth_append_length [of "?h @ CR # LF # a @ [CR]" LF rest] by simp
qed

lemma resp_arg_header: "resp_arg a @ rest = CHR ''$'' # print_int (int (length a)) @ CR # LF # (a @ crlf @ rest)"
  by (simp add: resp_arg_def)

lemma complete_args_arg:
  assumes "drop p buf = resp_arg a @ rest" and "p + length (resp_arg a) \<le> n" and "length a < 2 ^ 31"
  shows "complete_args buf n (Suc i) p = complete_args buf n i (p + length (resp_arg a))"
proof -
  note at = arg_header_at [OF assms(1) [unfolded resp_arg_header] assms(3)] arg_end_at [OF assms(1)]
  have "p < n" "p + length (print_int (int (length a))) + 3 \<le> n"
    using assms(2) by (simp_all add: length_resp_arg)
  note step = complete_args_step [OF this(1) at(1) at(3) [OF this(2)] at(2)]
  have len: "p + Suc (length (print_int (int (length a)))) + 2 + length a + 2 = p + length (resp_arg a)"
    by (simp add: length_resp_arg)
  show ?thesis
    using step [of i] at(4,5) assms(2) unfolding len by simp
qed

lemma complete_args_all:
  assumes "drop p buf = resp_args args @ rest" and "p + length (resp_args args) \<le> n"
    and "\<forall>a\<in>set args. length a < 2 ^ 31"
  shows "complete_args buf n (length args) p = P_complete (p + length (resp_args args))"
  using assms
proof (induction args arbitrary: p)
  case (Cons a args)
  have "complete_args buf n (length (a # args)) p = complete_args buf n (length args) (p + length (resp_arg a))"
    using Cons.prems complete_args_arg [of p buf a "resp_args args @ rest" n] by simp
  also have "\<dots> = P_complete (p + length (resp_arg a) + length (resp_args args))"
  proof (rule Cons.IH)
    show "drop (p + length (resp_arg a)) buf = resp_args args @ rest"
      using Cons.prems(1) by (metis add.commute append_assoc append_eq_conv_conj drop_drop resp_args_simps(2))
  qed (use Cons.prems in simp_all)
  finally show ?case by simp
qed simp


lemma resp_args_at:
  "drop p buf = resp_args (a # args) @ rest \<Longrightarrow>
   drop p buf = resp_arg a @ resp_args args @ rest \<and> drop (p + length (resp_arg a)) buf = resp_args args @ rest"
  by (metis add.commute append_assoc append_eq_conv_conj drop_drop resp_args_simps(2))

text \<open>A cut anywhere in the arguments is noticed, whatever stale bytes follow it.\<close>

lemma complete_args_cut:
  assumes "buf = take n full @ stale" and "drop p full = resp_args args" and "n \<le> length full"
    and "n < p + length (resp_args args)" and "\<forall>a\<in>set args. length a < 2 ^ 31" and "p \<le> n"
  shows "complete_args buf n (length args) p = P_incomplete"
  using assms(2,4-)
proof (induction args arbitrary: p)
  case (Cons a args)
  have at: "drop p full = resp_arg a @ resp_args args" "drop (p + length (resp_arg a)) full = resp_args args"
    using resp_args_at [of p full a args "[]"] Cons.prems(1) by simp_all
  let ?k = "length (print_int (int (length a)))" and ?q = "p + length (resp_arg a)"
  have small: "length a < 2 ^ 31"
    using Cons.prems(3) by simp
  have buf: "drop p buf = take (n - p) (resp_arg a @ resp_args args) @ stale" if "p \<le> n"
    using that assms(1,3) at(1) by (simp add: drop_take)
  consider "p \<ge> n" | "p < n" "n < p + ?k + 3" | "p + ?k + 3 \<le> n" "n < ?q" | "?q \<le> n"
    by linarith
  then show ?case
  proof cases
    case 1
    then show ?thesis by simp
  next
    case 2
    then have "find_crlf (drop p buf) (n - p) = None"
      using buf find_crlf_cut [of "CHR ''$'' # print_int (int (length a))" "n - p"] print_int_no_CR
      by (simp add: resp_arg_header)
    then show ?thesis by simp
  next
    case 3
    define m where "m = n - p - ?k - 3"
    have "n - p = Suc ?k + Suc (Suc m)"
      using 3 by (simp add: m_def)
    then have "drop p buf = CHR ''$'' # print_int (int (length a)) @ CR # LF # (take m (a @ crlf @ resp_args args) @ stale)"
      using buf 3 by (simp add: resp_arg_header)
    note h = arg_header_at [OF this small]
    have "p < n"
      using 3 by simp
    then show ?thesis
      using complete_args_step [OF _ h(1) h(3) h(2), of n] 3 by (simp add: length_resp_arg)
  next
    case 4
    then have "drop p buf = resp_arg a @ (take (n - ?q) (resp_args args) @ stale)"
      using buf by simp
    then have "complete_args buf n (Suc (length args)) p = complete_args buf n (length args) ?q"
      using 4 small by (intro complete_args_arg)
    then show ?thesis
      using Cons.IH [OF at(2)] Cons.prems 4 by (simp del: complete_args.simps)
  qed
qed simp


lemma resp_encode_split:
  "resp_encode args = (CHR ''*'' # print_int (int (length args))) @ CR # LF # resp_args args"
  by (simp add: resp_encode_def)

lemma print_int_nonempty: "0 < length (print_int x)"
  by (simp add: print_int_def)

lemma resp_encode_len: "4 \<le> length (resp_encode args)"
  using print_int_nonempty [of "int (length args)"] unfolding resp_encode_def by (simp del: length_greater_0_conv)

lemma request_header:
  assumes "length args < 2 ^ 31"
  shows "atoi (drop 1 (resp_encode args @ rest)) = int (length args)"
    and "length (print_int (int (length args))) + 3 \<le> n \<Longrightarrow>
      find_crlf (resp_encode args @ rest) n = Some (Suc (length (print_int (int (length args)))))"
  using assms header_number [of "int (length args)"] print_int_no_CR
    find_crlf_first [of "CHR ''*'' # print_int (int (length args))" n]
  by (simp_all add: resp_encode_split)

lemma has_complete_encoded:
  assumes "length args < 2 ^ 31" and "\<forall>a\<in>set args. length a < 2 ^ 31" and "length (resp_encode args) \<le> n"
  shows "has_complete_resp_command (resp_encode args @ rest) n = P_complete (length (resp_encode args))"
proof -
  let ?k = "length (print_int (int (length args)))" and ?buf = "resp_encode args @ rest"
  have len: "length (resp_encode args) = ?k + 3 + length (resp_args args)"
    by (simp add: resp_encode_def)
  have "find_crlf ?buf n = Some (Suc ?k)"
    using request_header(2) [OF assms(1), of n] assms(3) len by simp
  moreover have "complete_args ?buf n (length args) (Suc ?k + 2) = P_complete (Suc ?k + 2 + length (resp_args args))"
    using assms(2,3) len by (intro complete_args_all [of _ _ _ rest]) (simp_all add: resp_encode_def)
  ultimately show ?thesis
    using request_header(1) [OF assms(1)] len resp_encode_len [of args] assms(3)
    by (simp add: has_complete_resp_command_def) (simp add: resp_encode_def)
qed

lemma has_complete_cut:
  assumes "length args < 2 ^ 31" and "\<forall>a\<in>set args. length a < 2 ^ 31" and "n < length (resp_encode args)"
  shows "has_complete_resp_command (take n (resp_encode args) @ stale) n = P_incomplete"
proof -
  let ?k = "length (print_int (int (length args)))" and ?buf = "take n (resp_encode args) @ stale"
  show ?thesis
  proof (cases "n < ?k + 3")
    case True
    then have "find_crlf ?buf n = None"
      using find_crlf_cut [of "CHR ''*'' # print_int (int (length args))" n] print_int_no_CR
      by (simp add: resp_encode_split)
    then show ?thesis by (simp add: has_complete_resp_command_def)
  next
    case False
    define m where "m = n - ?k - 3"
    have n: "n = Suc ?k + Suc (Suc m)"
      using False by (simp add: m_def)
    have buf: "?buf = (CHR ''*'' # print_int (int (length args))) @ CR # LF # (take m (resp_args args) @ stale)"
      unfolding n by (simp add: resp_encode_split)
    have "find_crlf ?buf n = Some (Suc ?k)"
      unfolding buf using find_crlf_first [of "CHR ''*'' # print_int (int (length args))" n] print_int_no_CR n by simp
    moreover have "atoi (drop 1 ?buf) = int (length args)"
      unfolding buf using assms(1) header_number [of "int (length args)"] by simp
    moreover have "complete_args ?buf n (length args) (Suc ?k + 2) = P_incomplete"
      using assms(2,3) n
      by (intro complete_args_cut [of ?buf n "resp_encode args" stale]) (simp_all add: resp_encode_def)
    ultimately show ?thesis
      by (simp add: has_complete_resp_command_def)
  qed
qed

text \<open>What the probe accepts lies inside the received bytes and is never empty.\<close>

lemma complete_args_bound:
  "complete_args buf n i p = P_complete m \<Longrightarrow> 2 \<le> p \<Longrightarrow> p \<le> n \<Longrightarrow> 2 \<le> m \<and> m \<le> n"
proof (induction i arbitrary: p)
  case (Suc i)
  then obtain c where c: "find_crlf (drop p buf) (n - p) = Some c"
    by (auto split: if_splits option.splits)
  define q where "q = int (p + c + 2) + atoi (drop (Suc p) buf)"
  have q: "0 \<le> q" "q + 2 \<le> int n" "complete_args buf n i (nat (q + 2)) = P_complete m"
    using Suc.prems(1) c by (auto simp: q_def Let_def split: if_splits)
  then show ?case
    by (intro Suc.IH [OF q(3)]) linarith+
qed auto

lemma has_complete_bound:
  "has_complete_resp_command buf n = P_complete m \<Longrightarrow> 2 \<le> m \<and> m \<le> n"
  using complete_args_bound find_crlf_bound
  by (fastforce simp: has_complete_resp_command_def split: if_splits option.splits)


section \<open>Unpacking\<close>

text \<open>The argument \<open>i\<close> of a request: \<open>argv_len[i]\<close> bytes from \<open>argv[i]\<close>.\<close>

definition request_args :: "resp_request \<Rightarrow> bytes list" where
  "request_args req = map2 (\<lambda>n p. take (nat n) p) (rargv_len req) (rargv req)"

text \<open>The pointers to the arguments of an encoded request: each argument with all that follows it.\<close>

fun arg_ptrs :: "bytes list \<Rightarrow> bytes \<Rightarrow> bytes list" where
  "arg_ptrs [] rest = []"
| "arg_ptrs (a # args) rest = (a @ crlf @ resp_args args @ rest) # arg_ptrs args rest"

lemma length_arg_ptrs [simp]: "length (arg_ptrs args rest) = length args"
  by (induction args) simp_all

definition parsed_request :: "bytes list \<Rightarrow> bytes \<Rightarrow> resp_request" where
  "parsed_request args rest =
     \<lparr>argc = int (length args), rargv = arg_ptrs args rest, rargv_len = map (int \<circ> length) args,
      is_dynamic = (int (length args) > RESP_STATIC_ARGC)\<rparr>"

lemma unpack_args_all:
  assumes "drop p buf = resp_args args @ rest" and "p + length (resp_args args) \<le> n"
    and "\<forall>a\<in>set args. length a < 2 ^ 31"
  shows "unpack_args buf n (length args) (int p) = zip (arg_ptrs args rest) (map (int \<circ> length) args)"
  using assms
proof (induction args arbitrary: p)
  case (Cons a args)
  let ?k = "length (print_int (int (length a)))"
  have at: "drop p buf = resp_arg a @ (resp_args args @ rest)"
    "drop (p + length (resp_arg a)) buf = resp_args args @ rest"
    using resp_args_at [OF Cons.prems(1)] by simp_all
  note h = arg_header_at [OF at(1) [unfolded resp_arg_header]]
  have small: "length a < 2 ^ 31" and fits: "p + ?k + 3 \<le> n"
    using Cons.prems(2,3) by (simp_all add: length_resp_arg)
  have pos: "nat (int p) = p" "nat (int n - int p) = n - p" "nat (int p + int (Suc ?k) + 2) = p + (?k + 3)"
    "int p + int (Suc ?k) + 2 + int (length a) + 2 = int (p + length (resp_arg a))"
    using fits by (simp_all add: length_resp_arg)
  have "drop (p + (?k + 3)) buf = drop (?k + 3) (drop p buf)"
    by (simp add: add.commute)
  then have ptr: "drop (p + (?k + 3)) buf = a @ crlf @ resp_args args @ rest"
    unfolding at(1) by (simp add: resp_arg_def numeral_3_eq_3)
  have "unpack_args buf n (length args) (int (p + length (resp_arg a))) = zip (arg_ptrs args rest) (map (int \<circ> length) args)"
    using Cons.prems by (intro Cons.IH [OF at(2)]) simp_all
  then show ?case
    using h(2) [OF small] h(3) [OF small fits] ptr
    by (simp only: list.size(4) Suc_eq_plus1 [symmetric] unpack_args.simps pos option.case Let_def
        add_0_right add_Suc_right list.map zip_Cons_Cons comp_def arg_ptrs.simps)
qed simp

lemma resp_unpack_encoded:
  assumes "length args < 2 ^ 31" and "\<forall>a\<in>set args. length a < 2 ^ 31"
    and "int (length args) > RESP_STATIC_ARGC \<longrightarrow> ok 0 \<and> ok 1"
  shows "resp_unpack_no_modify ok (resp_encode args @ rest) (length (resp_encode args)) = Some (parsed_request args rest)"
proof -
  let ?k = "length (print_int (int (length args)))" and ?buf = "resp_encode args @ rest"
  let ?n = "length (resp_encode args)"
  have len: "?n = ?k + 3 + length (resp_args args)"
    by (simp add: resp_encode_def)
  have args: "unpack_args ?buf ?n (length args) (int (?k + 3)) = zip (arg_ptrs args rest) (map (int \<circ> length) args)"
    using assms(2) len by (intro unpack_args_all [of _ _ _ rest]) (simp_all add: resp_encode_def numeral_3_eq_3)
  have e: "int (Suc ?k) + 2 = int (?k + 3)"
    by simp
  show ?thesis
    using request_header [OF assms(1)] args len assms(3)
    unfolding resp_unpack_no_modify_def parsed_request_def
    by (auto simp: Let_def e simp del: of_nat_Suc of_nat_add)
qed

lemma request_args_parsed: "request_args (parsed_request args rest) = args"
  unfolding request_args_def parsed_request_def by (induction args) simp_all

section \<open>Replies\<close>

lemma resp_pack_len: "length (resp_pack reply) \<le> 40 + nat (body_len reply) \<or> length (print_int (body_len reply)) > 20"
  by (cases "status reply") (auto simp: resp_pack_def body_len_def split: option.splits)

lemma dec_length: "n < 10 ^ w \<Longrightarrow> 0 < w \<Longrightarrow> length (dec n) \<le> w"
  using length_digs [of w n] lpad0_dec [of n w] by (auto simp: lpad0_def dest!: arg_cong [of _ _ length])

lemma resp_pack_fits:
  assumes "body_len reply < 2 ^ 31"
  shows "int (length (resp_pack reply)) + 1 \<le> 1024 + body_len reply"
proof -
  have pos: "0 \<le> body_len reply"
    by (simp add: body_len_def split: option.split)
  then have "length (print_int (body_len reply)) \<le> 10"
    using assms dec_length [of "nat (body_len reply)" 10] by (simp add: print_int_def)
  then show ?thesis
    using resp_pack_len [of reply] pos by linarith
qed


lemma print_int_1: "print_int 1 = ''1''"
proof -
  have "digit 1 = CHR ''1''"
    by code_simp
  then show ?thesis
    by (simp add: print_int_def) (subst dec.simps, simp)
qed

section \<open>Properties\<close>

text \<open>
  C14. Request round trip: a request as a client encodes it, followed by any further bytes, is
  recognised as complete with exactly its own length, and unpacking it gives back its arguments,
  binary data included.
\<close>

theorem request_roundtrip:
  assumes "length args < 2 ^ 31" and "\<forall>a\<in>set args. length a < 2 ^ 31"
  shows "has_complete_resp_command (resp_encode args @ rest) (length (resp_encode args @ rest)) =
      P_complete (length (resp_encode args)) \<and>
    (\<exists>req. resp_unpack_no_modify always_ok (resp_encode args @ rest) (length (resp_encode args)) = Some req \<and>
      argc req = int (length args) \<and> request_args req = args)"
  using has_complete_encoded [OF assms, of "length (resp_encode args @ rest)" rest]
    resp_unpack_encoded [OF assms, of always_ok rest] request_args_parsed
  by (auto simp: parsed_request_def)

theorem request_roundtrip_witness:
  "has_complete_resp_command (resp_encode [''GET'', ''k''] @ ''*1'') (length (resp_encode [''GET'', ''k''] @ ''*1'')) =
    P_complete (length (resp_encode [''GET'', ''k'']))"
  using request_roundtrip [of "[''GET'', ''k'']" "''*1''"] by simp

text \<open>
  A request of which only a proper prefix has arrived is never executed: whatever stale
  bytes lie behind the received ones, the probe answers incomplete.
\<close>

theorem half_packet_waits:
  assumes "length args < 2 ^ 31" and "\<forall>a\<in>set args. length a < 2 ^ 31" and "n < length (resp_encode args)"
  shows "has_complete_resp_command (take n (resp_encode args) @ stale) n = P_incomplete"
  using assms by (rule has_complete_cut)

theorem half_packet_waits_witness:
  "has_complete_resp_command (take 9 (resp_encode [''GET'', ''k'']) @ ''xyz'') 9 = P_incomplete"
proof -
  have "9 < length (resp_encode [''GET'', ''k''])"
    using print_int_nonempty [of 2] print_int_nonempty [of 3]
    by (simp add: resp_encode_def resp_arg_def del: length_greater_0_conv)
  then show ?thesis
    using half_packet_waits [of "[''GET'', ''k'']" 9 "''xyz''"] by simp
qed

text \<open>
  C15. The reply encoder stays inside the send buffer: as long as the needed size fits an
  \<open>int\<close>, the used bytes and the NUL byte that \<open>sprintf\<close> adds fit the capacity after every reply,
  and the reply is appended whole unless the buffer had to grow and could not.
\<close>

theorem send_buffer_bounds:
  assumes "int (length (wdata w)) + 1 \<le> wcap w"
    and "int (length (wdata w)) + 1024 + body_len reply < 2 ^ 31"
  shows "int (length (wdata (resp_pack_with_realloc m w reply))) + 1 \<le> wcap (resp_pack_with_realloc m w reply) \<and>
    (wdata (resp_pack_with_realloc m w reply) =
       (if \<not> m \<and> wcap w < int (length (wdata w)) + 1024 + body_len reply then wdata w
        else wdata w @ resp_pack reply))"
proof -
  have pos: "0 \<le> body_len reply"
    by (simp add: body_len_def split: option.split)
  have needed: "i32 (int (length (wdata w)) + 1024 + body_len reply) = int (length (wdata w)) + 1024 + body_len reply"
    using pos assms(2) by (intro i32_id) linarith+
  have "int (length (resp_pack reply)) + 1 \<le> 1024 + body_len reply"
    using assms(2) by (intro resp_pack_fits) linarith
  then show ?thesis
    using assms(1) unfolding resp_pack_with_realloc_def needed Let_def by auto
qed

theorem send_buffer_bounds_witness:
  "wdata (resp_pack_with_realloc True \<lparr>wdata = [], wcap = 16\<rparr> \<lparr>status = KVS_RESP_OK, body = None\<rparr>) = ''+OK'' @ crlf"
  using send_buffer_bounds [of "\<lparr>wdata = [], wcap = 16\<rparr>" "\<lparr>status = KVS_RESP_OK, body = None\<rparr>" True]
  by (simp add: body_len_def resp_pack_def)

text \<open>
  C16. A malformed length is not rejected: a request whose only argument announces a negative
  length that reaches back before the start of the buffer makes the probe read in front of the
  receive buffer.
\<close>

theorem negative_length_reads_outside:
  assumes "0 < k" and "k \<le> 2 ^ 31" and "int (length (print_int (- int k))) + 7 < int k"
    and "n = length (''*1'' @ crlf @ CHR ''$'' # print_int (- int k) @ crlf @ rest)"
  shows "has_complete_resp_command (''*1'' @ crlf @ CHR ''$'' # print_int (- int k) @ crlf @ rest) n = P_fault"
proof -
  let ?h = "CHR ''$'' # print_int (- int k)"
  let ?buf = "''*1'' @ CR # LF # ?h @ CR # LF # rest"
  have h: "CR \<notin> set ?h"
    using print_int_no_CR by simp
  have "find_crlf ?buf n = Some 2"
    using find_crlf_first [of "''*1''" n] assms(4) by simp
  moreover have "find_crlf (drop 4 ?buf) (n - 4) = Some (length ?h)"
    using find_crlf_first [OF h, of "n - 4" rest] assms(4) by simp
  moreover have "atoi (drop 1 ?buf) = 1"
    using header_number [of 1 "LF # ?h @ CR # LF # rest"] by (simp add: print_int_1)
  moreover have "atoi (drop 5 ?buf) = - int k"
    using assms(1,2) atoi_print_int [of "- int k" "CR # LF # rest"] by (simp add: is_digit_def)
  ultimately show ?thesis
    using assms(3,4)
    by (simp add: has_complete_resp_command_def numeral_eq_Suc Let_def)
qed

theorem negative_length_reads_outside_witness:
  "has_complete_resp_command (''*1'' @ crlf @ CHR ''$'' # print_int (- int 100) @ crlf @ [])
     (length (''*1'' @ crlf @ CHR ''$'' # print_int (- int 100) @ crlf @ [])) = P_fault"
proof (rule negative_length_reads_outside)
  show "int (length (print_int (- int 100))) + 7 < int 100"
    using dec_length [of 100 3] by (simp add: print_int_def)
qed simp_all

end
