(* ===== verification/Aof.thy ===== *)
theory Aof
  imports Kvs_Prelude
begin

text \<open>
  The append-only log of \<^verbatim>\<open>persistence.c\<close>: two memory buffers, one of which is written to the
  file by an asynchronous \<open>io_uring\<close> request while commands are appended to the other. What the
  kernel does is an argument of the operations: whether a submission slot is free, whether a
  completion is there, and the result it carries. The kernel reads the flush buffer when the
  request completes, so a buffer that was reused too early would show in the file.

  The lemmas show that the file, the bytes being written and the waiting bytes together are
  always the sequence of logged records, that a writer facing a full buffer gets through, and
  that closing the log after a flush does not return.
\<close>

definition AOF_BUF_SIZE :: nat where
  "AOF_BUF_SIZE = 64 * 1024 * 1024"

definition AOF_MIN_FLUSH_SIZE :: nat where
  "AOF_MIN_FLUSH_SIZE = 16 * 1024"

definition AOF_FLUSH_TIMEOUT_MS :: int where
  "AOF_FLUSH_TIMEOUT_MS = 10"

text \<open>
  \<open>aof_open\<close> is \<open>aof_fd >= 0\<close>; the two buffers are their first \<open>len\<close> bytes. \<open>aof_file\<close> and
  \<open>aof_inflight\<close> are the kernel's side: the contents of the file and whether a submitted write
  has not completed yet. The file is opened with \<open>O_APPEND\<close>, so a write goes to its end.
\<close>

record aof =
  aof_open :: bool
  aof_buf_active :: bytes
  aof_buf_flush :: bytes
  is_io_uring_busy :: bool
  aof_file_offset :: nat
  g_last_flush_time_ms :: int
  aof_file :: bytes
  aof_inflight :: bool

definition aof_static :: aof where
  "aof_static = \<lparr>aof_open = False, aof_buf_active = [], aof_buf_flush = [], is_io_uring_busy = False,
     aof_file_offset = 0, g_last_flush_time_ms = 0, aof_file = [], aof_inflight = False\<rparr>"

text \<open>
  \<open>kvs_persistence_init\<close>: \<open>opened\<close>, \<open>stat_ok\<close> and \<open>ring_ok\<close> are the outcomes of \<open>open\<close>, \<open>fstat\<close> and
  \<open>io_uring_queue_init\<close>, \<open>ok\<close> those of the two allocations. The descriptor keeps its number when a
  later step fails and the file is closed again.
\<close>

definition kvs_persistence_init :: "bool \<Rightarrow> bool \<Rightarrow> bool \<Rightarrow> alloc_env \<Rightarrow> aof \<Rightarrow> int \<times> aof" where
  "kvs_persistence_init opened stat_ok ring_ok ok a =
     (if \<not> opened then (-1, a\<lparr>aof_open := False\<rparr>)
      else
        let a1 = a\<lparr>aof_open := True, aof_file_offset := (if stat_ok then length (aof_file a) else 0),
                   is_io_uring_busy := False, aof_buf_active := [], aof_buf_flush := []\<rparr>
        in if \<not> (ok 0 \<and> ok 1) \<or> \<not> ring_ok then (-1, a1) else (0, a1))"

definition aof_trigger_flush_nolock :: "bool \<Rightarrow> aof \<Rightarrow> aof" where
  "aof_trigger_flush_nolock sqe a =
     (if aof_buf_active a = [] \<or> is_io_uring_busy a then a
      else if \<not> sqe then a
      else a\<lparr>aof_buf_active := [], aof_buf_flush := aof_buf_active a, is_io_uring_busy := True,
             aof_file_offset := aof_file_offset a + length (aof_buf_active a), aof_inflight := True\<rparr>)"

text \<open>
  The kernel completes the write with result \<open>res\<close> (the number of bytes written, negative on
  failure) and the program reaps the completion.
\<close>

definition complete_write :: "int \<Rightarrow> aof \<Rightarrow> aof" where
  "complete_write res a = a\<lparr>aof_file := aof_file a @ take (nat res) (aof_buf_flush a), aof_inflight := False\<rparr>"

text \<open>\<open>cqe\<close> is the result of the completion that \<open>io_uring_peek_cqe\<close> finds, if any.\<close>

definition aof_check_cqe_nonblock :: "int option \<Rightarrow> bool \<Rightarrow> aof \<Rightarrow> aof" where
  "aof_check_cqe_nonblock cqe sqe a =
     (if \<not> is_io_uring_busy a then a
      else case (if aof_inflight a then cqe else None) of
        None \<Rightarrow> a
      | Some res \<Rightarrow>
          let a1 = (complete_write res a)\<lparr>is_io_uring_busy := False, aof_buf_flush := []\<rparr>
          in if length (aof_buf_active a1) \<ge> AOF_MIN_FLUSH_SIZE then aof_trigger_flush_nolock sqe a1 else a1)"

text \<open>
  What the kernel does in one round of the waiting loop of \<open>kvs_persistence_write\<close>: the
  completion found by the peek, the one \<open>io_uring_wait_cqe\<close> returns (\<open>None\<close> when it fails, as on
  a signal) and whether the two requests for a submission slot succeed.
\<close>

record aof_round =
  ev_peek :: "int option"
  ev_sqe1 :: bool
  ev_wait :: "int option"
  ev_sqe2 :: bool

definition aof_wait_round :: "aof_round \<Rightarrow> aof \<Rightarrow> aof" where
  "aof_wait_round ev a =
     (let a1 = aof_check_cqe_nonblock (ev_peek ev) (ev_sqe1 ev) a;
          a2 = (if is_io_uring_busy a1 then
                  (case ev_wait ev of
                     None \<Rightarrow> a1
                   | Some res \<Rightarrow> (complete_write res a1)\<lparr>is_io_uring_busy := False, aof_buf_flush := []\<rparr>)
                else a1)
      in aof_trigger_flush_nolock (ev_sqe2 ev) a2)"

text \<open>\<open>None\<close>: the loop is still waiting after the given rounds.\<close>

fun aof_make_room :: "aof_round list \<Rightarrow> nat \<Rightarrow> aof \<Rightarrow> aof option" where
  "aof_make_room evs len a =
     (if length (aof_buf_active a) + len > AOF_BUF_SIZE then
        (case evs of [] \<Rightarrow> None | ev # evs' \<Rightarrow> aof_make_room evs' len (aof_wait_round ev a))
      else Some a)"

declare aof_make_room.simps [simp del]

definition kvs_persistence_write :: "aof_round list \<Rightarrow> bytes \<Rightarrow> aof \<Rightarrow> aof option" where
  "kvs_persistence_write evs data a =
     (if \<not> aof_open a \<or> data = [] then Some a
      else if length data > AOF_BUF_SIZE then Some a
      else map_option (\<lambda>a'. a'\<lparr>aof_buf_active := aof_buf_active a' @ data\<rparr>) (aof_make_room evs (length data) a))"

definition kvs_persistence_flush_pending :: "int \<Rightarrow> int option \<Rightarrow> bool \<Rightarrow> bool \<Rightarrow> aof \<Rightarrow> aof" where
  "kvs_persistence_flush_pending now cqe sqe1 sqe2 a =
     (if \<not> aof_open a then a
      else
        let a1 = aof_check_cqe_nonblock cqe sqe1 a;
            need_flush_by_size = (length (aof_buf_active a1) \<ge> AOF_MIN_FLUSH_SIZE);
            need_flush_by_time = (aof_buf_active a1 \<noteq> [] \<and>
              (now - g_last_flush_time_ms a1) mod 2 ^ 64 \<ge> AOF_FLUSH_TIMEOUT_MS)
        in if \<not> is_io_uring_busy a1 \<and> (need_flush_by_size \<or> need_flush_by_time)
           then (aof_trigger_flush_nolock sqe2 a1)\<lparr>g_last_flush_time_ms := now\<rparr>
           else a1)"

definition kvs_persistence_force_flush :: "int \<Rightarrow> int option \<Rightarrow> bool \<Rightarrow> bool \<Rightarrow> aof \<Rightarrow> aof" where
  "kvs_persistence_force_flush now cqe sqe1 sqe2 a =
     (if \<not> aof_open a then a
      else
        let a1 = aof_check_cqe_nonblock cqe sqe1 a
        in if \<not> is_io_uring_busy a1 \<and> aof_buf_active a1 \<noteq> []
           then (aof_trigger_flush_nolock sqe2 a1)\<lparr>g_last_flush_time_ms := now\<rparr>
           else a1)"

text \<open>
  Step 3 of \<open>kvs_persistence_close\<close>: the loop waits as long as \<open>is_io_uring_busy\<close> is set and does
  not clear it. A list entry says what the next \<open>io_uring_wait_cqe\<close> does: return the
  completion of the write in flight with a result, or fail (\<open>None\<close>). Without a write in flight
  there is no completion to return; \<open>None\<close> as a result of the function: the call never returns.
\<close>

fun aof_close_wait :: "int option list \<Rightarrow> aof \<Rightarrow> aof option" where
  "aof_close_wait waits a =
     (if \<not> is_io_uring_busy a then Some a
      else case waits of
        [] \<Rightarrow> None
      | None # ws \<Rightarrow> Some a
      | Some res # ws \<Rightarrow> if aof_inflight a then aof_close_wait ws (complete_write res a) else None)"

declare aof_close_wait.simps [simp del]

text \<open>
  Step 4: the rest of the active buffer, by the ring (\<open>fin\<close> is the result of that write, \<open>None\<close>
  when the wait fails) or, without a slot or after a failed write, by \<open>pwrite\<close> with result \<open>pw\<close>.
\<close>

definition aof_close_rest :: "bool \<Rightarrow> int option \<Rightarrow> int \<Rightarrow> aof \<Rightarrow> aof" where
  "aof_close_rest sqe fin pw a =
     (if aof_buf_active a = [] then a
      else
        let data = aof_buf_active a;
            a1 = (if sqe then
                    (let a2 = a\<lparr>aof_file_offset := aof_file_offset a + length data\<rparr>
                     in case fin of
                          None \<Rightarrow> a2
                        | Some res \<Rightarrow> a2\<lparr>aof_file := aof_file a @ take (nat (if res < 0 then pw else res)) data\<rparr>)
                  else a\<lparr>aof_file := aof_file a @ take (nat pw) data,
                         aof_file_offset := aof_file_offset a + nat (if pw < 0 then 0 else pw)\<rparr>)
        in a1\<lparr>aof_buf_active := []\<rparr>)"

definition kvs_persistence_close ::
  "int option \<Rightarrow> bool \<Rightarrow> bool \<Rightarrow> int option list \<Rightarrow> bool \<Rightarrow> int option \<Rightarrow> int \<Rightarrow> aof \<Rightarrow> aof option" where
  "kvs_persistence_close cqe sqe1 sqe2 waits sqe3 fin pw a =
     (let a1 = aof_check_cqe_nonblock cqe sqe1 a;
          a2 = (if \<not> is_io_uring_busy a1 \<and> aof_buf_active a1 \<noteq> [] then aof_trigger_flush_nolock sqe2 a1 else a1)
      in case aof_close_wait waits a2 of
           None \<Rightarrow> None
         | Some a3 \<Rightarrow>
             Some ((aof_close_rest sqe3 fin pw (a3\<lparr>is_io_uring_busy := False, aof_buf_flush := []\<rparr>))\<lparr>aof_open := False\<rparr>))"


section \<open>Invariant\<close>

text \<open>The logical log: what is in the file, what is being written and what waits.\<close>

definition aof_log :: "aof \<Rightarrow> bytes" where
  "aof_log a = aof_file a @ aof_buf_flush a @ aof_buf_active a"

definition aof_ok :: "aof \<Rightarrow> bool" where
  "aof_ok a \<longleftrightarrow> is_io_uring_busy a = aof_inflight a \<and> (\<not> is_io_uring_busy a \<longrightarrow> aof_buf_flush a = []) \<and>
     length (aof_buf_active a) \<le> AOF_BUF_SIZE \<and> length (aof_buf_flush a) \<le> AOF_BUF_SIZE \<and>
     aof_file_offset a = length (aof_file a) + length (aof_buf_flush a)"

text \<open>A completion without error and without a short write.\<close>

definition full_write :: "int option \<Rightarrow> aof \<Rightarrow> bool" where
  "full_write r a \<longleftrightarrow> (case r of None \<Rightarrow> True | Some res \<Rightarrow> res = int (length (aof_buf_flush a)))"

fun rounds_full :: "aof_round list \<Rightarrow> aof \<Rightarrow> bool" where
  "rounds_full [] a = True"
| "rounds_full (ev # evs) a \<longleftrightarrow>
     full_write (ev_peek ev) a \<and> full_write (ev_wait ev) (aof_check_cqe_nonblock (ev_peek ev) (ev_sqe1 ev) a) \<and>
     rounds_full evs (aof_wait_round ev a)"

definition same_log :: "aof \<Rightarrow> aof \<Rightarrow> bool" where
  "same_log a a' \<longleftrightarrow> aof_ok a' \<and> aof_log a' = aof_log a \<and> aof_open a' = aof_open a"

lemma same_log_trans: "same_log a b \<Longrightarrow> same_log b c \<Longrightarrow> same_log a c"
  by (simp add: same_log_def)

lemma same_log_refl: "aof_ok a \<Longrightarrow> same_log a a"
  by (simp add: same_log_def)

lemma same_log_okD: "same_log a b \<Longrightarrow> aof_ok b"
  by (simp add: same_log_def)

lemma trigger_same_log: "aof_ok a \<Longrightarrow> same_log a (aof_trigger_flush_nolock sqe a)"
  by (auto simp: same_log_def aof_ok_def aof_log_def aof_trigger_flush_nolock_def)

lemma complete_same_log:
  assumes "aof_ok a" and "is_io_uring_busy a" and "full_write (Some res) a"
  shows "same_log a ((complete_write res a)\<lparr>is_io_uring_busy := False, aof_buf_flush := []\<rparr>)"
  using assms by (auto simp: same_log_def aof_ok_def aof_log_def complete_write_def full_write_def)

lemma check_same_log:
  assumes "aof_ok a" and "full_write cqe a"
  shows "same_log a (aof_check_cqe_nonblock cqe sqe a)"
proof (cases "is_io_uring_busy a \<and> cqe \<noteq> None")
  case True
  then obtain res where res: "cqe = Some res" and busy: "is_io_uring_busy a"
    by auto
  note reaped = complete_same_log [OF assms(1) busy assms(2) [unfolded res]]
  note flushed = same_log_trans [OF reaped trigger_same_log [OF same_log_okD [OF reaped], of sqe]]
  have "aof_inflight a"
    using assms(1) busy by (simp add: aof_ok_def)
  then show ?thesis
    using res busy reaped flushed by (simp add: aof_check_cqe_nonblock_def Let_def)
next
  case False
  then show ?thesis
    using same_log_refl [OF assms(1)] by (auto simp: aof_check_cqe_nonblock_def split: option.split)
qed

lemma wait_round_same_log:
  assumes "aof_ok a" and "full_write (ev_peek ev) a"
    and "full_write (ev_wait ev) (aof_check_cqe_nonblock (ev_peek ev) (ev_sqe1 ev) a)"
  shows "same_log a (aof_wait_round ev a)"
proof -
  let ?a1 = "aof_check_cqe_nonblock (ev_peek ev) (ev_sqe1 ev) a"
  define a2 where "a2 = (if is_io_uring_busy ?a1 then
    (case ev_wait ev of None \<Rightarrow> ?a1
     | Some res \<Rightarrow> (complete_write res ?a1)\<lparr>is_io_uring_busy := False, aof_buf_flush := []\<rparr>) else ?a1)"
  have a1: "same_log a ?a1"
    using assms(1,2) by (rule check_same_log)
  have "same_log ?a1 a2"
    using complete_same_log [OF same_log_okD [OF a1]] assms(3) same_log_refl [OF same_log_okD [OF a1]]
    by (auto simp: a2_def split: option.split)
  with a1 have "same_log a a2"
    by (rule same_log_trans)
  moreover have "aof_wait_round ev a = aof_trigger_flush_nolock (ev_sqe2 ev) a2"
    by (simp add: aof_wait_round_def a2_def Let_def)
  ultimately show ?thesis
    using same_log_trans [OF _ trigger_same_log] same_log_okD by metis
qed

lemma make_room_same_log:
  assumes "aof_make_room evs len a = Some a'" and "aof_ok a" and "rounds_full evs a"
  shows "same_log a a' \<and> length (aof_buf_active a') + len \<le> AOF_BUF_SIZE"
  using assms
proof (induction evs len a rule: aof_make_room.induct)
  case (1 evs len a)
  show ?case
  proof (cases "length (aof_buf_active a) + len > AOF_BUF_SIZE")
    case True
    with "1.prems"(1) obtain ev evs' where evs: "evs = ev # evs'"
      and rest: "aof_make_room evs' len (aof_wait_round ev a) = Some a'"
      by (auto simp: aof_make_room.simps [of evs] split: list.splits)
    have round: "same_log a (aof_wait_round ev a)"
      using "1.prems"(2,3) evs by (intro wait_round_same_log) simp_all
    then show ?thesis
      using "1.IH" [OF True evs rest same_log_okD [OF round]] "1.prems"(3) evs same_log_trans [OF round]
      by simp
  next
    case False
    then show ?thesis
      using "1.prems" same_log_refl by (auto simp: aof_make_room.simps [of evs])
  qed
qed

lemma persistence_write_log:
  assumes "kvs_persistence_write evs data a = Some a'" and "aof_ok a" and "rounds_full evs a"
    and "aof_open a" and "length data \<le> AOF_BUF_SIZE"
  shows "aof_ok a' \<and> aof_open a' \<and> aof_log a' = aof_log a @ data"
proof (cases "data = []")
  case True
  then show ?thesis
    using assms by (simp add: kvs_persistence_write_def)
next
  case False
  then obtain a1 where a1: "aof_make_room evs (length data) a = Some a1"
    and a': "a' = a1\<lparr>aof_buf_active := aof_buf_active a1 @ data\<rparr>"
    using assms(1,4,5) by (auto simp: kvs_persistence_write_def)
  show ?thesis
    using make_room_same_log [OF a1 assms(2,3)] assms(4)
    by (auto simp: a' same_log_def aof_ok_def aof_log_def)
qed

lemma timestamp_same_log: "same_log a b \<Longrightarrow> same_log a (b\<lparr>g_last_flush_time_ms := t\<rparr>)"
  by (auto simp: same_log_def aof_ok_def aof_log_def)

lemma check_trigger_same_log:
  assumes "aof_ok a" and "full_write cqe a"
  shows "same_log a (aof_trigger_flush_nolock sqe2 (aof_check_cqe_nonblock cqe sqe1 a))"
  using check_same_log [OF assms, of sqe1] same_log_trans trigger_same_log same_log_okD by metis

lemmas flush_same_log = check_same_log check_trigger_same_log timestamp_same_log [OF check_trigger_same_log] same_log_refl

lemma flush_pending_same_log:
  "aof_ok a \<Longrightarrow> full_write cqe a \<Longrightarrow> same_log a (kvs_persistence_flush_pending now cqe sqe1 sqe2 a)"
  unfolding kvs_persistence_flush_pending_def Let_def using flush_same_log by auto

lemma force_flush_same_log:
  "aof_ok a \<Longrightarrow> full_write cqe a \<Longrightarrow> same_log a (kvs_persistence_force_flush now cqe sqe1 sqe2 a)"
  unfolding kvs_persistence_force_flush_def Let_def using flush_same_log by auto


section \<open>Runs\<close>

text \<open>The operations of the server on the open log, with the records accepted so far.\<close>

inductive aof_run :: "aof \<Rightarrow> bytes list \<Rightarrow> aof \<Rightarrow> bool" for a0 where
  start: "aof_run a0 [] a0"
| append: "aof_run a0 recs a \<Longrightarrow> length data \<le> AOF_BUF_SIZE \<Longrightarrow> rounds_full evs a \<Longrightarrow>
    kvs_persistence_write evs data a = Some a' \<Longrightarrow> aof_run a0 (recs @ [data]) a'"
| pending: "aof_run a0 recs a \<Longrightarrow> full_write cqe a \<Longrightarrow>
    aof_run a0 recs (kvs_persistence_flush_pending now cqe sqe1 sqe2 a)"
| force: "aof_run a0 recs a \<Longrightarrow> full_write cqe a \<Longrightarrow>
    aof_run a0 recs (kvs_persistence_force_flush now cqe sqe1 sqe2 a)"

lemma aof_run_log:
  "aof_run a0 recs a \<Longrightarrow> aof_ok a0 \<Longrightarrow> aof_open a0 \<Longrightarrow>
   aof_ok a \<and> aof_open a \<and> aof_log a = aof_log a0 @ concat recs"
proof (induction rule: aof_run.induct)
  case (append recs a data evs a')
  then show ?case
    using persistence_write_log [of evs data a a'] by simp
next
  case (pending recs a cqe now sqe1 sqe2)
  then show ?case
    using flush_pending_same_log [of a cqe now sqe1 sqe2] by (auto simp: same_log_def)
next
  case (force recs a cqe now sqe1 sqe2)
  then show ?case
    using force_flush_same_log [of a cqe now sqe1 sqe2] by (auto simp: same_log_def)
qed simp

lemma wait_round_empties:
  assumes "ev_wait ev \<noteq> None" and "ev_sqe2 ev"
  shows "aof_buf_active (aof_wait_round ev a) = []"
  using assms by (auto simp: aof_wait_round_def Let_def aof_trigger_flush_nolock_def complete_write_def)

lemma make_room_returns:
  "\<exists>ev\<in>set evs. ev_wait ev \<noteq> None \<and> ev_sqe2 ev \<Longrightarrow> len \<le> AOF_BUF_SIZE \<Longrightarrow>
   \<exists>a'. aof_make_room evs len a = Some a'"
proof (induction evs arbitrary: a)
  case (Cons ev evs)
  show ?case
  proof (cases "ev_wait ev \<noteq> None \<and> ev_sqe2 ev")
    case True
    then have "aof_buf_active (aof_wait_round ev a) = []"
      using wait_round_empties by blast
    then have "aof_make_room evs len (aof_wait_round ev a) = Some (aof_wait_round ev a)"
      using Cons.prems(2) by (simp add: aof_make_room.simps [of evs])
    then show ?thesis
      by (subst aof_make_room.simps) simp
  next
    case False
    then show ?thesis
      using Cons.IH [of "aof_wait_round ev a"] Cons.prems by (subst aof_make_room.simps) auto
  qed
qed simp

lemma close_wait_hangs:
  "is_io_uring_busy a \<Longrightarrow> None \<notin> set waits \<Longrightarrow> aof_close_wait waits a = None"
proof (induction waits arbitrary: a)
  case Nil
  then show ?case by (simp add: aof_close_wait.simps)
next
  case (Cons w ws)
  then obtain res where "w = Some res"
    by (cases w) auto
  with Cons show ?case
    by (subst aof_close_wait.simps) (auto simp: complete_write_def)
qed

section \<open>Properties\<close>

text \<open>
  C17. The log loses, duplicates and reorders nothing: whatever the interleaving of appends,
  timed flushes and forced flushes with completions of the kernel that report full writes, the
  file followed by the bytes in flight and the waiting bytes is the old log followed by the
  appended records in order; the file offset is exact and no buffer overflows.
\<close>

theorem aof_no_loss:
  assumes "aof_ok a0" and "aof_open a0" and "aof_run a0 recs a"
  shows "aof_file a @ aof_buf_flush a @ aof_buf_active a =
      aof_file a0 @ aof_buf_flush a0 @ aof_buf_active a0 @ concat recs \<and>
    aof_file_offset a = length (aof_file a) + length (aof_buf_flush a) \<and>
    length (aof_buf_active a) \<le> AOF_BUF_SIZE \<and> length (aof_buf_flush a) \<le> AOF_BUF_SIZE"
  using aof_run_log [OF assms(3,1,2)] by (simp add: aof_log_def aof_ok_def)

definition aof_demo :: aof where
  "aof_demo = snd (kvs_persistence_init True True True always_ok aof_static)"

definition aof_demo1 :: aof where
  "aof_demo1 = kvs_persistence_force_flush 5 None True True (aof_demo\<lparr>aof_buf_active := ''ab''\<rparr>)"

lemma aof_demo_ok: "aof_ok aof_demo" "aof_open aof_demo"
  by (simp_all add: aof_demo_def kvs_persistence_init_def aof_static_def aof_ok_def)

lemma aof_demo_write:
  "kvs_persistence_write [] data (aof_demo\<lparr>aof_buf_active := x\<rparr>) = Some (aof_demo\<lparr>aof_buf_active := x @ data\<rparr>)"
  if "length x + length data < 5"
  using that by (simp add: kvs_persistence_write_def aof_demo_def kvs_persistence_init_def aof_static_def
      aof_make_room.simps AOF_BUF_SIZE_def)

theorem aof_no_loss_witness: "aof_buf_flush aof_demo1 = ''ab'' \<and> aof_file_offset aof_demo1 = 2"
proof -
  have "aof_run aof_demo ([] @ [''ab'']) (aof_demo\<lparr>aof_buf_active := ''ab''\<rparr>)"
  proof (rule aof_run.append [OF aof_run.start])
    show "kvs_persistence_write [] ''ab'' aof_demo = Some (aof_demo\<lparr>aof_buf_active := ''ab''\<rparr>)"
      using aof_demo_write [of "[]" "''ab''"] by (simp add: aof_demo_def kvs_persistence_init_def aof_static_def)
  qed (simp_all add: AOF_BUF_SIZE_def)
  then have "aof_run aof_demo [''ab''] aof_demo1"
    unfolding aof_demo1_def by (intro aof_run.force) (simp_all add: full_write_def)
  from aof_no_loss [OF aof_demo_ok this] show ?thesis
    by (simp add: aof_demo1_def aof_demo_def kvs_persistence_init_def aof_static_def
        kvs_persistence_force_flush_def aof_check_cqe_nonblock_def aof_trigger_flush_nolock_def)
qed

text \<open>
  C18. A full buffer does not block a writer for ever: as soon as one round of the waiting loop
  sees a completion and a free submission slot, \<open>kvs_persistence_write\<close> returns, in any state
  of the buffers.
\<close>

theorem aof_write_returns:
  assumes "\<exists>ev\<in>set evs. ev_wait ev \<noteq> None \<and> ev_sqe2 ev"
  shows "\<exists>a'. kvs_persistence_write evs data a = Some a'"
  using make_room_returns [OF assms, of "length data" a] by (auto simp: kvs_persistence_write_def)

theorem aof_write_returns_witness:
  "\<exists>a'. kvs_persistence_write [\<lparr>ev_peek = None, ev_sqe1 = True, ev_wait = Some 7, ev_sqe2 = True\<rparr>] ''SET'' aof_demo = Some a'"
  by (rule aof_write_returns) simp

text \<open>
  C19. Closing a log with unwritten data does not return: once the close has a write in flight,
  its waiting loop never clears the busy flag, so unless a wait fails (a signal) it waits for a
  completion that no request is left to produce.
\<close>

theorem aof_close_hangs:
  assumes "is_io_uring_busy a \<and> cqe = None \<or> \<not> is_io_uring_busy a \<and> aof_buf_active a \<noteq> [] \<and> sqe2"
    and "None \<notin> set waits"
  shows "kvs_persistence_close cqe sqe1 sqe2 waits sqe3 fin pw a = None"
proof -
  define a1 where "a1 = aof_check_cqe_nonblock cqe sqe1 a"
  define a2 where "a2 = (if \<not> is_io_uring_busy a1 \<and> aof_buf_active a1 \<noteq> [] then aof_trigger_flush_nolock sqe2 a1 else a1)"
  have "is_io_uring_busy a2"
    using assms(1) by (auto simp: a2_def a1_def aof_check_cqe_nonblock_def aof_trigger_flush_nolock_def)
  then show ?thesis
    using close_wait_hangs [OF _ assms(2)]
    by (simp add: kvs_persistence_close_def Let_def a1_def [symmetric] a2_def [symmetric])
qed

theorem aof_close_hangs_witness:
  "kvs_persistence_close None True True [Some 2, Some 2] True (Some 2) 2 (aof_demo\<lparr>aof_buf_active := ''ab''\<rparr>) = None"
  by (rule aof_close_hangs) (simp_all add: aof_demo_def kvs_persistence_init_def aof_static_def)

end
