(* ===== verification/Kvs_Server.thy ===== *)
theory Kvs_Server
  imports Kvs_Array Kvs_Hash Kvs_Rbtree Kvs_Zset Kvs_Mempool Expire_Queue Expire_Heap Resp_Parse Aof Ai_Index
begin

text \<open>
  The global state of the server (the \<open>global_*\<close> and \<open>g_*\<close> variables of \<^verbatim>\<open>server.c\<close>,
  \<^verbatim>\<open>kvstore.c\<close>, \<^verbatim>\<open>expire.c\<close>, \<^verbatim>\<open>repl.c\<close> and \<^verbatim>\<open>persistence.c\<close>) as one record, the inputs a
  command takes from its environment, the replication backlog ring, and \<open>expire_push_cmd\<close>, by
  which the command handlers register timers. \<open>init_kvengine\<close> builds the initial state.
\<close>

section \<open>Replication backlog\<close>

definition REPL_BACKLOG_MAX :: nat where
  "REPL_BACKLOG_MAX = 100000"

record repl_backlog =
  g_repl_backlog :: "nat \<Rightarrow> bytes"
  g_repl_backlog_head :: nat
  g_repl_backlog_tail :: nat
  g_repl_backlog_count :: nat

definition backlog_static :: repl_backlog where
  "backlog_static = \<lparr>g_repl_backlog = (\<lambda>_. []), g_repl_backlog_head = 0, g_repl_backlog_tail = 0,
     g_repl_backlog_count = 0\<rparr>"

text \<open>The append of \<open>protocol_process_stream\<close>; a full backlog drops the command.\<close>

definition backlog_push :: "bytes \<Rightarrow> repl_backlog \<Rightarrow> repl_backlog" where
  "backlog_push cmd b =
     (if g_repl_backlog_count b < REPL_BACKLOG_MAX then
        b\<lparr>g_repl_backlog := (g_repl_backlog b)(g_repl_backlog_tail b := cmd),
          g_repl_backlog_tail := (g_repl_backlog_tail b + 1) mod REPL_BACKLOG_MAX,
          g_repl_backlog_count := g_repl_backlog_count b + 1\<rparr>
      else b)"

section \<open>State\<close>

datatype conn_role = CONN_CLIENT | CONN_MASTER | CONN_SLAVE

text \<open>
  \<open>g_rdma_ctx\<close> says whether the RDMA context exists, \<open>g_repl_fd\<close> is the socket of
  \<open>g_repl_ctx\<close>, \<open>conn_roles\<close> the field \<open>role\<close> of \<open>ntyco_conn_list\<close>. The state of the memory pool is used by MEMTRIM only; whether an allocation
  succeeds is an input of every command.
\<close>

record kvs_server =
  g_enable_persistence :: bool
  g_enable_ttl :: bool
  g_enable_mempool :: bool
  g_enable_repl_master :: bool
  g_enable_repl_slave :: bool
  g_use_tcp_sync :: bool
  global_array :: kvs_array
  global_rbtree :: kvs_rbtree
  global_hash :: kvs_hash
  global_hash1 :: kvs_hash
  global_hash2 :: kvs_hash
  global_hash3 :: kvs_hash
  global_hash4 :: kvs_hash
  global_skip :: kvs_skip
  global_vector_index :: vector_index
  g_match_threshold :: real
  g_cmd_queue :: "expire_item expire_queue"
  g_delete_queue :: "expire_item expire_queue"
  g_mempool :: mempool
  g_aof :: aof
  g_backlog :: repl_backlog
  g_repl_backlog_enabled :: bool
  g_slave_fd :: int
  g_sync_file_done :: bool
  g_rdma_ctx :: bool
  g_repl_fd :: int
  g_save_pid :: int
  conn_roles :: "int \<Rightarrow> conn_role"

text \<open>
  What one command takes from outside: the clocks \<open>get_current_ms\<close> and \<open>time(NULL)\<close>, the
  outcomes of the allocations of the engine call (\<open>e_ok\<close>), of the handler itself (\<open>e_hok\<close>), of a
  result list (\<open>e_lok\<close>) and of a shrinking resize, the seed of the random levels, the
  uninitialised word of \<open>expire_push_cmd\<close>, the embedding and the similarity, and the outcomes of
  \<open>fork\<close> and \<open>waitpid\<close>.
\<close>

record cmd_env =
  e_now :: int
  e_time :: int
  e_ok :: alloc_env
  e_hok :: alloc_env
  e_lok :: alloc_env
  e_shrink :: bool
  e_tseed :: "32 word"
  e_junk :: "64 word"
  e_text_to_vector :: "bytes \<Rightarrow> real list option"
  e_cosine :: "real list \<Rightarrow> real list \<Rightarrow> real"
  e_fork :: int
  e_child_done :: bool

section \<open>Timers\<close>

definition EXPIRE_TYPE_ARRAY :: int where "EXPIRE_TYPE_ARRAY = 0"
definition EXPIRE_TYPE_HASH :: int where "EXPIRE_TYPE_HASH = 1"
definition EXPIRE_TYPE_RBTREE :: int where "EXPIRE_TYPE_RBTREE = 2"
definition EXPIRE_TYPE_SKIPLIST :: int where "EXPIRE_TYPE_SKIPLIST = 3"
definition EXPIRE_TYPE_HASH2 :: int where "EXPIRE_TYPE_HASH2 = 4"

text \<open>
  \<open>expire_push_cmd\<close>: \<open>m\<close> is the allocation of the copy of the key, \<open>junk\<close> the value that
  \<open>item.key.hash_cache\<close> happens to have, since it is never assigned.
\<close>

definition expire_push_cmd ::
  "bool \<Rightarrow> 64 word \<Rightarrow> int \<Rightarrow> kv_data \<Rightarrow> int \<Rightarrow> 64 word \<Rightarrow> expire_item expire_queue \<Rightarrow>
   int \<times> expire_item expire_queue" where
  "expire_push_cmd m junk typ key expire version q =
     (if klen key = 0 \<or> \<not> m then (-1, q)
      else
        let item = \<lparr>ikey = \<lparr>kdata = Some (kbytes key), hash_cache = junk\<rparr>, iexpire = expire,
                     iversion = version, itype = typ\<rparr>
        in case queue_push q item of
             (r, q') \<Rightarrow> if r \<noteq> 0 then (-1, q') else (0, q'))"

section \<open>Start\<close>

text \<open>
  The engines as \<open>init_kvengine\<close> creates them (\<open>ok i\<close> is the allocation of the \<open>i\<close>-th), before a
  snapshot is loaded and the log replayed; \<open>cfg\<close> holds the settings of \<open>main\<close>.
\<close>

definition server_static :: kvs_server where
  "server_static =
     \<lparr>g_enable_persistence = False, g_enable_ttl = False, g_enable_mempool = False,
      g_enable_repl_master = False, g_enable_repl_slave = False, g_use_tcp_sync = False,
      global_array = array_static, global_rbtree = rb_static, global_hash = hash_static,
      global_hash1 = hash_static, global_hash2 = hash_static, global_hash3 = hash_static,
      global_hash4 = hash_static, global_skip = skip_static, global_vector_index = [],
      g_match_threshold = DEFAULT_MATCH_THRESHOLD,
      g_cmd_queue = \<lparr>q_items = (\<lambda>_. \<lparr>ikey = kd_null, iexpire = 0, iversion = 0, itype = 0\<rparr>), q_head = 0, q_tail = 0\<rparr>,
      g_delete_queue = \<lparr>q_items = (\<lambda>_. \<lparr>ikey = kd_null, iexpire = 0, iversion = 0, itype = 0\<rparr>), q_head = 0, q_tail = 0\<rparr>,
      g_mempool = mempool_static, g_aof = aof_static, g_backlog = backlog_static,
      g_repl_backlog_enabled = False, g_slave_fd = -1, g_sync_file_done = False, g_rdma_ctx = False,
      g_repl_fd = -1, g_save_pid = -1, conn_roles = (\<lambda>_. CONN_CLIENT)\<rparr>"

definition create_engines :: "alloc_env \<Rightarrow> kvs_server \<Rightarrow> kvs_server" where
  "create_engines ok s =
     s\<lparr>global_array := snd (kvs_array_create (ok 0) array_static),
       global_rbtree := snd (kvs_rbtree_create (ok 1) rb_static),
       global_hash := snd (kvs_hash_create (ok 2) hash_static),
       global_hash1 := snd (kvs_hash_create (ok 3) hash_static),
       global_hash2 := snd (kvs_hash_create (ok 4) hash_static),
       global_hash3 := snd (kvs_hash_create (ok 5) hash_static),
       global_hash4 := snd (kvs_hash_create (ok 6) hash_static),
       global_skip := snd (kvs_skip_create (ok 7) skip_static)\<rparr>"

section \<open>Invariant and contents\<close>

definition server_inv :: "kvs_server \<Rightarrow> bool" where
  "server_inv s \<longleftrightarrow> array_inv (global_array s) \<and> rbtree_inv (global_rbtree s) \<and> hash_inv (global_hash s) \<and>
     hash_inv (global_hash1 s) \<and> hash_inv (global_hash2 s) \<and> hash_inv (global_hash3 s) \<and>
     hash_inv (global_hash4 s) \<and> skip_inv (global_skip s)"

text \<open>The data of the server: the contents of the eight stores.\<close>

record store_view =
  v_array :: store_map
  v_rbtree :: store_map
  v_hash :: store_map
  v_hash1 :: store_map
  v_hash2 :: store_map
  v_hash3 :: store_map
  v_hash4 :: store_map
  v_skip :: store_map

definition view :: "kvs_server \<Rightarrow> store_view" where
  "view s =
     \<lparr>v_array = array_contents (global_array s), v_rbtree = rbtree_contents (global_rbtree s),
      v_hash = hash_contents (global_hash s), v_hash1 = hash_contents (global_hash1 s),
      v_hash2 = hash_contents (global_hash2 s), v_hash3 = hash_contents (global_hash3 s),
      v_hash4 = hash_contents (global_hash4 s), v_skip = skip_contents (global_skip s)\<rparr>"

definition empty_view :: store_view where
  "empty_view = \<lparr>v_array = Map.empty, v_rbtree = Map.empty, v_hash = Map.empty, v_hash1 = Map.empty,
     v_hash2 = Map.empty, v_hash3 = Map.empty, v_hash4 = Map.empty, v_skip = Map.empty\<rparr>"

lemma create_engines_inv:
  "server_inv (create_engines always_ok s) \<and> view (create_engines always_ok s) = empty_view"
proof -
  have "kvs_array_create True array_static = (0, snd (kvs_array_create True array_static))"
    "kvs_rbtree_create True rb_static = (0, snd (kvs_rbtree_create True rb_static))"
    "kvs_hash_create True hash_static = (0, snd (kvs_hash_create True hash_static))"
    by (simp_all add: kvs_array_create_def array_static_def kvs_rbtree_create_def kvs_hash_create_def)
  note created = kvs_array_create_inv [OF this(1)] kvs_rbtree_create_inv [OF this(2)]
    kvs_hash_create_inv [OF this(3)] skip_create_inv
  then show ?thesis
    by (simp add: server_inv_def view_def empty_view_def create_engines_def)
qed

end
