(* ===== verification/Kvs_Command.thy ===== *)
theory Kvs_Command
  imports Kvs_Server
begin

text \<open>
  The command layer of \<^verbatim>\<open>kvstore.c\<close>: \<open>parse_ttl\<close>, the 37 handlers, the command table with its
  64-slot open-addressing hash index, \<open>lookup_command\<close> and \<open>kvs_execute_batch\<close>. A handler takes the
  inputs of its environment, the request and the server state and gives the reply and the new
  state; \<open>None\<close> stands for a request in which an argument the handler uses has a negative length
  (the code would convert it to a size near \<open>2^64\<close>).
\<close>

section \<open>Arguments\<close>

text \<open>\<open>argp req i\<close> is the pointer \<open>argv[i]\<close>, \<open>arg req i\<close> the \<open>argv_len[i]\<close> bytes it points to.\<close>

definition argp :: "resp_request \<Rightarrow> nat \<Rightarrow> bytes" where
  "argp req i = rargv req ! i"

definition arg :: "resp_request \<Rightarrow> nat \<Rightarrow> bytes" where
  "arg req i = take (nat (rargv_len req ! i)) (rargv req ! i)"

definition with_key :: "resp_request \<Rightarrow> (kv_data \<Rightarrow> 'a) \<Rightarrow> 'a option" where
  "with_key req f = (if rargv_len req ! 1 < 0 then None else Some (f (kd (arg req 1))))"

definition with_key_value :: "resp_request \<Rightarrow> (kv_data \<Rightarrow> kv_data \<Rightarrow> 'a) \<Rightarrow> 'a option" where
  "with_key_value req f =
     (if rargv_len req ! 1 < 0 \<or> rargv_len req ! 2 < 0 then None
      else Some (f (kd (arg req 1)) (kd (arg req 2))))"

definition rep :: "kvs_status \<Rightarrow> resp_reply" where
  "rep st = \<lparr>status = st, body = None\<rparr>"

text \<open>\<open>parse_ttl\<close>: the absolute expiry time in milliseconds; additions are 64-bit.\<close>

definition parse_ttl :: "int \<Rightarrow> resp_request \<Rightarrow> int" where
  "parse_ttl now req =
     (if argc req < 4 then 0
      else if argc req \<ge> 5 \<and> rargv_len req ! 3 = 2 \<and> strncasecmp (argp req 3) ''EX'' 2 = 0 then
        (let sec = atoll (argp req 4) in if sec > 0 then i64 (now + i64 (sec * 1000)) else 0)
      else if argc req \<ge> 5 \<and> rargv_len req ! 3 = 2 \<and> strncasecmp (argp req 3) ''PX'' 2 = 0 then
        (let ms = atoll (argp req 4) in if ms > 0 then i64 (now + ms) else 0)
      else
        let val = atoll (argp req 3)
        in if val \<le> 0 then 0 else if val < 1000000000 then i64 (now + val * 1000) else val)"

text \<open>\<open>m\<close> is the allocation of the copy.\<close>

definition kvs_set_reply_body :: "bool \<Rightarrow> kv_data option \<Rightarrow> resp_reply" where
  "kvs_set_reply_body m result =
     (case result of
        None \<Rightarrow> rep KVS_RESP_NO_EXISTS
      | Some d \<Rightarrow>
          if kdata d \<noteq> None \<and> klen d > 0
          then if m then \<lparr>status = KVS_RESP_GET_OK, body = Some (kbytes d)\<rparr> else rep KVS_RESP_ERROR
          else rep KVS_RESP_NO_EXISTS)"

type_synonym handler = "cmd_env \<Rightarrow> resp_request \<Rightarrow> kvs_server \<Rightarrow> (resp_reply \<times> kvs_server) option"

section \<open>Array commands\<close>

text \<open>SET pushes a timer for every key while TTL is enabled, also for one that never expires.\<close>

definition cmd_array_set :: handler where
  "cmd_array_set env req s =
     (if argc req < 3 then Some (rep KVS_RESP_PARSE_ERROR, s)
      else with_key_value req (\<lambda>k v.
        let expire = (if g_enable_ttl s then parse_ttl (e_now env) req else 0);
            (ret, st) = kvs_array_set (e_ok env) (global_array s) k v expire;
            s1 = s\<lparr>global_array := st\<rparr>;
            s2 = (if g_enable_ttl s \<and> ret = 0
                  then s1\<lparr>g_cmd_queue := snd (expire_push_cmd (e_hok env 0) (e_junk env) EXPIRE_TYPE_ARRAY k expire
                         (word_of_int expire) (g_cmd_queue s1))\<rparr>
                  else s1)
        in (rep (if ret = 0 then KVS_RESP_OK else KVS_RESP_ERROR), s2)))"

definition cmd_array_get :: handler where
  "cmd_array_get env req s =
     (if argc req < 2 then Some (rep KVS_RESP_PARSE_ERROR, s)
      else with_key req (\<lambda>k.
        let (res, st) = kvs_array_get (g_enable_ttl s) (e_now env) (global_array s) k
        in (kvs_set_reply_body (e_hok env 0) res, s\<lparr>global_array := st\<rparr>)))"

definition cmd_array_del :: handler where
  "cmd_array_del env req s =
     (if argc req < 2 then Some (rep KVS_RESP_PARSE_ERROR, s)
      else with_key req (\<lambda>k.
        let (ret, st) = kvs_array_del (global_array s) k
        in (rep (if ret = 0 then KVS_RESP_OK else KVS_RESP_NO_EXISTS), s\<lparr>global_array := st\<rparr>)))"

definition cmd_array_mod :: handler where
  "cmd_array_mod env req s =
     (if argc req < 3 then Some (rep KVS_RESP_PARSE_ERROR, s)
      else with_key_value req (\<lambda>k v.
        let (ret, st) = kvs_array_mod (e_ok env) (global_array s) k v 0
        in (rep (if ret = 0 then KVS_RESP_OK else KVS_RESP_NO_EXISTS), s\<lparr>global_array := st\<rparr>)))"

definition cmd_array_exists :: handler where
  "cmd_array_exists env req s =
     (if argc req < 2 then Some (rep KVS_RESP_PARSE_ERROR, s)
      else with_key req (\<lambda>k.
        let (ret, st) = kvs_array_exist (g_enable_ttl s) (e_now env) (global_array s) k
        in (rep (if ret = 0 then KVS_RESP_EXISTS else KVS_RESP_NO_EXISTS), s\<lparr>global_array := st\<rparr>)))"

section \<open>Red-black tree commands\<close>

definition cmd_rbtree_set :: handler where
  "cmd_rbtree_set env req s =
     (if argc req < 3 then Some (rep KVS_RESP_PARSE_ERROR, s)
      else with_key_value req (\<lambda>k v.
        let expire = (if g_enable_ttl s then parse_ttl (e_now env) req else 0);
            (ret, st) = kvs_rbtree_set (e_ok env) (global_rbtree s) k v expire;
            s1 = s\<lparr>global_rbtree := st\<rparr>;
            s2 = (if g_enable_ttl s \<and> ret = 0 \<and> expire > 0
                  then s1\<lparr>g_cmd_queue := snd (expire_push_cmd (e_hok env 0) (e_junk env) EXPIRE_TYPE_RBTREE k expire
                         (word_of_int expire) (g_cmd_queue s1))\<rparr>
                  else s1)
        in (rep (if ret = 0 then KVS_RESP_OK else KVS_RESP_ERROR), s2)))"

definition cmd_rbtree_get :: handler where
  "cmd_rbtree_get env req s =
     (if argc req < 2 then Some (rep KVS_RESP_PARSE_ERROR, s)
      else with_key req (\<lambda>k.
        let (res, st) = kvs_rbtree_get (g_enable_ttl s) (e_now env) (global_rbtree s) k
        in (kvs_set_reply_body (e_hok env 0) res, s\<lparr>global_rbtree := st\<rparr>)))"

definition cmd_rbtree_del :: handler where
  "cmd_rbtree_del env req s =
     (if argc req < 2 then Some (rep KVS_RESP_PARSE_ERROR, s)
      else with_key req (\<lambda>k.
        let (ret, st) = kvs_rbtree_del (global_rbtree s) k
        in (rep (if ret = 0 then KVS_RESP_OK else KVS_RESP_NO_EXISTS), s\<lparr>global_rbtree := st\<rparr>)))"

definition cmd_rbtree_mod :: handler where
  "cmd_rbtree_mod env req s =
     (if argc req < 3 then Some (rep KVS_RESP_PARSE_ERROR, s)
      else with_key_value req (\<lambda>k v.
        let (ret, st) = kvs_rbtree_mod (e_ok env) (global_rbtree s) k v 0
        in (rep (if ret = 0 then KVS_RESP_OK else KVS_RESP_NO_EXISTS), s\<lparr>global_rbtree := st\<rparr>)))"

definition cmd_rbtree_exists :: handler where
  "cmd_rbtree_exists env req s =
     (if argc req < 2 then Some (rep KVS_RESP_PARSE_ERROR, s)
      else with_key req (\<lambda>k.
        let (ret, st) = kvs_rbtree_exist (g_enable_ttl s) (e_now env) (global_rbtree s) k
        in (rep (if ret = 0 then KVS_RESP_EXISTS else KVS_RESP_NO_EXISTS), s\<lparr>global_rbtree := st\<rparr>)))"

section \<open>Hash commands\<close>

definition cmd_hash_set :: handler where
  "cmd_hash_set env req s =
     (if argc req < 3 then Some (rep KVS_RESP_PARSE_ERROR, s)
      else with_key_value req (\<lambda>k v.
        let expire = (if g_enable_ttl s then parse_ttl (e_now env) req else 0);
            (ret, st) = kvs_hash_set (e_ok env) (global_hash s) k v expire;
            s1 = s\<lparr>global_hash := st\<rparr>;
            s2 = (if g_enable_ttl s \<and> ret = 0 \<and> expire > 0
                  then s1\<lparr>g_cmd_queue := snd (expire_push_cmd (e_hok env 0) (e_junk env) EXPIRE_TYPE_HASH k expire
                         (word_of_int expire) (g_cmd_queue s1))\<rparr>
                  else s1)
        in (rep (if ret = 0 then KVS_RESP_OK else KVS_RESP_ERROR), s2)))"

definition cmd_hash_get :: handler where
  "cmd_hash_get env req s =
     (if argc req < 2 then Some (rep KVS_RESP_PARSE_ERROR, s)
      else with_key req (\<lambda>k.
        let (res, st) = kvs_hash_get (e_shrink env) (g_enable_ttl s) (e_now env) (global_hash s) k
        in (kvs_set_reply_body (e_hok env 0) res, s\<lparr>global_hash := st\<rparr>)))"

definition cmd_hash_del :: handler where
  "cmd_hash_del env req s =
     (if argc req < 2 then Some (rep KVS_RESP_PARSE_ERROR, s)
      else with_key req (\<lambda>k.
        let (ret, st) = kvs_hash_del (e_shrink env) (global_hash s) k
        in (rep (if ret = 0 then KVS_RESP_OK else KVS_RESP_NO_EXISTS), s\<lparr>global_hash := st\<rparr>)))"

definition cmd_hash_mod :: handler where
  "cmd_hash_mod env req s =
     (if argc req < 3 then Some (rep KVS_RESP_PARSE_ERROR, s)
      else with_key_value req (\<lambda>k v.
        let (ret, st) = kvs_hash_mod (e_ok env) (global_hash s) k v 0
        in (rep (if ret = 0 then KVS_RESP_OK else KVS_RESP_NO_EXISTS), s\<lparr>global_hash := st\<rparr>)))"

definition cmd_hash_exists :: handler where
  "cmd_hash_exists env req s =
     (if argc req < 2 then Some (rep KVS_RESP_PARSE_ERROR, s)
      else with_key req (\<lambda>k.
        let (ret, st) = kvs_hash_exist (e_shrink env) (g_enable_ttl s) (e_now env) (global_hash s) k
        in (rep (if ret = 0 then KVS_RESP_EXISTS else KVS_RESP_NO_EXISTS), s\<lparr>global_hash := st\<rparr>)))"

section \<open>Skip list commands\<close>

definition cmd_skip_set :: handler where
  "cmd_skip_set env req s =
     (if argc req < 3 then Some (rep KVS_RESP_PARSE_ERROR, s)
      else with_key_value req (\<lambda>k v.
        let expire = (if g_enable_ttl s then parse_ttl (e_now env) req else 0);
            (ret, st) = kvs_skip_set (e_tseed env) (e_ok env) (global_skip s) k v expire;
            s1 = s\<lparr>global_skip := st\<rparr>;
            s2 = (if g_enable_ttl s \<and> ret = 0 \<and> expire > 0
                  then s1\<lparr>g_cmd_queue := snd (expire_push_cmd (e_hok env 0) (e_junk env) EXPIRE_TYPE_SKIPLIST k expire
                         (word_of_int expire) (g_cmd_queue s1))\<rparr>
                  else s1)
        in (rep (if ret = 0 then KVS_RESP_OK else KVS_RESP_ERROR), s2)))"

definition cmd_skip_get :: handler where
  "cmd_skip_get env req s =
     (if argc req < 2 then Some (rep KVS_RESP_PARSE_ERROR, s)
      else with_key req (\<lambda>k.
        let (res, st) = kvs_skip_get (g_enable_ttl s) (e_now env) (global_skip s) k
        in (kvs_set_reply_body (e_hok env 0) res, s\<lparr>global_skip := st\<rparr>)))"

definition cmd_skip_del :: handler where
  "cmd_skip_del env req s =
     (if argc req < 2 then Some (rep KVS_RESP_PARSE_ERROR, s)
      else with_key req (\<lambda>k.
        let (ret, st) = kvs_skip_del (global_skip s) k
        in (rep (if ret = 0 then KVS_RESP_OK else KVS_RESP_NO_EXISTS), s\<lparr>global_skip := st\<rparr>)))"

definition cmd_skip_mod :: handler where
  "cmd_skip_mod env req s =
     (if argc req < 3 then Some (rep KVS_RESP_PARSE_ERROR, s)
      else with_key_value req (\<lambda>k v.
        let (ret, st) = kvs_skip_mod (e_tseed env) (e_ok env) (global_skip s) k v 0
        in (rep (if ret = 0 then KVS_RESP_OK else KVS_RESP_NO_EXISTS), s\<lparr>global_skip := st\<rparr>)))"

definition cmd_skip_exists :: handler where
  "cmd_skip_exists env req s =
     (if argc req < 2 then Some (rep KVS_RESP_PARSE_ERROR, s)
      else with_key req (\<lambda>k.
        let (ret, st) = kvs_skip_exist (g_enable_ttl s) (e_now env) (global_skip s) k
        in (rep (if ret = 0 then KVS_RESP_EXISTS else KVS_RESP_NO_EXISTS), s\<lparr>global_skip := st\<rparr>)))"

section \<open>System commands\<close>

text \<open>\<open>SAVE\<close>: the child process writes the snapshot; the parent remembers its PID.\<close>

definition cmd_sys_save :: handler where
  "cmd_sys_save env req s =
     (if argc req \<noteq> 1 then Some (rep KVS_RESP_PARSE_ERROR, s)
      else
        let s1 = (if g_save_pid s \<noteq> -1 \<and> e_child_done env then s\<lparr>g_save_pid := -1\<rparr> else s)
        in Some (if g_save_pid s1 \<noteq> -1 then (rep KVS_RESP_ERR, s1)
                 else if e_fork env < 0 then (rep KVS_RESP_ERR, s1)
                 else (rep KVS_RESP_SUCCESS, s1\<lparr>g_save_pid := e_fork env\<rparr>)))"

text \<open>
  \<open>SYNC\<close> resets the fill count of the backlog but not its indices; the transfer of the log
  file over TCP or RDMA does not touch the state of the server. The status is not set.
\<close>

definition cmd_sys_sync :: handler where
  "cmd_sys_sync env req s =
     Some (rep KVS_RESP_ERROR,
       s\<lparr>g_repl_backlog_enabled := True, g_backlog := (g_backlog s)\<lparr>g_repl_backlog_count := 0\<rparr>\<rparr>)"

definition repl_destroy :: "kvs_server \<Rightarrow> kvs_server" where
  "repl_destroy s = s\<lparr>g_rdma_ctx := False, g_repl_fd := (if g_repl_fd s \<ge> 0 then -1 else g_repl_fd s)\<rparr>"

definition cmd_sys_sync_done :: handler where
  "cmd_sys_sync_done env req s =
     Some (rep KVS_RESP_ERROR, (repl_destroy s)\<lparr>g_sync_file_done := True, g_repl_backlog_enabled := False\<rparr>)"

definition cmd_sys_memtrim :: handler where
  "cmd_sys_memtrim env req s =
     (if argc req \<noteq> 1 then Some (rep KVS_RESP_PARSE_ERROR, s)
      else Some (rep KVS_RESP_OK,
        if g_enable_mempool s then s\<lparr>g_mempool := kvs_mempool_trim_all (g_mempool s)\<rparr> else s))"

section \<open>Semantic cache\<close>

text \<open>Allocation sites of \<open>cmd_keep\<close>: 0 the copy of the key, 1 the vector of the index.\<close>

definition cmd_keep :: handler where
  "cmd_keep env req s =
     (if argc req < 3 then Some (rep KVS_RESP_PARSE_ERROR, s)
      else with_key_value req (\<lambda>k v.
        let (ret, st) = kvs_hash_set (e_ok env) (global_hash1 s) k v 0;
            s1 = s\<lparr>global_hash1 := st\<rparr>
        in if ret \<noteq> 0 then (rep KVS_RESP_ERROR, s1)
           else if \<not> e_hok env 0 then (rep KVS_RESP_ERROR, s1)
           else
             let (iret, idx) = keep_build_index (e_text_to_vector env) (e_hok env 1) (global_vector_index s1) (kbytes k);
                 s2 = s1\<lparr>global_vector_index := idx\<rparr>
             in (rep (if iret \<noteq> 0 then KVS_RESP_ERROR else KVS_RESP_OK), s2)))"

text \<open>Allocation sites of \<open>cmd_match\<close>: 0 the copy of the question, 1 the answer, 2 its copy.\<close>

definition cmd_match :: handler where
  "cmd_match env req s =
     (if argc req \<noteq> 2 then Some (rep KVS_RESP_PARSE_ERROR, s)
      else with_key req (\<lambda>k.
        if \<not> e_hok env 0 then (rep KVS_RESP_ERROR, s)
        else
          let (ret, answer, st) = match_find_answer (e_text_to_vector env) (e_cosine env) (g_match_threshold s)
                (global_vector_index s) (e_hok env 1) (e_shrink env) (g_enable_ttl s) (e_now env) (global_hash1 s) (kbytes k);
              s1 = s\<lparr>global_hash1 := st\<rparr>
          in if ret < 0 then (rep KVS_RESP_ERROR, s1)
             else case answer of
               None \<Rightarrow> (rep KVS_RESP_NO_EXISTS, s1)
             | Some a \<Rightarrow>
                 if ret = 1 then (rep KVS_RESP_NO_EXISTS, s1)
                 else if \<not> e_hok env 2 then (rep KVS_RESP_ERROR, s1)
                 else (\<lparr>status = KVS_RESP_GET_OK, body = Some a\<rparr>, s1)))"

section \<open>Contexts, records and keyword index\<close>

text \<open>
  \<open>SETCTX\<close> stores the expiry time even when TTL is disabled; the sum is 64-bit.
\<close>

definition cmd_setctx :: handler where
  "cmd_setctx env req s =
     (if argc req < 4 then Some (rep KVS_RESP_PARSE_ERROR, s)
      else with_key_value req (\<lambda>k v.
        let ttl_sec = atoll (argp req 3);
            expire = (if ttl_sec > 0 then i64 (e_time env * 1000 + ttl_sec * 1000) else 0);
            (ret, st) = kvs_hash_set (e_ok env) (global_hash2 s) k v expire;
            s1 = s\<lparr>global_hash2 := st\<rparr>
        in if ret \<noteq> 0 then (rep KVS_RESP_ERROR, s1)
           else (rep KVS_RESP_OK,
             if g_enable_ttl s \<and> expire > 0
             then s1\<lparr>g_cmd_queue := snd (expire_push_cmd (e_hok env 0) (e_junk env) EXPIRE_TYPE_HASH2 k expire
                    (word_of_int expire) (g_cmd_queue s1))\<rparr>
             else s1)))"

definition cmd_getctx :: handler where
  "cmd_getctx env req s =
     (if argc req \<noteq> 2 then Some (rep KVS_RESP_PARSE_ERROR, s)
      else with_key req (\<lambda>k.
        let (res, st) = kvs_hash_get (e_shrink env) (g_enable_ttl s) (e_now env) (global_hash2 s) k
        in (kvs_set_reply_body (e_hok env 0) res, s\<lparr>global_hash2 := st\<rparr>)))"

definition cmd_setrec :: handler where
  "cmd_setrec env req s =
     (if argc req \<noteq> 3 then Some (rep KVS_RESP_PARSE_ERROR, s)
      else with_key_value req (\<lambda>k v.
        let (ret, st) = kvs_hash_set (e_ok env) (global_hash3 s) k v 0
        in (rep (if ret = 0 then KVS_RESP_OK else KVS_RESP_ERROR), s\<lparr>global_hash3 := st\<rparr>)))"

definition cmd_getrec :: handler where
  "cmd_getrec env req s =
     (if argc req \<noteq> 2 then Some (rep KVS_RESP_PARSE_ERROR, s)
      else with_key req (\<lambda>k.
        let (res, st) = kvs_hash_get (e_shrink env) (g_enable_ttl s) (e_now env) (global_hash3 s) k
        in (kvs_set_reply_body (e_hok env 0) res, s\<lparr>global_hash3 := st\<rparr>)))"

definition cmd_setidx :: handler where
  "cmd_setidx env req s =
     (if argc req \<noteq> 3 then Some (rep KVS_RESP_PARSE_ERROR, s)
      else with_key_value req (\<lambda>k x.
        let (ret, st) = kvs_hash_append (e_ok env) (g_enable_ttl s) (e_now env) (global_hash4 s) k x
        in (rep (if ret = 0 then KVS_RESP_OK else KVS_RESP_ERROR), s\<lparr>global_hash4 := st\<rparr>)))"

definition cmd_getidx :: handler where
  "cmd_getidx env req s =
     (if argc req \<noteq> 2 then Some (rep KVS_RESP_PARSE_ERROR, s)
      else with_key req (\<lambda>k.
        let (res, st) = kvs_hash_get (e_shrink env) (g_enable_ttl s) (e_now env) (global_hash4 s) k
        in (kvs_set_reply_body (e_hok env 0) res, s\<lparr>global_hash4 := st\<rparr>)))"

definition cmd_delctx :: handler where
  "cmd_delctx env req s =
     (if argc req \<noteq> 2 then Some (rep KVS_RESP_PARSE_ERROR, s)
      else with_key req (\<lambda>k.
        let (ret, st) = kvs_hash_del (e_shrink env) (global_hash2 s) k
        in (rep (if ret = 0 then KVS_RESP_OK else KVS_RESP_NO_EXISTS), s\<lparr>global_hash2 := st\<rparr>)))"

section \<open>Time index\<close>

definition cmd_zadd :: handler where
  "cmd_zadd env req s =
     (if argc req \<noteq> 3 then Some (rep KVS_RESP_PARSE_ERROR, s)
      else if atoll (argp req 1) \<le> 0 then Some (rep KVS_RESP_PARSE_ERROR, s)
      else if rargv_len req ! 2 < 0 then None
      else
        let (ret, st) = kvs_zset_add (e_tseed env) (e_ok env) (global_skip s) (atoll (argp req 1)) (kd (arg req 2))
        in Some (rep (if ret = 0 then KVS_RESP_OK else KVS_RESP_ERROR), s\<lparr>global_skip := st\<rparr>))"

text \<open>
  The number of entries ZRANGE and ZRANGEREC ask for: \<open>stop - start + 1\<close> in 64 bits, cut to
  an \<open>int\<close>; \<open>None\<close> is a syntax error.
\<close>

definition range_count :: "resp_request \<Rightarrow> int option" where
  "range_count req =
     (let start = atoll (argp req 1); stop = atoll (argp req 2)
      in if start \<noteq> 0 \<or> stop < 0 then None else Some (i32 (i64 (stop - start + 1))))"

text \<open>The IDs joined by commas; each ID is read as a C string.\<close>

fun join_ids :: "bytes list \<Rightarrow> bytes" where
  "join_ids [] = []"
| "join_ids [x] = cstr x"
| "join_ids (x # xs) = cstr x @ CHR '','' # join_ids xs"

definition cmd_zrange :: handler where
  "cmd_zrange env req s =
     (if argc req \<noteq> 3 then Some (rep KVS_RESP_PARSE_ERROR, s)
      else Some (case range_count req of
        None \<Rightarrow> (rep KVS_RESP_PARSE_ERROR, s)
      | Some n \<Rightarrow>
          if n \<le> 0 then (rep KVS_RESP_NO_EXISTS, s)
          else
            let (ret, ids) = kvs_zset_recent (e_lok env) (global_skip s) n
            in if ret \<noteq> 0 then (rep KVS_RESP_ERROR, s)
               else if ids = [] then (rep KVS_RESP_NO_EXISTS, s)
               else if \<not> e_hok env 0 then (rep KVS_RESP_ERROR, s)
               else (\<lparr>status = KVS_RESP_GET_OK, body = Some (join_ids ids)\<rparr>, s)))"

text \<open>
  \<open>build_records_newline\<close>: the records of the given IDs, one per line. \<open>ok 0\<close> is the buffer,
  \<open>ok (Suc j)\<close> its growth for the \<open>j\<close>-th ID; \<open>cap\<close> doubles until the record fits. The loop
  gives the text, the number of records written and the table (a lookup may drop an expired
  record), or \<open>None\<close> when the buffer cannot grow.
\<close>

function grow_cap :: "nat \<Rightarrow> nat \<Rightarrow> nat" where
  "grow_cap need cap = (if cap = 0 then need else if need > cap then grow_cap need (cap * 2) else cap)"
  by pat_completeness auto
termination
  by (relation "measure (\<lambda>(need, cap). need - cap)") auto

declare grow_cap.simps [simp del]

fun records_loop ::
  "alloc_env \<Rightarrow> bool \<Rightarrow> bool \<Rightarrow> int \<Rightarrow> bytes list \<Rightarrow> nat \<Rightarrow> nat \<Rightarrow> bytes \<Rightarrow> nat \<Rightarrow> kvs_hash \<Rightarrow>
   (bytes \<times> nat) option \<times> kvs_hash" where
  "records_loop ok shrink ttl now [] j cap buf written h = (Some (buf, written), h)"
| "records_loop ok shrink ttl now (x # xs) j cap buf written h =
     (case kvs_hash_get shrink ttl now h (kd (cstr x)) of
        (None, h1) \<Rightarrow> records_loop ok shrink ttl now xs (Suc j) cap buf written h1
      | (Some rec, h1) \<Rightarrow>
          if klen rec = 0 then records_loop ok shrink ttl now xs (Suc j) cap buf written h1
          else
            let need = length buf + klen rec + 2
            in if need > cap \<and> \<not> ok (Suc j) then (None, h1)
               else
                 let cap' = (if need > cap then grow_cap need cap else cap);
                     buf' = buf @ (if written > 0 then [CHR 0x0A] else []) @ kbytes rec
                 in records_loop ok shrink ttl now xs (Suc j) cap' buf' (Suc written) h1)"

definition build_records_newline ::
  "alloc_env \<Rightarrow> bool \<Rightarrow> bool \<Rightarrow> int \<Rightarrow> bytes list \<Rightarrow> kvs_hash \<Rightarrow> resp_reply \<times> kvs_hash" where
  "build_records_newline ok shrink ttl now ids h =
     (if ids = [] then (rep KVS_RESP_NO_EXISTS, h)
      else if \<not> ok 0 then (rep KVS_RESP_ERROR, h)
      else case records_loop ok shrink ttl now ids 0 4096 [] 0 h of
        (None, h1) \<Rightarrow> (rep KVS_RESP_ERROR, h1)
      | (Some (buf, written), h1) \<Rightarrow>
          if written = 0 then (rep KVS_RESP_NO_EXISTS, h1)
          else (\<lparr>status = KVS_RESP_GET_OK, body = Some buf\<rparr>, h1))"

text \<open>
  \<open>GETIDXREC\<close>: the non-empty tokens of the keyword list, then their records. \<open>e_lok 0\<close> is the
  array of IDs, \<open>e_lok (Suc j)\<close> stands for the growth of the array and the copy of the \<open>j\<close>-th ID.
\<close>

definition cmd_getidxrec :: handler where
  "cmd_getidxrec env req s =
     (if argc req \<noteq> 2 then Some (rep KVS_RESP_PARSE_ERROR, s)
      else with_key req (\<lambda>k.
        let (res, st) = kvs_hash_get (e_shrink env) (g_enable_ttl s) (e_now env) (global_hash4 s) k;
            s1 = s\<lparr>global_hash4 := st\<rparr>
        in case res of
             None \<Rightarrow> (rep KVS_RESP_NO_EXISTS, s1)
           | Some list \<Rightarrow>
               if klen list = 0 then (rep KVS_RESP_NO_EXISTS, s1)
               else if \<not> e_lok env 0 then (rep KVS_RESP_ERROR, s1)
               else
                 let ids = filter (\<lambda>t. t \<noteq> []) (id_tokens [] (kbytes list))
                 in if \<not> (\<forall>j<length ids. e_lok env (Suc j)) then (rep KVS_RESP_ERROR, s1)
                    else
                      let (reply, h3) = build_records_newline (e_hok env) (e_shrink env) (g_enable_ttl s) (e_now env)
                            ids (global_hash3 s1)
                      in (reply, s1\<lparr>global_hash3 := h3\<rparr>)))"

definition cmd_zrangerec :: handler where
  "cmd_zrangerec env req s =
     (if argc req \<noteq> 3 then Some (rep KVS_RESP_PARSE_ERROR, s)
      else Some (case range_count req of
        None \<Rightarrow> (rep KVS_RESP_PARSE_ERROR, s)
      | Some n \<Rightarrow>
          if n \<le> 0 then (rep KVS_RESP_NO_EXISTS, s)
          else
            let (ret, ids) = kvs_zset_recent (e_lok env) (global_skip s) n
            in if ret \<noteq> 0 then (rep KVS_RESP_ERROR, s)
               else if ids = [] then (rep KVS_RESP_NO_EXISTS, s)
               else
                 let (reply, h3) = build_records_newline (e_hok env) (e_shrink env) (g_enable_ttl s) (e_now env)
                       ids (global_hash3 s)
                 in (reply, s\<lparr>global_hash3 := h3\<rparr>)))"

section \<open>Command table\<close>

text \<open>The procedures of the table, by name.\<close>

datatype proc =
    P_array_set | P_array_get | P_array_del | P_array_mod | P_array_exists
  | P_rbtree_set | P_rbtree_get | P_rbtree_del | P_rbtree_mod | P_rbtree_exists
  | P_hash_set | P_hash_get | P_hash_del | P_hash_mod | P_hash_exists
  | P_keep | P_match | P_setctx | P_getctx | P_delctx
  | P_setrec | P_getrec | P_getidxrec | P_setidx | P_getidx
  | P_skip_set | P_skip_get | P_skip_del | P_skip_mod | P_skip_exists
  | P_zadd | P_zrange | P_zrangerec | P_sys_save | P_sys_sync
  | P_sys_sync_done | P_sys_memtrim

fun run_proc :: "proc \<Rightarrow> handler" where
  "run_proc P_array_set = cmd_array_set"
| "run_proc P_array_get = cmd_array_get"
| "run_proc P_array_del = cmd_array_del"
| "run_proc P_array_mod = cmd_array_mod"
| "run_proc P_array_exists = cmd_array_exists"
| "run_proc P_rbtree_set = cmd_rbtree_set"
| "run_proc P_rbtree_get = cmd_rbtree_get"
| "run_proc P_rbtree_del = cmd_rbtree_del"
| "run_proc P_rbtree_mod = cmd_rbtree_mod"
| "run_proc P_rbtree_exists = cmd_rbtree_exists"
| "run_proc P_hash_set = cmd_hash_set"
| "run_proc P_hash_get = cmd_hash_get"
| "run_proc P_hash_del = cmd_hash_del"
| "run_proc P_hash_mod = cmd_hash_mod"
| "run_proc P_hash_exists = cmd_hash_exists"
| "run_proc P_keep = cmd_keep"
| "run_proc P_match = cmd_match"
| "run_proc P_setctx = cmd_setctx"
| "run_proc P_getctx = cmd_getctx"
| "run_proc P_delctx = cmd_delctx"
| "run_proc P_setrec = cmd_setrec"
| "run_proc P_getrec = cmd_getrec"
| "run_proc P_getidxrec = cmd_getidxrec"
| "run_proc P_setidx = cmd_setidx"
| "run_proc P_getidx = cmd_getidx"
| "run_proc P_skip_set = cmd_skip_set"
| "run_proc P_skip_get = cmd_skip_get"
| "run_proc P_skip_del = cmd_skip_del"
| "run_proc P_skip_mod = cmd_skip_mod"
| "run_proc P_skip_exists = cmd_skip_exists"
| "run_proc P_zadd = cmd_zadd"
| "run_proc P_zrange = cmd_zrange"
| "run_proc P_zrangerec = cmd_zrangerec"
| "run_proc P_sys_save = cmd_sys_save"
| "run_proc P_sys_sync = cmd_sys_sync"
| "run_proc P_sys_sync_done = cmd_sys_sync_done"
| "run_proc P_sys_memtrim = cmd_sys_memtrim"

record command =
  cname :: bytes
  minargc :: nat
  cproc :: proc

definition mk_command :: "bytes \<Rightarrow> nat \<Rightarrow> proc \<Rightarrow> command" where
  "mk_command n a p = \<lparr>cname = n, minargc = a, cproc = p\<rparr>"

definition g_cmd_table :: "command list" where
  "g_cmd_table =
     [mk_command ''SET'' 3 P_array_set,
      mk_command ''GET'' 2 P_array_get,
      mk_command ''DEL'' 2 P_array_del,
      mk_command ''MOD'' 3 P_array_mod,
      mk_command ''EXISTS'' 2 P_array_exists,
      mk_command ''RSET'' 3 P_rbtree_set,
      mk_command ''RGET'' 2 P_rbtree_get,
      mk_command ''RDEL'' 2 P_rbtree_del,
      mk_command ''RMOD'' 3 P_rbtree_mod,
      mk_command ''REXISTS'' 2 P_rbtree_exists,
      mk_command ''HSET'' 3 P_hash_set,
      mk_command ''HGET'' 2 P_hash_get,
      mk_command ''HDEL'' 2 P_hash_del,
      mk_command ''HMOD'' 3 P_hash_mod,
      mk_command ''HEXISTS'' 2 P_hash_exists,
      mk_command ''KEEP'' 3 P_keep,
      mk_command ''MATCH'' 2 P_match,
      mk_command ''SETCTX'' 4 P_setctx,
      mk_command ''GETCTX'' 2 P_getctx,
      mk_command ''DELCTX'' 2 P_delctx,
      mk_command ''SETREC'' 3 P_setrec,
      mk_command ''GETREC'' 2 P_getrec,
      mk_command ''GETIDXREC'' 2 P_getidxrec,
      mk_command ''SETIDX'' 3 P_setidx,
      mk_command ''GETIDX'' 2 P_getidx,
      mk_command ''SSET'' 3 P_skip_set,
      mk_command ''SGET'' 2 P_skip_get,
      mk_command ''SDEL'' 2 P_skip_del,
      mk_command ''SMOD'' 3 P_skip_mod,
      mk_command ''SEXISTS'' 2 P_skip_exists,
      mk_command ''ZADD'' 3 P_zadd,
      mk_command ''ZRANGE'' 3 P_zrange,
      mk_command ''ZRANGEREC'' 3 P_zrangerec,
      mk_command ''SAVE'' 1 P_sys_save,
      mk_command ''SYNC'' 1 P_sys_sync,
      mk_command ''SYNC_DONE'' 1 P_sys_sync_done,
      mk_command ''MEMTRIM'' 1 P_sys_memtrim]"

definition CMD_HASH_SIZE :: nat where
  "CMD_HASH_SIZE = 64"

definition djb2 :: "32 word \<Rightarrow> char \<Rightarrow> 32 word" where
  "djb2 h c = (push_bit 5 h + h) + of_char (toupper c)"

definition cmd_hash :: "bytes \<Rightarrow> 32 word" where
  "cmd_hash name = foldl djb2 5381 name"

definition cmd_slot :: "32 word \<Rightarrow> nat" where
  "cmd_slot h = unat (h AND 63)"

text \<open>
  The insertion loop probes for a free slot; 64 steps see every slot. \<open>None\<close>: none is free.
\<close>

fun cmd_free_slot :: "nat \<Rightarrow> command option list \<Rightarrow> nat \<Rightarrow> nat option" where
  "cmd_free_slot 0 tbl idx = None"
| "cmd_free_slot (Suc fuel) tbl idx =
     (if tbl ! idx = None then Some idx else cmd_free_slot fuel tbl ((idx + 1) mod CMD_HASH_SIZE))"

definition cmd_insert :: "command option list \<Rightarrow> command \<Rightarrow> command option list" where
  "cmd_insert tbl c =
     (case cmd_free_slot CMD_HASH_SIZE tbl (cmd_slot (cmd_hash (cname c))) of
        None \<Rightarrow> tbl
      | Some idx \<Rightarrow> tbl[idx := Some c])"

definition kvs_cmd_init :: "command option list" where
  "kvs_cmd_init = foldl cmd_insert (replicate CMD_HASH_SIZE None) g_cmd_table"

text \<open>The test of one slot: the lengths and the names agree, up to case.\<close>

definition name_matches :: "bytes \<Rightarrow> int \<Rightarrow> command \<Rightarrow> bool" where
  "name_matches name compare_len c \<longleftrightarrow>
     int (length (cname c)) = compare_len \<and> strncasecmp (cname c) name (nat compare_len) = 0"

text \<open>The probing loop of \<open>lookup_command\<close>; it ends at a free slot, at the latest after 64 steps.\<close>

fun cmd_probe :: "nat \<Rightarrow> command option list \<Rightarrow> (command \<Rightarrow> bool) \<Rightarrow> nat \<Rightarrow> command option" where
  "cmd_probe 0 tbl matches idx = None"
| "cmd_probe (Suc fuel) tbl matches idx =
     (case tbl ! idx of
        None \<Rightarrow> None
      | Some c \<Rightarrow> if matches c then Some c else cmd_probe fuel tbl matches ((idx + 1) mod CMD_HASH_SIZE))"

definition lookup_command :: "bytes \<Rightarrow> int \<Rightarrow> command option" where
  "lookup_command name len =
     (let compare_len = (if len > 0 then len else int (length (cstr name)));
          h = cmd_hash (takeWhile (\<lambda>c. c \<noteq> NUL) (take (nat compare_len) name))
      in cmd_probe CMD_HASH_SIZE kvs_cmd_init (name_matches name compare_len) (cmd_slot h))"

text \<open>\<open>kvs_execute_batch\<close>: it executes the first command of the batch; the callers pass one.\<close>

definition kvs_execute_batch ::
  "cmd_env \<Rightarrow> command option \<Rightarrow> resp_request \<Rightarrow> kvs_server \<Rightarrow> (resp_reply \<times> kvs_server) option" where
  "kvs_execute_batch env cmd req s =
     (case cmd of
        None \<Rightarrow> Some (rep KVS_RESP_UNKNOWN, s)
      | Some c \<Rightarrow> run_proc (cproc c) env req s)"

end
