(* ===== verification/Kvs_Lookup.thy ===== *)
theory Kvs_Lookup
  imports Kvs_Command
begin

text \<open>
  Correctness of the command index of \<^verbatim>\<open>kvstore.c\<close>: linear probing finds what was inserted as
  long as a slot stays free, so \<open>lookup_command\<close> finds exactly what a linear search of
  \<open>g_cmd_table\<close> finds and its loop always ends.
\<close>

section \<open>Comparing names\<close>

lemma of_char_NUL: "(of_char c :: int) = 0 \<longleftrightarrow> c = NUL"
proof -
  have "(of_char NUL :: int) = 0"
    by code_simp
  then show ?thesis
    by (metis of_char_eq_iff)
qed

lemma strncmp_eq_take:
  "length a = n \<Longrightarrow> NUL \<notin> set a \<Longrightarrow> strncmp n a b = 0 \<longleftrightarrow> take n b = a"
proof (induction n arbitrary: a b)
  case (Suc n)
  then obtain x xs where a: "a = x # xs" "length xs = n" "x \<noteq> NUL" "NUL \<notin> set xs"
    by (cases a) auto
  then show ?case
    using Suc.IH [of xs] by (cases b) (auto simp: of_char_NUL)
qed simp

lemma toupper_code:
  "(of_char (toupper c) :: nat) = (let n = of_char c in if 97 \<le> n \<and> n \<le> 122 then n - 32 else n)"
  by (auto simp: toupper_def Let_def of_char_of)

lemma nat_of_char_NUL: "(of_char c :: nat) = 0 \<longleftrightarrow> c = NUL"
proof -
  have "(of_char NUL :: nat) = 0"
    by code_simp
  then show ?thesis
    by (metis of_char_eq_iff)
qed

lemma toupper_NUL: "toupper c = NUL \<longleftrightarrow> c = NUL"
  using nat_of_char_NUL [of c] nat_of_char_NUL [of "toupper c"] toupper_code [of c]
  by (auto simp: Let_def split: if_splits)

section \<open>Linear probing\<close>

abbreviation slot_at :: "'a option list \<Rightarrow> nat \<Rightarrow> nat \<Rightarrow> 'a option" where
  "slot_at tbl idx n \<equiv> tbl ! ((idx + n) mod CMD_HASH_SIZE)"

text \<open>Probing from \<open>idx\<close> meets \<open>c\<close> before any free slot.\<close>

definition in_probe :: "command option list \<Rightarrow> nat \<Rightarrow> command \<Rightarrow> bool" where
  "in_probe tbl idx c \<longleftrightarrow>
     (\<exists>n<CMD_HASH_SIZE. (\<forall>m<n. slot_at tbl idx m \<noteq> None) \<and> slot_at tbl idx n = Some c)"

lemma slot_Suc: "slot_at tbl ((idx + 1) mod CMD_HASH_SIZE) m = slot_at tbl idx (Suc m)"
  by (simp add: mod_simps)

lemma free_slot_found:
  "cmd_free_slot fuel tbl idx = Some j \<Longrightarrow> idx < CMD_HASH_SIZE \<Longrightarrow>
   \<exists>n<fuel. (\<forall>m<n. slot_at tbl idx m \<noteq> None) \<and> j = (idx + n) mod CMD_HASH_SIZE \<and> tbl ! j = None"
proof (induction fuel tbl idx rule: cmd_free_slot.induct)
  case (2 fuel tbl idx)
  show ?case
  proof (cases "tbl ! idx = None")
    case True
    with 2 show ?thesis by (intro exI [of _ 0]) simp
  next
    case False
    let ?i = "(idx + 1) mod CMD_HASH_SIZE"
    have "\<exists>n<fuel. (\<forall>m<n. slot_at tbl ?i m \<noteq> None) \<and> j = (?i + n) mod CMD_HASH_SIZE \<and> tbl ! j = None"
      using 2 False by (intro "2.IH") (simp_all add: CMD_HASH_SIZE_def)
    then obtain n where n: "n < fuel" "\<forall>m<n. slot_at tbl ?i m \<noteq> None" "j = (?i + n) mod CMD_HASH_SIZE" "tbl ! j = None"
      by blast
    have "\<forall>m<Suc n. slot_at tbl idx m \<noteq> None"
      using n(2) False 2(3) unfolding slot_Suc by (auto simp: less_Suc_eq_0_disj)
    then show ?thesis
      using n by (intro exI [of _ "Suc n"]) (simp add: mod_simps)
  qed
qed simp

lemma free_slot_exists:
  "slot_at tbl idx n = None \<Longrightarrow> n < fuel \<Longrightarrow> idx < CMD_HASH_SIZE \<Longrightarrow> cmd_free_slot fuel tbl idx \<noteq> None"
proof (induction fuel tbl idx arbitrary: n rule: cmd_free_slot.induct)
  case (2 fuel tbl idx)
  show ?case
  proof (cases n)
    case 0
    with 2 show ?thesis by simp
  next
    case (Suc m)
    then have "tbl ! idx \<noteq> None \<Longrightarrow> cmd_free_slot fuel tbl ((idx + 1) mod CMD_HASH_SIZE) \<noteq> None"
      using 2 by (intro "2.IH" [of m]) (simp_all add: mod_simps CMD_HASH_SIZE_def)
    then show ?thesis by simp
  qed
qed simp

lemma reach_slot: "idx < CMD_HASH_SIZE \<Longrightarrow> i < CMD_HASH_SIZE \<Longrightarrow> \<exists>n<CMD_HASH_SIZE. (idx + n) mod CMD_HASH_SIZE = i"
  by (intro exI [of _ "(i + CMD_HASH_SIZE - idx) mod CMD_HASH_SIZE"]) (simp add: mod_simps CMD_HASH_SIZE_def)

section \<open>The index\<close>

definition entries :: "command option list \<Rightarrow> command set" where
  "entries tbl = {c. Some c \<in> set tbl}"

text \<open>What the insertions of the commands \<open>cs\<close> establish.\<close>

definition index_ok :: "command option list \<Rightarrow> command list \<Rightarrow> bool" where
  "index_ok tbl cs \<longleftrightarrow> length tbl = CMD_HASH_SIZE \<and> entries tbl \<subseteq> set cs \<and>
     length (filter (\<lambda>x. x \<noteq> None) tbl) \<le> length cs \<and>
     (\<forall>c\<in>set cs. in_probe tbl (cmd_slot (cmd_hash (cname c))) c)"

lemma cmd_slot_less: "cmd_slot h < CMD_HASH_SIZE"
proof -
  have "h AND 63 \<le> 63"
    by (rule word_and_le1)
  then have "unat (h AND 63) \<le> unat (63 :: 32 word)"
    by (simp only: word_le_nat_alt)
  then show ?thesis
    by (simp add: cmd_slot_def CMD_HASH_SIZE_def)
qed

lemma filter_update_le:
  "length (filter P (xs[i := x])) \<le> Suc (length (filter P xs))"
  by (induction xs arbitrary: i) (auto split: nat.split simp: le_SucI)

lemma free_slot_left:
  assumes "length tbl = CMD_HASH_SIZE" and "length (filter (\<lambda>x. x \<noteq> None) tbl) < CMD_HASH_SIZE"
  shows "\<exists>i<CMD_HASH_SIZE. tbl ! i = None"
proof (rule ccontr)
  assume "\<not> (\<exists>i<CMD_HASH_SIZE. tbl ! i = None)"
  then have "\<forall>x\<in>set tbl. x \<noteq> None"
    using assms(1) by (metis in_set_conv_nth)
  then have "filter (\<lambda>x. x \<noteq> None) tbl = tbl"
    by (simp only: filter_id_conv)
  with assms show False by simp
qed

lemma cmd_insert_ok:
  assumes "index_ok tbl cs" and "length cs < CMD_HASH_SIZE"
  shows "index_ok (cmd_insert tbl c) (cs @ [c])"
proof -
  let ?idx = "cmd_slot (cmd_hash (cname c))"
  have len: "length tbl = CMD_HASH_SIZE"
    using assms(1) by (simp add: index_ok_def)
  have "\<exists>i<CMD_HASH_SIZE. tbl ! i = None"
    using assms len by (intro free_slot_left) (auto simp: index_ok_def)
  then obtain n where "n < CMD_HASH_SIZE" "slot_at tbl ?idx n = None"
    using reach_slot [OF cmd_slot_less] by metis
  then obtain j where j: "cmd_free_slot CMD_HASH_SIZE tbl ?idx = Some j"
    using free_slot_exists [OF _ _ cmd_slot_less] by blast
  then obtain n where n: "n < CMD_HASH_SIZE" "\<forall>m<n. slot_at tbl ?idx m \<noteq> None" "j = (?idx + n) mod CMD_HASH_SIZE" "tbl ! j = None"
    using free_slot_found [OF _ cmd_slot_less] by blast
  have jl: "j < length tbl"
    using n(3) len by (simp add: CMD_HASH_SIZE_def)
  have ins: "cmd_insert tbl c = tbl[j := Some c]"
    by (simp add: cmd_insert_def j)
  have keep: "slot_at (tbl[j := Some c]) i m = slot_at tbl i m" if "slot_at tbl i m \<noteq> None" for i m
    using that n(4) by (metis nth_list_update_neq)
  have old: "in_probe (tbl[j := Some c]) i d" if "in_probe tbl i d" for i d
    using that keep unfolding in_probe_def by (metis option.distinct(1))
  have "slot_at (tbl[j := Some c]) ?idx n = Some c" "\<forall>m<n. slot_at (tbl[j := Some c]) ?idx m \<noteq> None"
    using n(2,3) jl keep by simp_all
  then have "in_probe (tbl[j := Some c]) ?idx c"
    using n(1) unfolding in_probe_def by blast
  moreover have "entries (tbl[j := Some c]) \<subseteq> insert c (entries tbl)"
    using set_update_subset_insert [of tbl j "Some c"] by (auto simp: entries_def)
  moreover have "length (filter (\<lambda>x. x \<noteq> None) (tbl[j := Some c])) \<le> Suc (length (filter (\<lambda>x. x \<noteq> None) tbl))"
    by (rule filter_update_le)
  ultimately show ?thesis
    using assms(1) old len unfolding ins index_ok_def by auto
qed

lemma cmd_inserts_ok:
  "index_ok tbl cs \<Longrightarrow> length cs + length ds \<le> CMD_HASH_SIZE \<Longrightarrow> index_ok (foldl cmd_insert tbl ds) (cs @ ds)"
proof (induction ds arbitrary: tbl cs)
  case (Cons d ds)
  then show ?case
    using cmd_insert_ok [of tbl cs d] Cons.IH [of "cmd_insert tbl d" "cs @ [d]"] by simp
qed simp

lemma table_length: "length g_cmd_table = 37"
  by (simp add: g_cmd_table_def)

lemma kvs_cmd_init_ok: "index_ok kvs_cmd_init g_cmd_table"
proof -
  have "index_ok (replicate CMD_HASH_SIZE None) []"
    by (simp add: index_ok_def entries_def)
  from cmd_inserts_ok [OF this, of g_cmd_table] show ?thesis
    by (simp add: kvs_cmd_init_def table_length CMD_HASH_SIZE_def)
qed


section \<open>Lookup\<close>

lemma table_names: "\<forall>c\<in>set g_cmd_table. NUL \<notin> set (cname c) \<and> map toupper (cname c) = cname c"
  by code_simp

lemma table_distinct: "distinct (map cname g_cmd_table)"
  by code_simp

lemma table_inj: "c \<in> set g_cmd_table \<Longrightarrow> d \<in> set g_cmd_table \<Longrightarrow> cname c = cname d \<Longrightarrow> c = d"
  using table_distinct by (metis distinct_map inj_onD)

lemma name_matches_iff:
  assumes "c \<in> set g_cmd_table"
  shows "name_matches name n c \<longleftrightarrow>
    int (length (cname c)) = n \<and> map toupper (take (length (cname c)) name) = cname c"
  using assms table_names strncmp_eq_take [of "cname c" "length (cname c)" "map toupper name"]
  by (auto simp: name_matches_def strncasecmp_def take_map)

lemma cmd_hash_upper: "cmd_hash s = foldl (\<lambda>h c. (push_bit 5 h + h) + of_char c) 5381 (map toupper s)"
proof -
  have "foldl djb2 h s = foldl (\<lambda>h c. (push_bit 5 h + h) + of_char c) h (map toupper s)" for h
    by (induction s arbitrary: h) (simp_all add: djb2_def)
  then show ?thesis
    by (simp add: cmd_hash_def)
qed

lemma matched_hash:
  assumes "c \<in> set g_cmd_table" and "name_matches name n c"
  shows "cmd_hash (takeWhile (\<lambda>c. c \<noteq> NUL) (take (nat n) name)) = cmd_hash (cname c)"
proof -
  have m: "nat n = length (cname c)" "map toupper (take (length (cname c)) name) = cname c"
    using assms name_matches_iff by auto
  have "x \<noteq> NUL" if "x \<in> set (take (length (cname c)) name)" for x
  proof -
    have "toupper x \<in> set (cname c)"
      using that m(2) by (metis image_eqI list.set_map)
    then show ?thesis
      using table_names assms(1) toupper_NUL by metis
  qed
  then have clean: "takeWhile (\<lambda>c. c \<noteq> NUL) (take (nat n) name) = take (nat n) name"
    by (simp add: m(1) takeWhile_eq_all_conv)
  show ?thesis
    unfolding cmd_hash_upper clean using m table_names assms(1) by simp
qed

lemma probe_sound: "cmd_probe fuel tbl P idx = Some c \<Longrightarrow> length tbl = CMD_HASH_SIZE \<Longrightarrow> idx < CMD_HASH_SIZE \<Longrightarrow>
  P c \<and> c \<in> entries tbl"
proof (induction fuel tbl P idx rule: cmd_probe.induct)
  case (2 fuel tbl P idx)
  have "(idx + 1) mod CMD_HASH_SIZE < CMD_HASH_SIZE"
    by (simp add: CMD_HASH_SIZE_def)
  with 2 show ?case
    by (auto simp: entries_def split: option.splits if_splits) (metis nth_mem)
qed simp

lemma probe_finds:
  "\<forall>m<n. slot_at tbl idx m \<noteq> None \<Longrightarrow> slot_at tbl idx n = Some c \<Longrightarrow> P c \<Longrightarrow> n < fuel \<Longrightarrow> idx < CMD_HASH_SIZE \<Longrightarrow>
   \<exists>d. cmd_probe fuel tbl P idx = Some d"
proof (induction fuel tbl P idx arbitrary: n rule: cmd_probe.induct)
  case (2 fuel tbl P idx)
  show ?case
  proof (cases n)
    case 0
    with 2 show ?thesis by simp
  next
    case (Suc m)
    obtain d where d: "tbl ! idx = Some d"
      using 2(2,6) Suc by (metis Nat.add_0_right mod_less not_None_eq zero_less_Suc)
    show ?thesis
    proof (cases "P d")
      case False
      have "\<forall>k<m. slot_at tbl ((idx + 1) mod CMD_HASH_SIZE) k \<noteq> None"
        "slot_at tbl ((idx + 1) mod CMD_HASH_SIZE) m = Some c"
        using 2(2,3) Suc unfolding slot_Suc by blast+
      then have "\<exists>d. cmd_probe fuel tbl P ((idx + 1) mod CMD_HASH_SIZE) = Some d"
        using 2(4,5) Suc by (intro "2.IH" [OF d False, of m]) (simp_all add: CMD_HASH_SIZE_def)
      with d False show ?thesis by simp
    qed (use d in simp)
  qed
qed simp

text \<open>A free slot ends the loop, so more than 64 steps change nothing.\<close>

lemma probe_enough_fuel:
  "slot_at tbl idx n = None \<Longrightarrow> n < fuel \<Longrightarrow> n < fuel' \<Longrightarrow> idx < CMD_HASH_SIZE \<Longrightarrow>
   cmd_probe fuel tbl P idx = cmd_probe fuel' tbl P idx"
proof (induction fuel tbl P idx arbitrary: n fuel' rule: cmd_probe.induct)
  case (2 fuel tbl P idx)
  obtain f where f: "fuel' = Suc f"
    using 2(4) by (cases fuel') auto
  show ?case
  proof (cases n)
    case 0
    with 2 f show ?thesis by simp
  next
    case (Suc m)
    have "cmd_probe fuel tbl P ((idx + 1) mod CMD_HASH_SIZE) = cmd_probe f tbl P ((idx + 1) mod CMD_HASH_SIZE)"
      if "tbl ! idx = Some c" "\<not> P c" for c
      using 2(2-5) Suc f by (intro "2.IH" [OF that, of m]) (simp_all add: mod_simps CMD_HASH_SIZE_def)
    then show ?thesis
      by (auto simp: f split: option.split)
  qed
qed simp


lemma lookup_find:
  "lookup_command name len = find (name_matches name (if len > 0 then len else int (length (cstr name)))) g_cmd_table"
  (is "_ = find (name_matches name ?n) _")
proof -
  let ?P = "name_matches name ?n"
  let ?idx = "cmd_slot (cmd_hash (takeWhile (\<lambda>c. c \<noteq> NUL) (take (nat ?n) name)))"
  have len: "length kvs_cmd_init = CMD_HASH_SIZE" and sub: "entries kvs_cmd_init \<subseteq> set g_cmd_table"
    and reach: "\<And>c. c \<in> set g_cmd_table \<Longrightarrow> in_probe kvs_cmd_init (cmd_slot (cmd_hash (cname c))) c"
    using kvs_cmd_init_ok by (auto simp: index_ok_def)
  have lookup: "lookup_command name len = cmd_probe CMD_HASH_SIZE kvs_cmd_init ?P ?idx"
    by (simp add: lookup_command_def Let_def)
  have uniq: "c = d" if "c \<in> set g_cmd_table" "d \<in> set g_cmd_table" "?P c" "?P d" for c d
    using that name_matches_iff table_inj by (metis of_nat_eq_iff)
  show ?thesis
  proof (cases "find ?P g_cmd_table")
    case None
    then have "\<not> ?P c" if "c \<in> set g_cmd_table" for c
      using that by (auto simp: find_None_iff)
    then show ?thesis
      using None probe_sound [OF _ len cmd_slot_less] sub unfolding lookup by (metis not_None_eq subsetD)
  next
    case (Some c)
    then have c: "c \<in> set g_cmd_table" "?P c"
      by (auto simp: find_Some_iff)
    obtain m where "m < CMD_HASH_SIZE" "\<forall>i<m. slot_at kvs_cmd_init ?idx i \<noteq> None" "slot_at kvs_cmd_init ?idx m = Some c"
      using reach [OF c(1)] unfolding matched_hash [OF c] in_probe_def by blast
    then obtain d where d: "lookup_command name len = Some d"
      using probe_finds [of m kvs_cmd_init ?idx c ?P, OF _ _ c(2) _ cmd_slot_less] unfolding lookup by blast
    note dP = probe_sound [OF d [unfolded lookup] len cmd_slot_less]
    then have "c = d"
      using sub by (intro uniq [OF c(1) _ c(2)]) auto
    with d Some show ?thesis by simp
  qed
qed

lemma probe_ends:
  "cmd_probe (CMD_HASH_SIZE + k) kvs_cmd_init P (cmd_slot h) = cmd_probe CMD_HASH_SIZE kvs_cmd_init P (cmd_slot h)"
proof -
  have len: "length kvs_cmd_init = CMD_HASH_SIZE"
    and few: "length (filter (\<lambda>x. x \<noteq> None) kvs_cmd_init) < CMD_HASH_SIZE"
    using kvs_cmd_init_ok by (auto simp: index_ok_def table_length CMD_HASH_SIZE_def)
  obtain n where "n < CMD_HASH_SIZE" "slot_at kvs_cmd_init (cmd_slot h) n = None"
    using free_slot_left [OF len few] reach_slot [OF cmd_slot_less] by metis
  then show ?thesis
    using probe_enough_fuel [OF _ _ _ cmd_slot_less] by (metis trans_less_add1)
qed

section \<open>Properties\<close>

text \<open>
  C21. The hashed command index is equivalent to a linear search: \<open>lookup_command\<close> returns the
  first entry of the command table whose name equals the given one up to case, or nothing; and
  its probing loop ends, since any larger step bound gives the same answer.
\<close>

theorem lookup_command_linear:
  "lookup_command name len =
     find (name_matches name (if len > 0 then len else int (length (cstr name)))) g_cmd_table \<and>
   (\<forall>k. cmd_probe (CMD_HASH_SIZE + k) kvs_cmd_init P (cmd_slot h) = cmd_probe CMD_HASH_SIZE kvs_cmd_init P (cmd_slot h))"
  using lookup_find probe_ends by blast

end
