(* ===== verification/Kvs_Refine.thy ===== *)
theory Kvs_Refine
  imports Kvs_Lookup
begin

text \<open>
  The command layer against its abstract specification: the eight stores as maps
  (\<^verbatim>\<open>store_view\<close>) and what each writing command does to them. The lemmas show that the
  handlers keep every store's invariant, that a command that reports success has exactly the
  specified effect, and that the other commands change nothing beyond dropping expired entries.
\<close>

section \<open>Specification\<close>

text \<open>The commands that change data, as the table names them.\<close>

fun is_write_proc :: "proc \<Rightarrow> bool" where
  "is_write_proc p \<longleftrightarrow> p \<in>
     {P_array_set, P_array_del, P_array_mod, P_rbtree_set, P_rbtree_del, P_rbtree_mod,
      P_hash_set, P_hash_del, P_hash_mod, P_skip_set, P_skip_del, P_skip_mod,
      P_keep, P_setctx, P_setrec, P_setidx, P_zadd, P_delctx}"

fun is_del_proc :: "proc \<Rightarrow> bool" where
  "is_del_proc p \<longleftrightarrow> p \<in> {P_array_del, P_rbtree_del, P_hash_del, P_skip_del, P_delctx}"

text \<open>Replies that report that the command was carried out; a DEL of an absent key is.\<close>

definition succeeded :: "proc \<Rightarrow> resp_reply \<Rightarrow> bool" where
  "succeeded p r \<longleftrightarrow> status r = KVS_RESP_OK \<or> is_del_proc p \<and> status r = KVS_RESP_NO_EXISTS"

definition set_expire :: "bool \<Rightarrow> cmd_env \<Rightarrow> resp_request \<Rightarrow> int" where
  "set_expire ttl env req = (if ttl then parse_ttl (e_now env) req else 0)"

definition ctx_expire :: "cmd_env \<Rightarrow> resp_request \<Rightarrow> int" where
  "ctx_expire env req =
     (let ttl_sec = atoll (argp req 3) in if ttl_sec > 0 then i64 (e_time env * 1000 + ttl_sec * 1000) else 0)"

text \<open>Adding an ID to a keyword list, if it is not there.\<close>

definition spec_append :: "store_map \<Rightarrow> bytes \<Rightarrow> bytes \<Rightarrow> store_map" where
  "spec_append m k x =
     (case m k of
        None \<Rightarrow> m(k \<mapsto> (x, 0))
      | Some (l, e) \<Rightarrow>
          if l = [] then m(k \<mapsto> (x, 0))
          else if x \<in> set (id_tokens [] l) then m
          else m(k \<mapsto> (l @ CHR '','' # x, 0)))"

fun spec_write :: "proc \<Rightarrow> bool \<Rightarrow> cmd_env \<Rightarrow> resp_request \<Rightarrow> store_view \<Rightarrow> store_view" where
  "spec_write P_array_set ttl env req v = v\<lparr>v_array := (v_array v)(arg req 1 \<mapsto> (arg req 2, set_expire ttl env req))\<rparr>"
| "spec_write P_array_mod ttl env req v = v\<lparr>v_array := (v_array v)(arg req 1 \<mapsto> (arg req 2, 0))\<rparr>"
| "spec_write P_array_del ttl env req v = v\<lparr>v_array := (v_array v)(arg req 1 := None)\<rparr>"
| "spec_write P_rbtree_set ttl env req v = v\<lparr>v_rbtree := (v_rbtree v)(arg req 1 \<mapsto> (arg req 2, set_expire ttl env req))\<rparr>"
| "spec_write P_rbtree_mod ttl env req v = v\<lparr>v_rbtree := (v_rbtree v)(arg req 1 \<mapsto> (arg req 2, 0))\<rparr>"
| "spec_write P_rbtree_del ttl env req v = v\<lparr>v_rbtree := (v_rbtree v)(arg req 1 := None)\<rparr>"
| "spec_write P_hash_set ttl env req v = v\<lparr>v_hash := (v_hash v)(arg req 1 \<mapsto> (arg req 2, set_expire ttl env req))\<rparr>"
| "spec_write P_hash_mod ttl env req v = v\<lparr>v_hash := (v_hash v)(arg req 1 \<mapsto> (arg req 2, 0))\<rparr>"
| "spec_write P_hash_del ttl env req v = v\<lparr>v_hash := (v_hash v)(arg req 1 := None)\<rparr>"
| "spec_write P_skip_set ttl env req v = v\<lparr>v_skip := (v_skip v)(arg req 1 \<mapsto> (arg req 2, set_expire ttl env req))\<rparr>"
| "spec_write P_skip_mod ttl env req v = v\<lparr>v_skip := (v_skip v)(arg req 1 \<mapsto> (arg req 2, 0))\<rparr>"
| "spec_write P_skip_del ttl env req v = v\<lparr>v_skip := (v_skip v)(arg req 1 := None)\<rparr>"
| "spec_write P_keep ttl env req v = v\<lparr>v_hash1 := (v_hash1 v)(arg req 1 \<mapsto> (arg req 2, 0))\<rparr>"
| "spec_write P_setctx ttl env req v = v\<lparr>v_hash2 := (v_hash2 v)(arg req 1 \<mapsto> (arg req 2, ctx_expire env req))\<rparr>"
| "spec_write P_delctx ttl env req v = v\<lparr>v_hash2 := (v_hash2 v)(arg req 1 := None)\<rparr>"
| "spec_write P_setrec ttl env req v = v\<lparr>v_hash3 := (v_hash3 v)(arg req 1 \<mapsto> (arg req 2, 0))\<rparr>"
| "spec_write P_setidx ttl env req v =
     v\<lparr>v_hash4 := spec_append (spec_op (v_hash4 v) (OpGet ttl (e_now env) (arg req 1))) (arg req 1) (arg req 2)\<rparr>"
| "spec_write P_zadd ttl env req v =
     (case zset_make_key 128 (atoll (argp req 1)) (arg req 2) of
        None \<Rightarrow> v
      | Some k \<Rightarrow> v\<lparr>v_skip := (v_skip v)(k \<mapsto> ([], 0))\<rparr>)"
| "spec_write p ttl env req v = v"

definition view_le :: "store_view \<Rightarrow> store_view \<Rightarrow> bool" where
  "view_le v w \<longleftrightarrow> v_array v \<subseteq>\<^sub>m v_array w \<and> v_rbtree v \<subseteq>\<^sub>m v_rbtree w \<and> v_hash v \<subseteq>\<^sub>m v_hash w \<and>
     v_hash1 v \<subseteq>\<^sub>m v_hash1 w \<and> v_hash2 v \<subseteq>\<^sub>m v_hash2 w \<and> v_hash3 v \<subseteq>\<^sub>m v_hash3 w \<and>
     v_hash4 v \<subseteq>\<^sub>m v_hash4 w \<and> v_skip v \<subseteq>\<^sub>m v_skip w"

section \<open>Effects\<close>

lemmas array_effects = arr.set_effect arr.del_effect arr.get_effect arr.exist_effect
lemmas rbtree_effects = rbe.set_effect [simplified] rbe.del_effect rbe.get_effect rbe.exist_effect
lemmas hash_effects = hsh.set_effect [simplified] hsh.del_effect hsh.get_effect hsh.exist_effect
lemmas skip_effects = ske.set_effect [simplified] ske.del_effect ske.get_effect ske.exist_effect

text \<open>What a handler guarantees.\<close>

definition handler_ok :: "proc \<Rightarrow> cmd_env \<Rightarrow> resp_request \<Rightarrow> kvs_server \<Rightarrow> resp_reply \<Rightarrow> kvs_server \<Rightarrow> bool" where
  "handler_ok p env req s r s' \<longleftrightarrow> server_inv s' \<and> g_enable_ttl s' = g_enable_ttl s \<and>
     (if is_write_proc p
      then succeeded p r \<longrightarrow> view s' = spec_write p (g_enable_ttl s) env req (view s)
      else view_le (view s') (view s) \<and> (\<not> g_enable_ttl s \<longrightarrow> view s' = view s))"

text \<open>Updating one store: the invariant, the view and its order.\<close>

lemma server_inv_upd [simp]:
  assumes "server_inv s"
  shows "server_inv (s\<lparr>global_array := x0\<rparr>) \<longleftrightarrow> array_inv x0"
    and "server_inv (s\<lparr>global_rbtree := x1\<rparr>) \<longleftrightarrow> rbtree_inv x1"
    and "server_inv (s\<lparr>global_hash := x2\<rparr>) \<longleftrightarrow> hash_inv x2"
    and "server_inv (s\<lparr>global_hash1 := x3\<rparr>) \<longleftrightarrow> hash_inv x3"
    and "server_inv (s\<lparr>global_hash2 := x4\<rparr>) \<longleftrightarrow> hash_inv x4"
    and "server_inv (s\<lparr>global_hash3 := x5\<rparr>) \<longleftrightarrow> hash_inv x5"
    and "server_inv (s\<lparr>global_hash4 := x6\<rparr>) \<longleftrightarrow> hash_inv x6"
    and "server_inv (s\<lparr>global_skip := x7\<rparr>) \<longleftrightarrow> skip_inv x7"
  using assms by (simp_all add: server_inv_def)

lemma view_upd [simp]:
  "view (s\<lparr>global_array := x0\<rparr>) = (view s)\<lparr>v_array := array_contents x0\<rparr>"
  "view (s\<lparr>global_rbtree := x1\<rparr>) = (view s)\<lparr>v_rbtree := rbtree_contents x1\<rparr>"
  "view (s\<lparr>global_hash := x2\<rparr>) = (view s)\<lparr>v_hash := hash_contents x2\<rparr>"
  "view (s\<lparr>global_hash1 := x3\<rparr>) = (view s)\<lparr>v_hash1 := hash_contents x3\<rparr>"
  "view (s\<lparr>global_hash2 := x4\<rparr>) = (view s)\<lparr>v_hash2 := hash_contents x4\<rparr>"
  "view (s\<lparr>global_hash3 := x5\<rparr>) = (view s)\<lparr>v_hash3 := hash_contents x5\<rparr>"
  "view (s\<lparr>global_hash4 := x6\<rparr>) = (view s)\<lparr>v_hash4 := hash_contents x6\<rparr>"
  "view (s\<lparr>global_skip := x7\<rparr>) = (view s)\<lparr>v_skip := skip_contents x7\<rparr>"
  by (simp_all add: view_def)

lemma view_sel [simp]:
  "v_array (view s) = array_contents (global_array s)"
  "v_rbtree (view s) = rbtree_contents (global_rbtree s)"
  "v_hash (view s) = hash_contents (global_hash s)"
  "v_hash1 (view s) = hash_contents (global_hash1 s)"
  "v_hash2 (view s) = hash_contents (global_hash2 s)"
  "v_hash3 (view s) = hash_contents (global_hash3 s)"
  "v_hash4 (view s) = hash_contents (global_hash4 s)"
  "v_skip (view s) = skip_contents (global_skip s)"
  by (simp_all add: view_def)

lemma view_same [simp]:
  "view (s\<lparr>global_array := global_array s\<rparr>) = view s"
  "view (s\<lparr>global_rbtree := global_rbtree s\<rparr>) = view s"
  "view (s\<lparr>global_hash := global_hash s\<rparr>) = view s"
  "view (s\<lparr>global_hash1 := global_hash1 s\<rparr>) = view s"
  "view (s\<lparr>global_hash2 := global_hash2 s\<rparr>) = view s"
  "view (s\<lparr>global_hash3 := global_hash3 s\<rparr>) = view s"
  "view (s\<lparr>global_hash4 := global_hash4 s\<rparr>) = view s"
  "view (s\<lparr>global_skip := global_skip s\<rparr>) = view s"
  by simp_all

lemma other_upd [simp]:
  "view (s\<lparr>g_cmd_queue := q\<rparr>) = view s" "view (s\<lparr>global_vector_index := idx\<rparr>) = view s"
  "server_inv (s\<lparr>g_cmd_queue := q\<rparr>) = server_inv s" "server_inv (s\<lparr>global_vector_index := idx\<rparr>) = server_inv s"
  by (simp_all add: view_def server_inv_def)

lemma view_le_refl [simp]: "view_le v v"
  by (simp add: view_le_def)

lemma view_le_upd [simp]:
  "view_le (v\<lparr>v_hash4 := y6, v_hash3 := y5\<rparr>) v \<longleftrightarrow> y5 \<subseteq>\<^sub>m v_hash3 v \<and> y6 \<subseteq>\<^sub>m v_hash4 v"
  "view_le (v\<lparr>v_array := y0\<rparr>) v \<longleftrightarrow> y0 \<subseteq>\<^sub>m v_array v"
  "view_le (v\<lparr>v_rbtree := y1\<rparr>) v \<longleftrightarrow> y1 \<subseteq>\<^sub>m v_rbtree v"
  "view_le (v\<lparr>v_hash := y2\<rparr>) v \<longleftrightarrow> y2 \<subseteq>\<^sub>m v_hash v"
  "view_le (v\<lparr>v_hash1 := y3\<rparr>) v \<longleftrightarrow> y3 \<subseteq>\<^sub>m v_hash1 v"
  "view_le (v\<lparr>v_hash2 := y4\<rparr>) v \<longleftrightarrow> y4 \<subseteq>\<^sub>m v_hash2 v"
  "view_le (v\<lparr>v_hash3 := y5\<rparr>) v \<longleftrightarrow> y5 \<subseteq>\<^sub>m v_hash3 v"
  "view_le (v\<lparr>v_hash4 := y6\<rparr>) v \<longleftrightarrow> y6 \<subseteq>\<^sub>m v_hash4 v"
  "view_le (v\<lparr>v_skip := y7\<rparr>) v \<longleftrightarrow> y7 \<subseteq>\<^sub>m v_skip v"
  by (simp_all add: view_le_def)

lemma server_inv_stores [simp]:
  assumes "server_inv s"
  shows "array_inv (global_array s)"
    and "rbtree_inv (global_rbtree s)"
    and "hash_inv (global_hash s)"
    and "hash_inv (global_hash1 s)"
    and "hash_inv (global_hash2 s)"
    and "hash_inv (global_hash3 s)"
    and "hash_inv (global_hash4 s)"
    and "skip_inv (global_skip s)"
  using assms by (simp_all add: server_inv_def)

lemmas handler_simps = handler_ok_def with_key_def with_key_value_def Let_def succeeded_def rep_def

lemma array_handlers:
  assumes "server_inv s" and "run_proc p env req s = Some (r, s')" and "argc req \<ge> 2 \<longrightarrow> arg req 1 \<noteq> []"
    and "p \<in> {P_array_set, P_array_get, P_array_del, P_array_mod, P_array_exists}"
  shows "handler_ok p env req s r s'"
  using assms
  by (auto simp: handler_simps cmd_array_set_def cmd_array_get_def cmd_array_del_def cmd_array_mod_def
      cmd_array_exists_def kvs_array_mod_def set_expire_def split: prod.splits if_splits dest!: array_effects)

lemma rbtree_handlers:
  assumes "server_inv s" and "run_proc p env req s = Some (r, s')"
    and "p \<in> {P_rbtree_set, P_rbtree_get, P_rbtree_del, P_rbtree_mod, P_rbtree_exists}"
  shows "handler_ok p env req s r s'"
  using assms
  by (auto simp: handler_simps cmd_rbtree_set_def cmd_rbtree_get_def cmd_rbtree_del_def cmd_rbtree_mod_def
      cmd_rbtree_exists_def kvs_rbtree_mod_def set_expire_def split: prod.splits if_splits dest!: rbtree_effects)

lemma hash_handlers:
  assumes "server_inv s" and "run_proc p env req s = Some (r, s')"
    and "p \<in> {P_hash_set, P_hash_get, P_hash_del, P_hash_mod, P_hash_exists}"
  shows "handler_ok p env req s r s'"
  using assms
  by (auto simp: handler_simps cmd_hash_set_def cmd_hash_get_def cmd_hash_del_def cmd_hash_mod_def
      cmd_hash_exists_def kvs_hash_mod_def set_expire_def split: prod.splits if_splits dest!: hash_effects)

lemma skip_handlers:
  assumes "server_inv s" and "run_proc p env req s = Some (r, s')"
    and "p \<in> {P_skip_set, P_skip_get, P_skip_del, P_skip_mod, P_skip_exists}"
  shows "handler_ok p env req s r s'"
  using assms
  by (auto simp: handler_simps cmd_skip_set_def cmd_skip_get_def cmd_skip_del_def cmd_skip_mod_def
      cmd_skip_exists_def kvs_skip_mod_def set_expire_def split: prod.splits if_splits dest!: skip_effects)

lemma context_handlers:
  assumes "server_inv s" and "run_proc p env req s = Some (r, s')"
    and "p \<in> {P_setctx, P_getctx, P_delctx, P_setrec, P_getrec, P_getidx}"
  shows "handler_ok p env req s r s'"
  using assms
  by (auto simp: handler_simps cmd_setctx_def cmd_getctx_def cmd_delctx_def cmd_setrec_def cmd_getrec_def
      cmd_getidx_def ctx_expire_def split: prod.splits if_splits dest!: hash_effects)


lemma hash_get_None:
  assumes "hash_inv h" and "kvs_hash_get m ttl now h (kd k) = (None, h1)"
  shows "hash_inv h1 \<and> hash_contents h1 = spec_op (hash_contents h) (OpGet ttl now k) \<and> hash_contents h1 k = None"
proof -
  have h1: "hash_inv h1" "hash_contents h1 = spec_op (hash_contents h) (OpGet ttl now k)"
    using hsh.get_invar [OF assms(1), of m ttl now k] hsh.get_contents [OF assms(1), of m ttl now k] assms(2) by simp_all
  have "\<nexists>v e. hash_contents h k = Some (v, e) \<and> \<not> expired ttl now e"
    using hsh.get_live [OF assms(1), of k _ _ ttl now m] assms(2) by auto
  then show ?thesis
    using h1 by (auto split: option.splits)
qed

lemma hash_append_effect:
  assumes "hash_inv h" and "kvs_hash_append ok ttl now h (kd k) (kd x) = (r, h')"
  shows "hash_inv h' \<and>
    (r = 0 \<longrightarrow> hash_contents h' = spec_append (spec_op (hash_contents h) (OpGet ttl now k)) k x)"
proof (cases "x = []")
  case True
  with assms show ?thesis
    by (auto simp: kvs_hash_append_def hash_inv_def)
next
  case x: False
  have b: "buckets h \<noteq> None"
    using assms(1) by (auto simp: hash_inv_def)
  obtain res h1 where get: "kvs_hash_get (ok 5) ttl now h (kd k) = (res, h1)"
    by fastforce
  show ?thesis
  proof (cases res)
    case None
    have h1: "hash_inv h1" "spec_op (hash_contents h) (OpGet ttl now k) = hash_contents h1" "hash_contents h1 k = None"
      using hash_get_None [OF assms(1) get [unfolded None]] by metis+
    have "kvs_hash_set ok h1 (kd k) (kd x) 0 = (r, h')"
      using assms(2) b x get None by (simp add: kvs_hash_append_def)
    then show ?thesis
      unfolding h1(2) using hsh.set_effect [of ok h1 k x 0 r h'] h1(1,3) by (simp add: spec_append_def)
  next
    case (Some d)
    obtain e where d: "h1 = h" "hash_contents h k = Some (kbytes d, e)" "\<not> expired ttl now e"
      using hsh.get_SomeD [OF assms(1) get [unfolded Some]] by blast
    then have "spec_op (hash_contents h) (OpGet ttl now k) = hash_contents h"
      by simp
    then show ?thesis
      using assms b x get Some d(1,2) hsh.set_effect [of ok h k _ 0 r h']
      by (auto simp: kvs_hash_append_def spec_append_def klen_def has_id_iff split: if_splits)
  qed
qed

lemma records_loop_effect:
  "records_loop ok shrink ttl now ids j cap buf written h = (res, h') \<Longrightarrow> hash_inv h \<Longrightarrow>
   hash_inv h' \<and> (\<not> ttl \<longrightarrow> h' = h) \<and> hash_contents h' \<subseteq>\<^sub>m hash_contents h"
proof (induction ids arbitrary: j cap buf written h)
  case (Cons x xs)
  obtain r h1 where get: "kvs_hash_get shrink ttl now h (kd (cstr x)) = (r, h1)"
    by fastforce
  note h1 = hsh.get_effect [OF get Cons.prems(2)]
  then have step: "hash_inv h' \<and> (\<not> ttl \<longrightarrow> h' = h) \<and> hash_contents h' \<subseteq>\<^sub>m hash_contents h"
    if "records_loop ok shrink ttl now xs j' cap' buf' w' h1 = (res, h')" for j' cap' buf' w'
    using Cons.IH [OF that] map_le_trans by blast
  show ?case
    using Cons.prems(1) get h1 by (auto simp: Let_def split: option.splits if_splits dest!: step)
qed simp

lemma records_effect:
  "build_records_newline ok shrink ttl now ids h = (reply, h') \<Longrightarrow> hash_inv h \<Longrightarrow>
   hash_inv h' \<and> (\<not> ttl \<longrightarrow> h' = h) \<and> hash_contents h' \<subseteq>\<^sub>m hash_contents h"
  by (auto simp: build_records_newline_def split: if_splits option.splits prod.splits dest!: records_loop_effect)

lemma match_effect:
  "match_find_answer tv cosine thr idx m shrink ttl now h q = (ret, ans, h') \<Longrightarrow> hash_inv h \<Longrightarrow>
   hash_inv h' \<and> (\<not> ttl \<longrightarrow> h' = h) \<and> hash_contents h' \<subseteq>\<^sub>m hash_contents h"
  by (auto simp: match_find_answer_def split: if_splits option.splits prod.splits dest!: hsh.get_effect)

lemma zset_add_effect:
  "kvs_zset_add tseed ok s ts (kd i) = (r, s') \<Longrightarrow> skip_inv s \<Longrightarrow>
   skip_inv s' \<and> (r = 0 \<longrightarrow> (\<exists>k. zset_make_key 128 ts i = Some k \<and> skip_contents s' = (skip_contents s)(k \<mapsto> ([], 0))))"
  by (auto simp: kvs_zset_add_def kvs_skip_set_null_value split: if_splits option.splits
      dest!: ske.set_effect [simplified])

lemma keep_handler:
  assumes "server_inv s" and "cmd_keep env req s = Some (r, s')"
  shows "handler_ok P_keep env req s r s'"
  using assms
  by (auto simp: handler_simps cmd_keep_def split: prod.splits if_splits dest!: hsh.set_effect [simplified])

lemma match_handler:
  assumes "server_inv s" and "cmd_match env req s = Some (r, s')"
  shows "handler_ok P_match env req s r s'"
  using assms
  by (auto simp: handler_simps cmd_match_def split: prod.splits if_splits option.splits dest!: match_effect)

lemma setidx_handler:
  assumes "server_inv s" and "cmd_setidx env req s = Some (r, s')"
  shows "handler_ok P_setidx env req s r s'"
  using assms
  by (auto simp: handler_simps cmd_setidx_def simp del: spec_op.simps split: prod.splits if_splits
      dest!: hash_append_effect [rotated])

lemma getidxrec_handler:
  assumes "server_inv s" and "cmd_getidxrec env req s = Some (r, s')"
  shows "handler_ok P_getidxrec env req s r s'"
  using assms
  by (auto simp: handler_simps cmd_getidxrec_def split: prod.splits if_splits option.splits
      dest!: records_effect hsh.get_effect)

lemma time_index_handlers:
  assumes "server_inv s" and "run_proc p env req s = Some (r, s')"
    and "p \<in> {P_zadd, P_zrange, P_zrangerec}"
  shows "handler_ok p env req s r s'"
  using assms
  by (auto simp: handler_simps cmd_zadd_def cmd_zrange_def cmd_zrangerec_def
      split: prod.splits if_splits option.splits dest!: zset_add_effect records_effect)

lemma system_handlers:
  assumes "server_inv s" and "run_proc p env req s = Some (r, s')"
    and "p \<in> {P_sys_save, P_sys_sync, P_sys_sync_done, P_sys_memtrim}"
  shows "handler_ok p env req s r s'"
  using assms
  by (auto simp: handler_simps cmd_sys_save_def cmd_sys_sync_def cmd_sys_sync_done_def cmd_sys_memtrim_def
      repl_destroy_def server_inv_def view_def simp del: server_inv_stores split: if_splits)


text \<open>All commands; the array engine needs a non-empty key.\<close>

fun needs_key :: "proc \<Rightarrow> bool" where
  "needs_key p \<longleftrightarrow> p \<in> {P_array_set, P_array_get, P_array_del, P_array_mod, P_array_exists}"

lemma proc_effect:
  assumes "server_inv s" and "run_proc p env req s = Some (r, s')" and "needs_key p \<and> argc req \<ge> 2 \<longrightarrow> arg req 1 \<noteq> []"
  shows "handler_ok p env req s r s'"
proof (cases "needs_key p")
  case True
  with assms show ?thesis
    by (intro array_handlers) auto
next
  case False
  then show ?thesis
    using rbtree_handlers [OF assms(1,2)] hash_handlers [OF assms(1,2)] skip_handlers [OF assms(1,2)]
      context_handlers [OF assms(1,2)] keep_handler [OF assms(1)] match_handler [OF assms(1)]
      setidx_handler [OF assms(1)] getidxrec_handler [OF assms(1)]
      time_index_handlers [OF assms(1,2)] system_handlers [OF assms(1,2)]
    using assms(2) by (cases p) simp_all
qed

section \<open>Properties\<close>


definition env_demo :: cmd_env where
  "env_demo = \<lparr>e_now = 1000, e_time = 1, e_ok = always_ok, e_hok = always_ok, e_lok = always_ok, e_shrink = True,
     e_tseed = 7, e_junk = 0, e_text_to_vector = (\<lambda>_. Some []), e_cosine = (\<lambda>_ _. 1), e_fork = 5, e_child_done = True\<rparr>"

definition server_demo :: kvs_server where
  "server_demo = create_engines always_ok server_static"

definition req_demo :: "bytes list \<Rightarrow> resp_request" where
  "req_demo args = \<lparr>argc = int (length args), rargv = map (\<lambda>a. a @ crlf) args,
     rargv_len = map (int \<circ> length) args, is_dynamic = False\<rparr>"


end
