(* ===== verification/Kv_Dump.thy ===== *)
theory Kv_Dump
  imports Kvs_Array Kvs_Hash Kvs_Rbtree Kvs_Skip
begin

text \<open>
  What the \<open>foreach\<close> functions of the engines enumerate, as the snapshot writer uses them: an
  extension of the engine interface by a listing of the entries, its consequences for a client
  that writes the listing into another store, and the four engines as instances. The array
  engine lists its entries only while TTL is enabled.
\<close>

type_synonym dump_entry = "bytes \<times> entry"

text \<open>The entries that are not expired.\<close>

definition live_map :: "bool \<Rightarrow> int \<Rightarrow> store_map \<Rightarrow> store_map" where
  "live_map ttl now m k = (case m k of None \<Rightarrow> None | Some (v, e) \<Rightarrow> if expired ttl now e then None else Some (v, e))"

text \<open>Writing entries into a map, in order.\<close>

definition put_all :: "dump_entry list \<Rightarrow> store_map \<Rightarrow> store_map" where
  "put_all xs m = fold (\<lambda>(k, x) m. m(k \<mapsto> x)) xs m"

lemma put_all_simps [simp]:
  "put_all [] m = m" "put_all ((k, x) # xs) m = put_all xs (m(k \<mapsto> x))"
  by (simp_all add: put_all_def)

lemma put_all_notin: "k \<notin> fst ` set xs \<Longrightarrow> put_all xs m k = m k"
  by (induction xs arbitrary: m) auto

text \<open>Where a listing gives one entry per key, its order does not matter.\<close>

lemma put_all_functional:
  assumes "\<forall>k x. (k, x) \<in> set xs \<longleftrightarrow> f k = Some x"
  shows "put_all xs Map.empty = f"
proof -
  have "put_all xs m k = (if k \<in> fst ` set xs then f k else m k)" if "\<forall>k x. (k, x) \<in> set xs \<longrightarrow> f k = Some x" for xs m k
    using that
  proof (induction xs arbitrary: m)
    case (Cons p xs)
    obtain k' x where p: "p = (k', x)"
      by (cases p)
    have "f k' = Some x"
      using Cons.prems p by (cases x) simp
    moreover have "put_all xs (m(k' \<mapsto> x)) k = (if k \<in> fst ` set xs then f k else (m(k' \<mapsto> x)) k)"
      using Cons by (auto simp: p)
    ultimately show ?case
      by (auto simp: p)
  qed simp
  then have "put_all xs Map.empty k = (if k \<in> fst ` set xs then f k else None)" for k
    using assms by simp
  moreover have "f k = None" if "k \<notin> fst ` set xs" for k
    using assms that by (metis fst_conv image_eqI not_None_eq)
  ultimately show ?thesis
    by auto
qed

section \<open>Interface\<close>

locale kv_dump = kv_engine +
  fixes listing :: "'a \<Rightarrow> dump_entry list" and ttl :: bool and now :: int
  assumes listing_iff: "invar s \<Longrightarrow> (k, v, e) \<in> set (listing s) \<longleftrightarrow> contents s k = Some (v, e) \<and> \<not> expired ttl now e"
begin

lemma listing_restores: "invar s \<Longrightarrow> put_all (listing s) Map.empty = live_map ttl now (contents s)"
  by (rule put_all_functional) (auto simp: listing_iff live_map_def split: option.splits)

lemma listing_empty: "invar s \<Longrightarrow> contents s = Map.empty \<Longrightarrow> listing s = []"
  using listing_iff [of s] by (cases "listing s") auto

lemma listing_filter:
  assumes "invar s"
  shows "put_all (filter (\<lambda>(k, v, e). \<not> expired True later e) (listing s)) Map.empty =
    live_map True later (live_map ttl now (contents s))"
  using assms by (intro put_all_functional) (auto simp: listing_iff live_map_def split: option.splits)

end

section \<open>The engines\<close>

definition array_listing :: "bool \<Rightarrow> int \<Rightarrow> kvs_array \<Rightarrow> dump_entry list" where
  "array_listing ttl now a = map (\<lambda>x. (kbytes (akey x), kbytes (avalue x), aexpire_time x)) (kvs_array_foreach ttl now a)"

definition rbtree_listing :: "bool \<Rightarrow> int \<Rightarrow> kvs_rbtree \<Rightarrow> dump_entry list" where
  "rbtree_listing ttl now t = map (\<lambda>n. (kbytes (rkey n), kbytes (rvalue n), rexpire_time n)) (kvs_rbtree_foreach ttl now t)"

definition hash_listing :: "bool \<Rightarrow> int \<Rightarrow> kvs_hash \<Rightarrow> dump_entry list" where
  "hash_listing ttl now h = map (\<lambda>n. (kbytes (hkey n), kbytes (hvalue n), hexpire_time n)) (kvs_hash_foreach ttl now h)"

definition skip_listing :: "bool \<Rightarrow> int \<Rightarrow> kvs_skip \<Rightarrow> dump_entry list" where
  "skip_listing ttl now s = map (\<lambda>n. (kbytes (skey n), kbytes (svalue n), sexpire_time n)) (kvs_skip_foreach ttl now s)"

lemma array_listing_iff:
  assumes "array_inv a"
  shows "(k, v, e) \<in> set (array_listing True now a) \<longleftrightarrow> array_contents a k = Some (v, e) \<and> \<not> expired True now e"
proof -
  obtain t n where a: "a = \<lparr>arr_table = Some t, arr_idx = n, arr_total = n\<rparr>"
    using assms by (elim array_invE)
  have hold: "kdata d \<noteq> None \<and> kbytes d = k \<longleftrightarrow> kdata d = Some k" for d
    by (auto simp: kbytes_def split: option.splits)
  have "array_contents a k = Some (v, e) \<longleftrightarrow> (\<exists>i<n. slot_holds t i k \<and> kbytes (avalue (t i)) = v \<and> aexpire_time (t i) = e)"
    using find_key_index_cases [of t n "kd k"] assms array_contents_hit [of t n _ k] array_contents_miss [of n t k n]
    by (metis (no_types, lifting) a option.inject option.simps(3) prod.inject)
  moreover have "(k, v, e) \<in> set (array_listing True now a) \<longleftrightarrow>
    (\<exists>i<n. (kdata (akey (t i)) \<noteq> None \<and> kbytes (akey (t i)) = k) \<and> kbytes (avalue (t i)) = v \<and> aexpire_time (t i) = e \<and>
      \<not> expired True now e)"
    by (fastforce simp: array_listing_def kvs_array_foreach_def a expired_def image_iff)
  ultimately show ?thesis
    unfolding hold slot_holds_def by auto
qed

lemma rbtree_listing_iff:
  assumes "rbtree_inv t"
  shows "(k, v, e) \<in> set (rbtree_listing ttl now t) \<longleftrightarrow> rbtree_contents t k = Some (v, e) \<and> \<not> expired ttl now e"
proof -
  have ok: "nodes_ok (inorder (rb_root t))"
    using assms by (simp add: rbtree_inv_def)
  have "kvs_rbtree_foreach ttl now t = filter (\<lambda>n. \<not> expired ttl now (rexpire_time n)) (inorder (rb_root t))"
    by (auto simp: kvs_rbtree_foreach_def foreach_node_filter expired_def)
  then show ?thesis
    using nodes_map_iff [OF ok, of k] by (auto simp: rbtree_listing_def rbtree_contents_def rbnode_entry_def image_iff)
qed

lemma bucket_node:
  assumes "buckets_ok s bs" and "slots_ok s"
  shows "chain_search (kd k) (bs ! unat (key_slot k s)) = Some n \<longleftrightarrow> n \<in> set (concat bs) \<and> kbytes (hkey n) = k"
proof
  assume "chain_search (kd k) (bs ! unat (key_slot k s)) = Some n"
  then show "n \<in> set (concat bs) \<and> kbytes (hkey n) = k"
    using chain_search_Some [of "kd k"] slot_in_range [OF assms, of k] by (auto intro: nth_mem)
next
  assume n: "n \<in> set (concat bs) \<and> kbytes (hkey n) = k"
  then obtain b where "b \<in> set bs" "n \<in> set b"
    by auto
  then obtain i where i: "i < length bs" "n \<in> set (bs ! i)"
    by (metis in_set_conv_nth)
  then have slot: "unat (key_slot k s) = i" and uniq: "uniq_keys (bs ! i)"
    using assms(1) n by (auto simp: buckets_ok_def node_ok_def)
  have "n \<in> set (filter (\<lambda>n. kbytes (hkey n) = k) (bs ! i))"
    using i n by simp
  moreover have "length (filter (\<lambda>n. kbytes (hkey n) = k) (bs ! i)) \<le> 1"
    using uniq by (simp add: uniq_keys_def)
  ultimately have "filter (\<lambda>n. kbytes (hkey n) = k) (bs ! i) = [n]"
    by (cases "filter (\<lambda>n. kbytes (hkey n) = k) (bs ! i)") auto
  then show "chain_search (kd k) (bs ! unat (key_slot k s)) = Some n"
    unfolding slot by (simp add: chain_search_filter)
qed

lemma hash_listing_iff:
  assumes "hash_inv h"
  shows "(k, v, e) \<in> set (hash_listing ttl now h) \<longleftrightarrow> hash_contents h k = Some (v, e) \<and> \<not> expired ttl now e"
proof -
  obtain bs where bs: "buckets h = Some bs" "buckets_ok (max_slots h) bs" "slots_ok (max_slots h)"
    using assms by (auto simp: hash_inv_def)
  show ?thesis
    using bucket_node [OF bs(2,3), of k]
    by (auto simp: hash_listing_def kvs_hash_foreach_def hash_contents_def bs(1) bucket_lookup_def node_entry_def
        expired_def image_iff)
qed

lemma skip_listing_iff:
  assumes "skip_inv s"
  shows "(k, v, e) \<in> set (skip_listing ttl now s) \<longleftrightarrow> skip_contents s k = Some (v, e) \<and> \<not> expired ttl now e"
proof -
  obtain hdr xs where wf: "skip_wf s hdr xs"
    using assms by (auto simp: skip_inv_def)
  have "map fst (map snode_entry (skip_nodes s)) = map (ky (sk_heap s)) xs"
    by (simp add: skip_nodes_wf [OF wf] snode_entry_def)
  moreover have "distinct (map (ky (sk_heap s)) xs)"
    using wf by (simp add: skip_wf_def strict_sorted_iff)
  ultimately have "skip_contents s k = Some (v, e) \<longleftrightarrow> (k, v, e) \<in> set (map snode_entry (skip_nodes s))"
    by (simp only: skip_contents_def map_of_eq_Some_iff)
  then show ?thesis
    by (auto simp: skip_listing_def kvs_skip_foreach_def snode_entry_def expired_def image_iff)
qed

interpretation ard: kv_dump array_inv "\<lambda>k. k \<noteq> []" array_contents kvs_array_set kvs_array_get kvs_array_del
  kvs_array_exist kvs_array_del_if_expired "array_listing True now" True now for now
  by unfold_locales (rule array_listing_iff)

interpretation rbd: kv_dump rbtree_inv "\<lambda>_. True" rbtree_contents kvs_rbtree_set kvs_rbtree_get kvs_rbtree_del
  kvs_rbtree_exist kvs_rbtree_del_if_expired "rbtree_listing ttl now" ttl now for ttl now
  by unfold_locales (rule rbtree_listing_iff)

interpretation hsd: kv_dump hash_inv "\<lambda>_. True" hash_contents kvs_hash_set "kvs_hash_get m" "kvs_hash_del m"
  "kvs_hash_exist m" "kvs_hash_del_if_expired m" "hash_listing ttl now" ttl now for m ttl now
  by unfold_locales (rule hash_listing_iff)

interpretation skd: kv_dump skip_inv "\<lambda>_. True" skip_contents "kvs_skip_set tseed" kvs_skip_get kvs_skip_del
  kvs_skip_exist kvs_skip_del_if_expired "skip_listing ttl now" ttl now for tseed ttl now
  by unfold_locales (rule skip_listing_iff)

end
