(* ===== verification/Snapshot.thy ===== *)
theory Snapshot
  imports Kvs_Refine Kv_Dump
begin

unbundle bit_operations_syntax

text \<open>
  The binary snapshot (\<^verbatim>\<open>snapshot.c\<close>): the growing buffer, the callbacks that write one entry,
  \<open>kvs_snapshot_save\<close> with its checksum and the atomic replacement of the file, and
  \<open>kvs_snapshot_load\<close>. Outcomes of system calls and allocations are arguments; \<open>None\<close> stands for a
  write through the NULL pointer of a failed \<open>realloc\<close>, which the code does not check.
\<close>

section \<open>Integers as bytes\<close>

text \<open>The memory image of an integer of \<open>n\<close> bytes, least significant byte first, and its value.\<close>

fun le_bytes :: "nat \<Rightarrow> int \<Rightarrow> bytes" where
  "le_bytes 0 x = []"
| "le_bytes (Suc n) x = char_of (nat (x mod 256)) # le_bytes n (x div 256)"

fun le_int :: "bytes \<Rightarrow> int" where
  "le_int [] = 0"
| "le_int (c # cs) = of_char c + 256 * le_int cs"

lemma length_le_bytes [simp]: "length (le_bytes n x) = n"
  by (induction n arbitrary: x) simp_all

lemma le_int_le_bytes: "le_int (le_bytes n x) = x mod 256 ^ n"
proof (induction n arbitrary: x)
  case (Suc n)
  have "(of_char c :: int) = int (of_char c)" for c
    by (cases c) (simp add: of_char_def)
  then have "(of_char (char_of (nat (x mod 256)) :: char) :: int) = x mod 256"
    by (simp add: of_char_of)
  then have "le_int (le_bytes (Suc n) x) = x mod 256 + 256 * (x div 256 mod 256 ^ n)"
    by (simp add: Suc)
  then show ?case
    by (simp add: zmod_zmult2_eq add.commute)
qed simp

lemma i32_le_bytes: "- (2 ^ 31) \<le> x \<Longrightarrow> x < 2 ^ 31 \<Longrightarrow> i32 (le_int (le_bytes 4 x)) = x"
  by (simp add: le_int_le_bytes i32_def mod_simps)

lemma i64_le_bytes: "- (2 ^ 63) \<le> x \<Longrightarrow> x < 2 ^ 63 \<Longrightarrow> i64 (le_int (le_bytes 8 x)) = x"
  by (simp add: le_int_le_bytes i64_def mod_simps)

section \<open>Checksum\<close>

definition crc_step :: "64 word \<Rightarrow> char \<Rightarrow> 64 word" where
  "crc_step crc c = (crc XOR of_char c) * 1099511628211"

definition kvs_crc64 :: "64 word \<Rightarrow> bytes \<Rightarrow> 64 word" where
  "kvs_crc64 crc buf = foldl crc_step (if crc = 0 then 14695981039346656037 else crc) buf"

section \<open>Writing\<close>

definition SNAP_TYPE_ARRAY :: int where "SNAP_TYPE_ARRAY = 1"
definition SNAP_TYPE_RBTREE :: int where "SNAP_TYPE_RBTREE = 2"
definition SNAP_TYPE_HASH :: int where "SNAP_TYPE_HASH = 3"
definition SNAP_TYPE_SKIPLIST :: int where "SNAP_TYPE_SKIPLIST = 4"
definition SNAP_TYPE_HASH1 :: int where "SNAP_TYPE_HASH1 = 5"
definition SNAP_TYPE_HASH2 :: int where "SNAP_TYPE_HASH2 = 6"
definition SNAP_TYPE_HASH3 :: int where "SNAP_TYPE_HASH3 = 7"
definition SNAP_TYPE_HASH4 :: int where "SNAP_TYPE_HASH4 = 8"

text \<open>The buffer; \<open>offset\<close> is the length of the data. \<open>m c\<close>: \<open>realloc\<close> to capacity \<open>c\<close> succeeds.\<close>

record snapshot_buffer =
  sb_data :: bytes
  sb_capacity :: nat

definition buffer_append :: "(nat \<Rightarrow> bool) \<Rightarrow> snapshot_buffer \<Rightarrow> bytes \<Rightarrow> snapshot_buffer option" where
  "buffer_append m buf ptr =
     (let need = length (sb_data buf) + length ptr
      in if need > sb_capacity buf then
           let cap = grow_cap need (sb_capacity buf)
           in if m cap then Some \<lparr>sb_data = sb_data buf @ ptr, sb_capacity = cap\<rparr> else None
         else Some (buf\<lparr>sb_data := sb_data buf @ ptr\<rparr>))"

fun append_all :: "(nat \<Rightarrow> bool) \<Rightarrow> bytes list \<Rightarrow> snapshot_buffer \<Rightarrow> snapshot_buffer option" where
  "append_all m [] buf = Some buf"
| "append_all m (x # xs) buf = (case buffer_append m buf x of None \<Rightarrow> None | Some buf' \<Rightarrow> append_all m xs buf')"

definition snapshot_write_array_cb :: "(nat \<Rightarrow> bool) \<Rightarrow> kvs_array_item \<Rightarrow> snapshot_buffer \<Rightarrow> snapshot_buffer option" where
  "snapshot_write_array_cb m item buf =
     append_all m [le_bytes 4 SNAP_TYPE_ARRAY, le_bytes 8 (aexpire_time item), le_bytes 4 (int (klen (akey item))),
       kbytes (akey item), le_bytes 4 (int (klen (avalue item))), kbytes (avalue item)] buf"

definition snapshot_write_rbtree_cb :: "(nat \<Rightarrow> bool) \<Rightarrow> rbnode \<Rightarrow> snapshot_buffer \<Rightarrow> snapshot_buffer option" where
  "snapshot_write_rbtree_cb m node buf =
     append_all m [le_bytes 4 SNAP_TYPE_RBTREE, le_bytes 8 (rexpire_time node), le_bytes 4 (int (klen (rkey node))),
       kbytes (rkey node), le_bytes 4 (int (klen (rvalue node))), kbytes (rvalue node)] buf"

definition snapshot_write_hash_cb :: "(nat \<Rightarrow> bool) \<Rightarrow> int \<Rightarrow> hashnode \<Rightarrow> snapshot_buffer \<Rightarrow> snapshot_buffer option" where
  "snapshot_write_hash_cb m typ node buf =
     append_all m [le_bytes 4 typ, le_bytes 8 (hexpire_time node), le_bytes 4 (int (klen (hkey node))),
       kbytes (hkey node), le_bytes 4 (int (klen (hvalue node))), kbytes (hvalue node)] buf"

definition snapshot_write_skip_cb :: "(nat \<Rightarrow> bool) \<Rightarrow> skipnode \<Rightarrow> snapshot_buffer \<Rightarrow> snapshot_buffer option" where
  "snapshot_write_skip_cb m node buf =
     append_all m [le_bytes 4 SNAP_TYPE_SKIPLIST, le_bytes 8 (sexpire_time node), le_bytes 4 (int (klen (skey node))),
       kbytes (skey node), le_bytes 4 (int (klen (svalue node))), kbytes (svalue node)] buf"

text \<open>A callback on every element of an enumeration.\<close>

fun each :: "('a \<Rightarrow> snapshot_buffer \<Rightarrow> snapshot_buffer option) \<Rightarrow> 'a list \<Rightarrow> snapshot_buffer \<Rightarrow> snapshot_buffer option" where
  "each cb [] buf = Some buf"
| "each cb (x # xs) buf = (case cb x buf of None \<Rightarrow> None | Some buf' \<Rightarrow> each cb xs buf')"

definition snapshot_dump_one_hash ::
  "(nat \<Rightarrow> bool) \<Rightarrow> bool \<Rightarrow> int \<Rightarrow> int \<Rightarrow> kvs_hash \<Rightarrow> snapshot_buffer \<Rightarrow> snapshot_buffer option" where
  "snapshot_dump_one_hash m ttl now typ hash buf =
     (if hcount hash > 0 then each (snapshot_write_hash_cb m typ) (kvs_hash_foreach ttl now hash) buf else Some buf)"

text \<open>
  The part of \<open>kvs_snapshot_save\<close> that fills the buffer; \<open>nows i\<close> is the clock the \<open>i\<close>-th enumeration
  reads. A non-empty skip list without header would be dereferenced.
\<close>

definition snapshot_array :: "(nat \<Rightarrow> bool) \<Rightarrow> bool \<Rightarrow> int \<Rightarrow> kvs_array \<Rightarrow> snapshot_buffer \<Rightarrow> snapshot_buffer option" where
  "snapshot_array m ttl now a buf =
     (if arr_total a > 0 \<and> arr_table a \<noteq> None then each (snapshot_write_array_cb m) (kvs_array_foreach ttl now a) buf
      else Some buf)"

definition snapshot_rbtree :: "(nat \<Rightarrow> bool) \<Rightarrow> bool \<Rightarrow> int \<Rightarrow> kvs_rbtree \<Rightarrow> snapshot_buffer \<Rightarrow> snapshot_buffer option" where
  "snapshot_rbtree m ttl now t buf =
     (if rb_nil t \<and> rb_root t \<noteq> Nil_node then each (snapshot_write_rbtree_cb m) (kvs_rbtree_foreach ttl now t) buf
      else Some buf)"

definition snapshot_skip :: "(nat \<Rightarrow> bool) \<Rightarrow> bool \<Rightarrow> int \<Rightarrow> kvs_skip \<Rightarrow> snapshot_buffer \<Rightarrow> snapshot_buffer option" where
  "snapshot_skip m ttl now sk buf =
     (if sk_count sk > 0 then
        (case sk_header sk of
           None \<Rightarrow> None
         | Some hdr \<Rightarrow>
             if fwd (sk_heap sk) hdr 0 \<noteq> None then each (snapshot_write_skip_cb m) (kvs_skip_foreach ttl now sk) buf
             else Some buf)
      else Some buf)"

definition snapshot_fill ::
  "(nat \<Rightarrow> bool) \<Rightarrow> (nat \<Rightarrow> int) \<Rightarrow> kvs_server \<Rightarrow> snapshot_buffer \<Rightarrow> snapshot_buffer option" where
  "snapshot_fill m nows s buf =
     Option.bind (snapshot_array m (g_enable_ttl s) (nows 0) (global_array s) buf) (\<lambda>buf.
     Option.bind (snapshot_rbtree m (g_enable_ttl s) (nows 1) (global_rbtree s) buf) (\<lambda>buf.
     Option.bind (snapshot_dump_one_hash m (g_enable_ttl s) (nows 2) SNAP_TYPE_HASH (global_hash s) buf) (\<lambda>buf.
     Option.bind (snapshot_dump_one_hash m (g_enable_ttl s) (nows 3) SNAP_TYPE_HASH1 (global_hash1 s) buf) (\<lambda>buf.
     Option.bind (snapshot_dump_one_hash m (g_enable_ttl s) (nows 4) SNAP_TYPE_HASH2 (global_hash2 s) buf) (\<lambda>buf.
     Option.bind (snapshot_dump_one_hash m (g_enable_ttl s) (nows 5) SNAP_TYPE_HASH3 (global_hash3 s) buf) (\<lambda>buf.
     Option.bind (snapshot_dump_one_hash m (g_enable_ttl s) (nows 6) SNAP_TYPE_HASH4 (global_hash4 s) buf) (\<lambda>buf.
     snapshot_skip m (g_enable_ttl s) (nows 7) (global_skip s) buf)))))))"

text \<open>
  \<open>so_open\<close>, \<open>so_alloc\<close> and \<open>so_rename\<close> are the outcomes of \<open>open\<close>, the first \<open>malloc\<close> and
  \<open>rename\<close>, \<open>so_written\<close> the result of \<open>write\<close>. The temporary file is removed on every error; the
  result is the return value and the snapshot file.
\<close>

record save_io =
  so_open :: bool
  so_alloc :: bool
  so_realloc :: "nat \<Rightarrow> bool"
  so_written :: int
  so_rename :: bool

definition kvs_snapshot_save ::
  "save_io \<Rightarrow> (nat \<Rightarrow> int) \<Rightarrow> kvs_server \<Rightarrow> bytes option \<Rightarrow> (int \<times> bytes option) option" where
  "kvs_snapshot_save io nows s old =
     (if \<not> so_open io \<or> \<not> so_alloc io then Some (-1, old)
      else case snapshot_fill (so_realloc io) nows s \<lparr>sb_data = [], sb_capacity = 4 * 1024 * 1024\<rparr> of
        None \<Rightarrow> None
      | Some buf \<Rightarrow>
          (case buffer_append (so_realloc io) buf (le_bytes 8 (uint (kvs_crc64 0 (sb_data buf)))) of
             None \<Rightarrow> None
           | Some buf' \<Rightarrow>
               if so_written io \<noteq> int (length (sb_data buf')) then Some (-1, old)
               else if so_rename io then Some (0, Some (sb_data buf'))
               else Some (-1, old)))"

section \<open>Loading\<close>

text \<open>One record of the file: type, expiry time, key, value and the offset behind it; \<open>None\<close> ends the loop.\<close>

definition snapshot_read :: "bytes \<Rightarrow> nat \<Rightarrow> nat \<Rightarrow> (int \<times> int \<times> bytes \<times> bytes \<times> nat) option" where
  "snapshot_read data limit p =
     (if p + 4 > limit then None
      else let typ = i32 (le_int (take 4 (drop p data)))
      in if typ < SNAP_TYPE_ARRAY \<or> typ > SNAP_TYPE_HASH4 then None
      else if p + 4 + 8 > limit then None
      else let expire = i64 (le_int (take 8 (drop (p + 4) data)))
      in if p + 12 + 4 > limit then None
      else let key_len = i32 (le_int (take 4 (drop (p + 12) data)))
      in if key_len \<le> 0 \<or> key_len > 1024 * 1024 then None
      else let kl = nat key_len
      in if p + 16 + kl > limit then None
      else if p + 16 + kl + 4 > limit then None
      else let val_len = i32 (le_int (take 4 (drop (p + 16 + kl) data)))
      in if val_len < 0 \<or> val_len > 10 * 1024 * 1024 then None
      else let vl = nat val_len
      in if p + 20 + kl + vl > limit then None
      else Some (typ, expire, take kl (drop (p + 16) data), take vl (drop (p + 20 + kl) data), p + 20 + kl + vl))"

text \<open>The store of a record; the environment gives the allocations and the seed of a new node.\<close>

definition snapshot_set :: "alloc_env \<times> 32 word \<Rightarrow> int \<Rightarrow> int \<Rightarrow> bytes \<Rightarrow> bytes \<Rightarrow> kvs_server \<Rightarrow> int \<times> kvs_server" where
  "snapshot_set env typ e k v s =
     (case env of (ok, tseed) \<Rightarrow>
      if typ = SNAP_TYPE_ARRAY then
        (case kvs_array_set ok (global_array s) (kd k) (kd v) e of (r, x) \<Rightarrow> (r, s\<lparr>global_array := x\<rparr>))
      else if typ = SNAP_TYPE_RBTREE then
        (case kvs_rbtree_set ok (global_rbtree s) (kd k) (kd v) e of (r, x) \<Rightarrow> (r, s\<lparr>global_rbtree := x\<rparr>))
      else if typ = SNAP_TYPE_HASH then
        (case kvs_hash_set ok (global_hash s) (kd k) (kd v) e of (r, x) \<Rightarrow> (r, s\<lparr>global_hash := x\<rparr>))
      else if typ = SNAP_TYPE_HASH1 then
        (case kvs_hash_set ok (global_hash1 s) (kd k) (kd v) e of (r, x) \<Rightarrow> (r, s\<lparr>global_hash1 := x\<rparr>))
      else if typ = SNAP_TYPE_HASH2 then
        (case kvs_hash_set ok (global_hash2 s) (kd k) (kd v) e of (r, x) \<Rightarrow> (r, s\<lparr>global_hash2 := x\<rparr>))
      else if typ = SNAP_TYPE_HASH3 then
        (case kvs_hash_set ok (global_hash3 s) (kd k) (kd v) e of (r, x) \<Rightarrow> (r, s\<lparr>global_hash3 := x\<rparr>))
      else if typ = SNAP_TYPE_HASH4 then
        (case kvs_hash_set ok (global_hash4 s) (kd k) (kd v) e of (r, x) \<Rightarrow> (r, s\<lparr>global_hash4 := x\<rparr>))
      else if typ = SNAP_TYPE_SKIPLIST then
        (case kvs_skip_set tseed ok (global_skip s) (kd k) (kd v) e of (r, x) \<Rightarrow> (r, s\<lparr>global_skip := x\<rparr>))
      else (0, s))"

lemma snapshot_read_bounds: "snapshot_read data limit p = Some (typ, e, k, v, q) \<Longrightarrow> p < q \<and> q \<le> limit"
  by (auto simp: snapshot_read_def Let_def split: if_splits)

text \<open>The loop; the return values of the stores are ignored, records already expired are skipped.\<close>

function snapshot_loop ::
  "(nat \<Rightarrow> alloc_env \<times> 32 word) \<Rightarrow> int \<Rightarrow> bytes \<Rightarrow> nat \<Rightarrow> nat \<Rightarrow> nat \<Rightarrow> kvs_server \<Rightarrow> kvs_server" where
  "snapshot_loop envs now data limit i p s =
     (case snapshot_read data limit p of
        None \<Rightarrow> s
      | Some (typ, e, k, v, q) \<Rightarrow>
          if e > 0 \<and> now > e then snapshot_loop envs now data limit i q s
          else snapshot_loop envs now data limit (Suc i) q (snd (snapshot_set (envs i) typ e k v s)))"
  by pat_completeness auto
termination
  by (relation "measure (\<lambda>(envs, now, data, limit, i, p, s). limit - p)")
    (auto dest!: snapshot_read_bounds [OF sym] snapshot_read_bounds)

declare snapshot_loop.simps [simp del]

text \<open>\<open>lo_stat\<close> and \<open>lo_mmap\<close> are the outcomes of \<open>fstat\<close> and \<open>mmap\<close>.\<close>

record load_io =
  lo_stat :: bool
  lo_mmap :: bool
  lo_now :: int
  lo_envs :: "nat \<Rightarrow> alloc_env \<times> 32 word"

definition kvs_snapshot_load :: "load_io \<Rightarrow> bytes option \<Rightarrow> kvs_server \<Rightarrow> int \<times> kvs_server" where
  "kvs_snapshot_load io file s =
     (case file of
        None \<Rightarrow> (-1, s)
      | Some f \<Rightarrow>
          if \<not> lo_stat io \<or> length f < 8 then (-1, s)
          else if \<not> lo_mmap io then (-1, s)
          else
            let data_limit = length f - 8
            in if uint (kvs_crc64 0 (take data_limit f)) \<noteq> le_int (take 8 (drop data_limit f)) then (-1, s)
               else (0, snapshot_loop (lo_envs io) (lo_now io) f data_limit 0 0 s))"

section \<open>The file format\<close>

type_synonym snap_entry = "int \<times> dump_entry"

definition snap_encode :: "snap_entry \<Rightarrow> bytes" where
  "snap_encode x = (case x of (typ, k, v, e) \<Rightarrow>
     le_bytes 4 typ @ le_bytes 8 e @ le_bytes 4 (int (length k)) @ k @ le_bytes 4 (int (length v)) @ v)"

text \<open>Records the loader accepts.\<close>

definition snap_valid :: "snap_entry \<Rightarrow> bool" where
  "snap_valid x \<longleftrightarrow> (case x of (typ, k, v, e) \<Rightarrow>
     SNAP_TYPE_ARRAY \<le> typ \<and> typ \<le> SNAP_TYPE_HASH4 \<and> k \<noteq> [] \<and> length k \<le> 1024 * 1024 \<and> length v \<le> 10 * 1024 * 1024 \<and>
     - (2 ^ 63) \<le> e \<and> e < 2 ^ 63)"

lemma snapshot_read_encoded:
  assumes "snap_valid (typ, k, v, e)" and "drop p data = snap_encode (typ, k, v, e) @ rest"
    and "p + length (snap_encode (typ, k, v, e)) \<le> limit"
  shows "snapshot_read data limit p = Some (typ, e, k, v, p + length (snap_encode (typ, k, v, e)))"
proof -
  have at: "drop (p + n) data = drop n (snap_encode (typ, k, v, e) @ rest)" for n
    using assms(2) by (metis add.commute drop_drop)
  have len: "length (snap_encode (typ, k, v, e)) = 20 + length k + length v"
    by (simp add: snap_encode_def)
  have ty: "i32 (le_int (take 4 (drop p data))) = typ"
    using assms(1) i32_le_bytes [of "typ"] at [of 0]
    by (simp add: snap_encode_def snap_valid_def SNAP_TYPE_ARRAY_def SNAP_TYPE_HASH4_def)
  have expire: "i64 (le_int (take 8 (drop (p + 4) data))) = e"
    using assms(1) i64_le_bytes [of e] by (simp add: at snap_encode_def snap_valid_def)
  have kl: "i32 (le_int (take 4 (drop (p + 12) data))) = int (length k)"
    using assms(1) i32_le_bytes [of "int (length k)"] by (simp add: at snap_encode_def snap_valid_def)
  have key: "take (length k) (drop (p + 16) data) = k"
    by (simp add: at snap_encode_def)
  have vl: "i32 (le_int (take 4 (drop (p + 16 + length k) data))) = int (length v)"
    using assms(1) i32_le_bytes [of "int (length v)"] at [of "16 + length k"]
    by (simp add: snap_encode_def snap_valid_def add.assoc)
  have val: "take (length v) (drop (p + 20 + length k) data) = v"
    using at [of "20 + length k"] by (simp add: snap_encode_def add.assoc)
  show ?thesis
    using assms(1,3) unfolding snapshot_read_def ty expire kl len
    by (simp add: snap_valid_def vl key val)
qed

lemma snapshot_read_end: "snapshot_read data p p = None"
  by (simp add: snapshot_read_def)

text \<open>What the loop does with the records of a file.\<close>

fun load_all :: "(nat \<Rightarrow> alloc_env \<times> 32 word) \<Rightarrow> int \<Rightarrow> nat \<Rightarrow> snap_entry list \<Rightarrow> kvs_server \<Rightarrow> kvs_server" where
  "load_all envs now i [] s = s"
| "load_all envs now i ((typ, k, v, e) # xs) s =
     (if expired True now e then load_all envs now i xs s
      else load_all envs now (Suc i) xs (snd (snapshot_set (envs i) typ e k v s)))"

lemma snapshot_loop_all:
  assumes "\<forall>x\<in>set xs. snap_valid x" and "drop p data = concat (map snap_encode xs) @ rest"
    and "limit = p + length (concat (map snap_encode xs))"
  shows "snapshot_loop envs now data limit i p s = load_all envs now i xs s"
  using assms
proof (induction xs arbitrary: i p s)
  case Nil
  then show ?case
    by (subst snapshot_loop.simps) (simp add: snapshot_read_end)
next
  case (Cons x xs)
  obtain ty k v e where x: "x = (ty, k, v, e)"
    by (cases x)
  let ?q = "p + length (snap_encode x)"
  have read: "snapshot_read data limit p = Some (ty, e, k, v, ?q)"
    unfolding x using Cons.prems by (intro snapshot_read_encoded [of _ _ _ _ _ _ "concat (map snap_encode xs) @ rest"]) (simp_all add: x)
  have rest: "drop ?q data = concat (map snap_encode xs) @ rest"
    using arg_cong [OF Cons.prems(2), of "drop (length (snap_encode x))"] by (simp add: add.commute)
  have "snapshot_loop envs now data limit j ?q s' = load_all envs now j xs s'" for j s'
    using Cons.prems(1,3) rest by (intro Cons.IH) simp_all
  then show ?case
    using read by (subst snapshot_loop.simps) (simp add: x expired_def)
qed

section \<open>What a save writes\<close>

lemma buffer_append_data: "buffer_append m buf x = Some buf' \<Longrightarrow> sb_data buf' = sb_data buf @ x"
  by (auto simp: buffer_append_def Let_def split: if_splits)

lemma append_all_data: "append_all m xs buf = Some buf' \<Longrightarrow> sb_data buf' = sb_data buf @ concat xs"
proof (induction xs arbitrary: buf)
  case (Cons x xs)
  then show ?case
    by (auto split: option.splits dest: buffer_append_data)
qed simp

lemma each_data:
  assumes "each cb xs buf = Some buf'" and "\<And>x b b'. cb x b = Some b' \<Longrightarrow> sb_data b' = sb_data b @ f x"
  shows "sb_data buf' = sb_data buf @ concat (map f xs)"
  using assms(1)
proof (induction xs arbitrary: buf)
  case (Cons x xs)
  then show ?case
    using assms(2) [of x buf] by (auto split: option.splits)
qed simp

lemma cb_data:
  "snapshot_write_array_cb m item b = Some b' \<Longrightarrow>
     sb_data b' = sb_data b @ snap_encode (SNAP_TYPE_ARRAY, kbytes (akey item), kbytes (avalue item), aexpire_time item)"
  "snapshot_write_rbtree_cb m node b = Some b' \<Longrightarrow>
     sb_data b' = sb_data b @ snap_encode (SNAP_TYPE_RBTREE, kbytes (rkey node), kbytes (rvalue node), rexpire_time node)"
  "snapshot_write_hash_cb m typ hnode b = Some b' \<Longrightarrow>
     sb_data b' = sb_data b @ snap_encode (typ, kbytes (hkey hnode), kbytes (hvalue hnode), hexpire_time hnode)"
  "snapshot_write_skip_cb m snode b = Some b' \<Longrightarrow>
     sb_data b' = sb_data b @ snap_encode (SNAP_TYPE_SKIPLIST, kbytes (skey snode), kbytes (svalue snode), sexpire_time snode)"
  by (auto simp: snapshot_write_array_cb_def snapshot_write_rbtree_cb_def snapshot_write_hash_cb_def
      snapshot_write_skip_cb_def snap_encode_def klen_def simp del: append_all.simps dest!: append_all_data)

lemmas each_cb_data = each_data [OF _ cb_data(1)] each_data [OF _ cb_data(2)] each_data [OF _ cb_data(3)] each_data [OF _ cb_data(4)]

text \<open>The records of a server in the order of the file.\<close>

definition snapshot_entries :: "(nat \<Rightarrow> int) \<Rightarrow> kvs_server \<Rightarrow> snap_entry list" where
  "snapshot_entries nows s =
     (let ttl = g_enable_ttl s in
      map (Pair SNAP_TYPE_ARRAY) (array_listing ttl (nows 0) (global_array s)) @
      map (Pair SNAP_TYPE_RBTREE) (rbtree_listing ttl (nows 1) (global_rbtree s)) @
      map (Pair SNAP_TYPE_HASH) (hash_listing ttl (nows 2) (global_hash s)) @
      map (Pair SNAP_TYPE_HASH1) (hash_listing ttl (nows 3) (global_hash1 s)) @
      map (Pair SNAP_TYPE_HASH2) (hash_listing ttl (nows 4) (global_hash2 s)) @
      map (Pair SNAP_TYPE_HASH3) (hash_listing ttl (nows 5) (global_hash3 s)) @
      map (Pair SNAP_TYPE_HASH4) (hash_listing ttl (nows 6) (global_hash4 s)) @
      map (Pair SNAP_TYPE_SKIPLIST) (skip_listing ttl (nows 7) (global_skip s)))"

abbreviation encode_as :: "int \<Rightarrow> dump_entry list \<Rightarrow> bytes" where
  "encode_as typ xs \<equiv> concat (map (\<lambda>x. snap_encode (typ, x)) xs)"

lemma array_part:
  assumes "snapshot_array m ttl now a buf = Some buf'"
  shows "sb_data buf' = sb_data buf @ encode_as SNAP_TYPE_ARRAY (array_listing ttl now a)"
  using assms each_cb_data(1)
  by (fastforce simp: snapshot_array_def array_listing_def kvs_array_foreach_def comp_def split: if_splits option.splits)

lemma rbtree_part:
  assumes "snapshot_rbtree m ttl now t buf = Some buf'" and "rbtree_inv t"
  shows "sb_data buf' = sb_data buf @ encode_as SNAP_TYPE_RBTREE (rbtree_listing ttl now t)"
  using assms each_cb_data(2)
  by (fastforce simp: snapshot_rbtree_def rbtree_listing_def kvs_rbtree_foreach_def rbtree_inv_def comp_def split: if_splits)

lemma hash_part:
  assumes "snapshot_dump_one_hash m ttl now typ h buf = Some buf'" and "hash_inv h"
  shows "sb_data buf' = sb_data buf @ encode_as typ (hash_listing ttl now h)"
proof (cases "hcount h > 0")
  case True
  then show ?thesis
    using assms(1) each_cb_data(3) by (fastforce simp: snapshot_dump_one_hash_def hash_listing_def comp_def)
next
  case False
  then have "kvs_hash_foreach ttl now h = []"
    using assms(2) by (fastforce simp: hash_inv_def kvs_hash_foreach_def filter_empty_conv)
  with False show ?thesis
    using assms(1) by (simp add: snapshot_dump_one_hash_def hash_listing_def)
qed

lemma skip_part:
  assumes "snapshot_skip m ttl now sk buf = Some buf'" and "skip_inv sk"
  shows "sb_data buf' = sb_data buf @ encode_as SNAP_TYPE_SKIPLIST (skip_listing ttl now sk)"
proof -
  obtain hdr xs where wf: "skip_wf sk hdr xs"
    using assms(2) by (auto simp: skip_inv_def)
  then have hdr: "sk_header sk = Some hdr" and count: "sk_count sk = int (length xs)"
    by (simp_all add: skip_wf_def)
  show ?thesis
  proof (cases "sk_count sk > 0 \<and> fwd (sk_heap sk) hdr 0 \<noteq> None")
    case True
    then show ?thesis
      using assms(1) hdr each_cb_data(4) by (fastforce simp: snapshot_skip_def skip_listing_def comp_def)
  next
    case False
    have "skip_walk n h None = []" for n h
      by (cases n) simp_all
    then have "skip_nodes sk = []"
      using False count skip_nodes_wf [OF wf] hdr by (cases "xs = []") (simp_all add: skip_nodes_def)
    then show ?thesis
      using False assms(1) hdr by (auto simp: snapshot_skip_def skip_listing_def kvs_skip_foreach_def split: if_splits)
  qed
qed

lemma snapshot_fill_data:
  assumes "snapshot_fill m nows s buf = Some buf'" and "server_inv s"
  shows "sb_data buf' = sb_data buf @ concat (map snap_encode (snapshot_entries nows s))"
proof -
  have inv: "rbtree_inv (global_rbtree s)" "hash_inv (global_hash s)" "hash_inv (global_hash1 s)" "hash_inv (global_hash2 s)"
    "hash_inv (global_hash3 s)" "hash_inv (global_hash4 s)" "skip_inv (global_skip s)"
    using assms(2) by simp_all
  show ?thesis
    using assms(1) unfolding snapshot_fill_def
    by (auto simp: bind_eq_Some_conv snapshot_entries_def Let_def comp_def
        dest!: array_part rbtree_part [OF _ inv(1)] hash_part [OF _ inv(2)] hash_part [OF _ inv(3)] hash_part [OF _ inv(4)]
          hash_part [OF _ inv(5)] hash_part [OF _ inv(6)] skip_part [OF _ inv(7)])
qed

section \<open>What a load stores\<close>

text \<open>The store of a record type.\<close>

definition on_store :: "int \<Rightarrow> (store_map \<Rightarrow> store_map) \<Rightarrow> store_view \<Rightarrow> store_view" where
  "on_store typ f v =
     (if typ = SNAP_TYPE_ARRAY then v\<lparr>v_array := f (v_array v)\<rparr>
      else if typ = SNAP_TYPE_RBTREE then v\<lparr>v_rbtree := f (v_rbtree v)\<rparr>
      else if typ = SNAP_TYPE_HASH then v\<lparr>v_hash := f (v_hash v)\<rparr>
      else if typ = SNAP_TYPE_HASH1 then v\<lparr>v_hash1 := f (v_hash1 v)\<rparr>
      else if typ = SNAP_TYPE_HASH2 then v\<lparr>v_hash2 := f (v_hash2 v)\<rparr>
      else if typ = SNAP_TYPE_HASH3 then v\<lparr>v_hash3 := f (v_hash3 v)\<rparr>
      else if typ = SNAP_TYPE_HASH4 then v\<lparr>v_hash4 := f (v_hash4 v)\<rparr>
      else if typ = SNAP_TYPE_SKIPLIST then v\<lparr>v_skip := f (v_skip v)\<rparr>
      else v)"

lemmas snap_types = SNAP_TYPE_ARRAY_def SNAP_TYPE_RBTREE_def SNAP_TYPE_HASH_def SNAP_TYPE_SKIPLIST_def
  SNAP_TYPE_HASH1_def SNAP_TYPE_HASH2_def SNAP_TYPE_HASH3_def SNAP_TYPE_HASH4_def

fun put_entry :: "snap_entry \<Rightarrow> store_view \<Rightarrow> store_view" where
  "put_entry (typ, k, x) v = on_store typ (\<lambda>m. m(k \<mapsto> x)) v"

lemma on_store_comp: "on_store typ g (on_store typ f v) = on_store typ (\<lambda>m. g (f m)) v"
  by (simp add: on_store_def)

lemma on_store_id: "on_store typ (\<lambda>m. m) v = v"
  by (simp add: on_store_def)

lemma fold_put_same: "fold put_entry (map (Pair typ) xs) v = on_store typ (put_all xs) v"
proof (induction xs arbitrary: v)
  case Nil
  then show ?case by (simp add: on_store_id fun_eq_iff)
next
  case (Cons p xs)
  then show ?case by (cases p) (simp add: on_store_comp)
qed

lemma snapshot_set_effect:
  assumes "snapshot_set env typ e k v s = (0, s')" and "server_inv s" and "k \<noteq> []"
  shows "server_inv s' \<and> view s' = put_entry (typ, k, v, e) (view s)"
proof -
  obtain ok tseed where env: "env = (ok, tseed)"
    by (cases env)
  have inv: "array_inv (global_array s)" "rbtree_inv (global_rbtree s)" "hash_inv (global_hash s)" "hash_inv (global_hash1 s)"
    "hash_inv (global_hash2 s)" "hash_inv (global_hash3 s)" "hash_inv (global_hash4 s)" "skip_inv (global_skip s)"
    using assms(2) by simp_all
  note effects = arr.set_invar [OF inv(1) assms(3)] arr.set_ok [OF inv(1) assms(3)]
    rbe.set_invar [OF inv(2) TrueI] rbe.set_ok [OF inv(2) TrueI]
    hsh.set_invar [OF inv(3) TrueI] hsh.set_ok [OF inv(3) TrueI] hsh.set_invar [OF inv(4) TrueI] hsh.set_ok [OF inv(4) TrueI]
    hsh.set_invar [OF inv(5) TrueI] hsh.set_ok [OF inv(5) TrueI] hsh.set_invar [OF inv(6) TrueI] hsh.set_ok [OF inv(6) TrueI]
    hsh.set_invar [OF inv(7) TrueI] hsh.set_ok [OF inv(7) TrueI] ske.set_invar [OF inv(8) TrueI] ske.set_ok [OF inv(8) TrueI]
  show ?thesis
    using assms(1,2) unfolding snapshot_set_def env
    by (auto simp: on_store_def snap_types effects split: if_splits prod.splits)
qed

text \<open>Every store operation of a load succeeds.\<close>

fun load_ok :: "(nat \<Rightarrow> alloc_env \<times> 32 word) \<Rightarrow> int \<Rightarrow> nat \<Rightarrow> snap_entry list \<Rightarrow> kvs_server \<Rightarrow> bool" where
  "load_ok envs now i [] s = True"
| "load_ok envs now i ((typ, k, v, e) # xs) s =
     (if expired True now e then load_ok envs now i xs s
      else fst (snapshot_set (envs i) typ e k v s) = 0 \<and> load_ok envs now (Suc i) xs (snd (snapshot_set (envs i) typ e k v s)))"

abbreviation snap_live :: "int \<Rightarrow> snap_entry \<Rightarrow> bool" where
  "snap_live now x \<equiv> \<not> expired True now (snd (snd (snd x)))"

lemma load_all_effect:
  assumes "load_ok envs now i xs s" and "server_inv s" and "\<forall>x\<in>set xs. snap_valid x"
  shows "server_inv (load_all envs now i xs s) \<and>
    view (load_all envs now i xs s) = fold put_entry (filter (snap_live now) xs) (view s)"
  using assms
proof (induction envs now i xs s rule: load_all.induct)
  case (2 envs now i ty k v e xs s)
  show ?case
  proof (cases "expired True now e")
    case False
    obtain s1 where s1: "snapshot_set (envs i) ty e k v s = (0, s1)"
      using "2.prems"(1) False by (metis load_ok.simps(2) prod.collapse)
    have "k \<noteq> []"
      using "2.prems"(3) by (simp add: snap_valid_def)
    then have "server_inv s1 \<and> view s1 = put_entry (ty, k, v, e) (view s)"
      using snapshot_set_effect [OF s1 "2.prems"(2)] by blast
    then show ?thesis
      using "2.IH"(2) False "2.prems"(1,3) s1 by (simp del: put_entry.simps)
  qed (use 2 in simp)
qed simp

section \<open>The checksum\<close>

text \<open>The multiplier is odd, so it has an inverse modulo \<open>2^64\<close>.\<close>

lemma odd_factor: "x * (1099511628211 :: 64 word) = y * 1099511628211 \<longleftrightarrow> x = y"
proof -
  have inv: "(1099511628211 :: 64 word) * 14886173955864302971 = 1"
    by simp
  have "x * 1099511628211 * 14886173955864302971 = x" for x :: "64 word"
    by (simp only: mult.assoc inv mult_1_right)
  then show ?thesis
    by metis
qed

lemma xor_cancel:
  fixes a :: "64 word"
  shows "a XOR c = b XOR c \<longleftrightarrow> a = b"
proof -
  have "(x XOR c) XOR c = x" for x
    by (simp add: xor.assoc)
  then show ?thesis
    by metis
qed

lemma of_char_word_inj: "(of_char c :: 64 word) = of_char d \<longleftrightarrow> c = d"
proof -
  have "(of_char x :: 64 word) = word_of_nat (of_char x)" for x
    by (cases x) (simp add: of_char_def)
  moreover have "unat (word_of_nat (of_char x) :: 64 word) = of_char x" for x
    using less_trans [OF nat_of_char_less_256 [of x], of "2 ^ 64"] by (simp add: unat_of_nat)
  ultimately show ?thesis
    by (metis of_char_eq_iff)
qed

lemma crc_step_inj: "crc_step a c = crc_step b c \<longleftrightarrow> a = b" "crc_step a c = crc_step a d \<longleftrightarrow> c = d"
proof -
  show "crc_step a c = crc_step b c \<longleftrightarrow> a = b"
    by (simp add: crc_step_def odd_factor xor_cancel)
  show "crc_step a c = crc_step a d \<longleftrightarrow> c = d"
    by (simp add: crc_step_def odd_factor xor_cancel of_char_word_inj xor.commute [of a])
qed

lemma crc_fold_inj: "foldl crc_step a xs = foldl crc_step b xs \<longleftrightarrow> a = b"
  by (induction xs arbitrary: a b) (simp_all add: crc_step_inj)

text \<open>Changing one byte changes the checksum.\<close>

lemma crc_byte_change:
  assumes "i < length xs" and "c \<noteq> xs ! i"
  shows "kvs_crc64 crc (xs[i := c]) \<noteq> kvs_crc64 crc xs"
proof -
  have "kvs_crc64 crc xs = kvs_crc64 crc (take i xs @ xs ! i # drop (Suc i) xs)"
    using assms(1) by (metis id_take_nth_drop)
  moreover have "xs[i := c] = take i xs @ c # drop (Suc i) xs"
    using assms(1) by (rule upd_conv_take_nth_drop)
  ultimately show ?thesis
    using assms(2) by (simp add: kvs_crc64_def crc_fold_inj crc_step_inj)
qed

lemma le_int_inj: "length xs = length ys \<Longrightarrow> le_int xs = le_int ys \<longleftrightarrow> xs = ys"
proof (induction xs ys rule: list_induct2)
  case (Cons x xs y ys)
  have ch: "(of_char c :: int) = int (of_char c)" "(of_char c :: nat) < 256" for c
    by (cases c, simp add: of_char_def) (rule nat_of_char_less_256)
  have digit: "p = q" if "p + 256 * a = q + 256 * b" "0 \<le> p" "p < 256" "0 \<le> q" "q < 256" for p q a b :: int
    using arg_cong [OF that(1), of "\<lambda>x. x mod 256"] that(2-) by simp
  have "(of_char x :: int) + 256 * le_int xs = of_char y + 256 * le_int ys \<longleftrightarrow> (of_char x :: int) = of_char y \<and> le_int xs = le_int ys"
    using digit [of "of_char x" "le_int xs" "of_char y" "le_int ys"] ch(2) [of x] ch(2) [of y] by (auto simp: ch(1))
  with Cons show ?case
    by (simp add: ch(1))
qed simp

lemma detect_change:
  assumes "n \<le> length f" and "i < length f" and "c \<noteq> f ! i" and "uint (kvs_crc64 0 (take n f)) = le_int (drop n f)"
  shows "uint (kvs_crc64 0 (take n (f[i := c]))) \<noteq> le_int (drop n (f[i := c]))"
proof (cases "i < n")
  case True
  have "kvs_crc64 0 (take n (f[i := c])) \<noteq> kvs_crc64 0 (take n f)"
    using crc_byte_change [of i "take n f" c 0] assms True by (simp add: take_update_swap)
  then show ?thesis
    using assms(4) True by (simp add: word_uint_eq_iff)
next
  case False
  have "drop n f \<noteq> drop n (f[i := c])"
    using False assms(2,3) by (auto simp: list_eq_iff_nth_eq intro!: exI [of _ "i - n"])
  then show ?thesis
    using assms(4) False le_int_inj [of "drop n f" "drop n (f[i := c])"] by simp
qed

section \<open>Saving and loading\<close>

text \<open>
  The stores after a restart: the entries that were live when they were enumerated and still are
  at the load. The array engine enumerates nothing while TTL is disabled.
\<close>

definition restored_view :: "bool \<Rightarrow> (nat \<Rightarrow> int) \<Rightarrow> int \<Rightarrow> store_view \<Rightarrow> store_view" where
  "restored_view ttl nows later v =
     \<lparr>v_array = (if ttl then live_map True later (live_map True (nows 0) (v_array v)) else Map.empty),
      v_rbtree = live_map True later (live_map ttl (nows 1) (v_rbtree v)),
      v_hash = live_map True later (live_map ttl (nows 2) (v_hash v)),
      v_hash1 = live_map True later (live_map ttl (nows 3) (v_hash1 v)),
      v_hash2 = live_map True later (live_map ttl (nows 4) (v_hash2 v)),
      v_hash3 = live_map True later (live_map ttl (nows 5) (v_hash3 v)),
      v_hash4 = live_map True later (live_map ttl (nows 6) (v_hash4 v)),
      v_skip = live_map True later (live_map ttl (nows 7) (v_skip v))\<rparr>"

lemma filter_live_pair:
  "filter (snap_live later) (map (Pair typ) xs) = map (Pair typ) (filter (\<lambda>(k, v, e). \<not> expired True later e) xs)"
  by (induction xs) (auto simp: case_prod_unfold)

lemma array_listing_off: "array_listing False now a = []"
  by (simp add: array_listing_def kvs_array_foreach_def split: option.split)

lemma entries_restore:
  assumes "server_inv s"
  shows "fold put_entry (filter (snap_live later) (snapshot_entries nows s)) empty_view =
    restored_view (g_enable_ttl s) nows later (view s)"
proof -
  have inv: "array_inv (global_array s)" "rbtree_inv (global_rbtree s)" "hash_inv (global_hash s)" "hash_inv (global_hash1 s)"
    "hash_inv (global_hash2 s)" "hash_inv (global_hash3 s)" "hash_inv (global_hash4 s)" "skip_inv (global_skip s)"
    using assms by simp_all
  note restored = ard.listing_filter [OF inv(1)] rbd.listing_filter [OF inv(2)] hsd.listing_filter [OF inv(3)]
    hsd.listing_filter [OF inv(4)] hsd.listing_filter [OF inv(5)] hsd.listing_filter [OF inv(6)] hsd.listing_filter [OF inv(7)]
    skd.listing_filter [OF inv(8)]
  show ?thesis
    by (simp add: snapshot_entries_def Let_def filter_live_pair fold_put_same del: put_entry.simps filter_map)
      (cases "g_enable_ttl s"; simp add: on_store_def snap_types empty_view_def restored restored_view_def array_listing_off)
qed

lemma saved_file:
  assumes "kvs_snapshot_save io nows s old = Some (0, Some f)" and "server_inv s"
  shows "f = concat (map snap_encode (snapshot_entries nows s)) @
    le_bytes 8 (uint (kvs_crc64 0 (concat (map snap_encode (snapshot_entries nows s)))))"
  using assms(1) unfolding kvs_snapshot_save_def
  by (auto split: if_splits option.splits dest!: buffer_append_data snapshot_fill_data [OF _ assms(2)])

text \<open>With enough memory a consistent server can always be written; then only the system calls decide.\<close>

lemma buffer_append_total: "\<forall>c. m c \<Longrightarrow> \<exists>buf'. buffer_append m buf x = Some buf'"
  by (simp add: buffer_append_def Let_def)

lemma append_all_total: "\<forall>c. m c \<Longrightarrow> \<exists>buf'. append_all m xs buf = Some buf'"
proof (induction xs arbitrary: buf)
  case (Cons x xs)
  obtain b where "buffer_append m buf x = Some b"
    using buffer_append_total [OF Cons.prems] by blast
  with Cons show ?case
    by (metis append_all.simps(2) option.simps(5))
qed simp

lemma each_total: "(\<And>x b. \<exists>b'. cb x b = Some b') \<Longrightarrow> \<exists>buf'. each cb xs buf = Some buf'"
proof (induction xs arbitrary: buf)
  case (Cons x xs)
  obtain b where "cb x buf = Some b"
    using Cons.prems by blast
  with Cons show ?case by simp
qed simp

lemma snapshot_fill_total:
  assumes "\<forall>c. m c" and "server_inv s"
  shows "\<exists>buf'. snapshot_fill m nows s buf = Some buf'"
proof -
  note parts = snapshot_write_array_cb_def snapshot_write_rbtree_cb_def snapshot_write_hash_cb_def snapshot_write_skip_cb_def
  have "\<exists>b'. each (snapshot_write_array_cb m) xs b = Some b'" "\<exists>b'. each (snapshot_write_rbtree_cb m) ys b = Some b'"
    "\<exists>b'. each (snapshot_write_hash_cb m typ) zs b = Some b'" "\<exists>b'. each (snapshot_write_skip_cb m) us b = Some b'"
    for xs ys zs us b "typ"
    by (rule each_total, simp only: parts, rule append_all_total [OF assms(1)])+
  moreover obtain hdr where "sk_header (global_skip s) = Some hdr"
    using server_inv_stores(8) [OF assms(2)] by (auto simp: skip_inv_def skip_wf_def)
  ultimately have "\<exists>b'. snapshot_array m ttl now (global_array s) b = Some b'" "\<exists>b'. snapshot_rbtree m ttl now (global_rbtree s) b = Some b'"
    "\<exists>b'. snapshot_dump_one_hash m ttl now typ h b = Some b'" "\<exists>b'. snapshot_skip m ttl now (global_skip s) b = Some b'"
    for ttl now "typ" h b
    by (simp_all add: snapshot_array_def snapshot_rbtree_def snapshot_dump_one_hash_def snapshot_skip_def)
  then show ?thesis
    unfolding snapshot_fill_def by (metis Option.bind.bind_lunit)
qed

lemma snapshot_save_ok:
  assumes "server_inv s" and "so_open io" and "so_alloc io" and "\<forall>c. so_realloc io c" and "so_rename io"
    and "so_written io = int (length (concat (map snap_encode (snapshot_entries nows s)))) + 8"
  shows "kvs_snapshot_save io nows s old = Some (0, Some (concat (map snap_encode (snapshot_entries nows s)) @
    le_bytes 8 (uint (kvs_crc64 0 (concat (map snap_encode (snapshot_entries nows s)))))))"
proof -
  obtain buf where fill: "snapshot_fill (so_realloc io) nows s \<lparr>sb_data = [], sb_capacity = 4 * 1024 * 1024\<rparr> = Some buf"
    using snapshot_fill_total [OF assms(4,1)] by blast
  obtain buf' where app: "buffer_append (so_realloc io) buf (le_bytes 8 (uint (kvs_crc64 0 (sb_data buf)))) = Some buf'"
    using buffer_append_total [OF assms(4)] by blast
  show ?thesis
    using assms(2-6) fill app snapshot_fill_data [OF fill assms(1)] buffer_append_data [OF app]
    by (simp add: kvs_snapshot_save_def)
qed

lemma load_checksum:
  assumes "lo_stat io" and "lo_mmap io"
  shows "kvs_snapshot_load io (Some (d @ le_bytes 8 (uint (kvs_crc64 0 d)))) s =
    (0, snapshot_loop (lo_envs io) (lo_now io) (d @ le_bytes 8 (uint (kvs_crc64 0 d))) (length d) 0 0 s)"
proof -
  have "le_int (le_bytes 8 (uint (kvs_crc64 0 d))) = uint (kvs_crc64 0 d)"
    using uint_lt2p [of "kvs_crc64 0 d"] by (simp add: le_int_le_bytes)
  then show ?thesis
    using assms by (simp add: kvs_snapshot_load_def Let_def)
qed

text \<open>
  C30. A snapshot restores the data: when a save succeeded on a consistent server whose records
  respect the loader's limits, loading the file into a server with empty stores succeeds if every
  store operation does, keeps every engine's invariant, and gives each store exactly the entries that were not
  expired at the save nor at the load -- and an empty array store if TTL was disabled at the save.
\<close>

theorem snapshot_roundtrip:
  assumes "kvs_snapshot_save sio nows s old = Some (0, Some f)" and "server_inv s"
    and "\<forall>x\<in>set (snapshot_entries nows s). snap_valid x"
    and "lo_stat io" and "lo_mmap io" and "server_inv t" and "view t = empty_view"
    and "load_ok (lo_envs io) (lo_now io) 0 (snapshot_entries nows s) t"
  shows "\<exists>t'. kvs_snapshot_load io (Some f) t = (0, t') \<and> server_inv t' \<and>
    view t' = restored_view (g_enable_ttl s) nows (lo_now io) (view s)"
proof -
  let ?d = "concat (map snap_encode (snapshot_entries nows s))"
  have "snapshot_loop (lo_envs io) (lo_now io) f (length ?d) 0 0 t =
    load_all (lo_envs io) (lo_now io) 0 (snapshot_entries nows s) t"
    using assms(3) saved_file [OF assms(1,2)] by (intro snapshot_loop_all [of _ _ _ "drop (length ?d) f"]) simp_all
  then have "kvs_snapshot_load io (Some f) t = (0, load_all (lo_envs io) (lo_now io) 0 (snapshot_entries nows s) t)"
    using load_checksum [OF assms(4,5)] saved_file [OF assms(1,2)] by metis
  then show ?thesis
    using load_all_effect [OF assms(8,6,3)] entries_restore [OF assms(2)] assms(7) by metis
qed

definition snap_demo :: kvs_server where
  "snap_demo = snd (snapshot_set (always_ok, 0) SNAP_TYPE_ARRAY 0 ''a'' ''v'' (server_demo\<lparr>g_enable_ttl := True\<rparr>))"

definition sio_demo :: save_io where
  "sio_demo = \<lparr>so_open = True, so_alloc = True, so_realloc = (\<lambda>_. True), so_written = 30, so_rename = True\<rparr>"

definition lio_demo :: load_io where
  "lio_demo = \<lparr>lo_stat = True, lo_mmap = True, lo_now = 7, lo_envs = (\<lambda>_. (always_ok, 0))\<rparr>"

lemma server_ttl_on: "server_inv (server_demo\<lparr>g_enable_ttl := True\<rparr>)" "view (server_demo\<lparr>g_enable_ttl := True\<rparr>) = empty_view"
  using create_engines_inv [of server_static]
  by (simp_all add: server_demo_def server_inv_def view_def del: server_inv_stores)

lemmas first_set_simps = server_demo_def create_engines_def kvs_array_create_def array_static_def kvs_array_set_def
  find_key_index_def KVS_ARRAY_SIZE_def kv_data_dup_def kv_data_create_def kd_def klen_def kbytes_def Let_def

lemma snap_demo_set:
  "snapshot_set (always_ok, 0) SNAP_TYPE_ARRAY 0 ''a'' ''v'' (server_demo\<lparr>g_enable_ttl := True\<rparr>) = (0, snap_demo)"
  by (simp add: snap_demo_def snapshot_set_def first_set_simps)

lemma snap_demo_ok: "server_inv snap_demo" "view snap_demo = empty_view\<lparr>v_array := [''a'' \<mapsto> (''v'', 0)]\<rparr>" "g_enable_ttl snap_demo"
proof -
  show "server_inv snap_demo" "view snap_demo = empty_view\<lparr>v_array := [''a'' \<mapsto> (''v'', 0)]\<rparr>"
    using snapshot_set_effect [OF snap_demo_set server_ttl_on(1)] server_ttl_on(2)
    by (simp_all add: on_store_def empty_view_def del: view_sel)
  show "g_enable_ttl snap_demo"
    by (simp add: snap_demo_def snapshot_set_def first_set_simps)
qed

lemma snap_demo_entries: "snapshot_entries nows snap_demo = [(SNAP_TYPE_ARRAY, ''a'', ''v'', 0)]"
proof -
  have "view snap_demo = empty_view\<lparr>v_array := [''a'' \<mapsto> (''v'', 0)]\<rparr>"
    by (rule snap_demo_ok)
  then have "rbtree_contents (global_rbtree snap_demo) = Map.empty" "hash_contents (global_hash snap_demo) = Map.empty"
    "hash_contents (global_hash1 snap_demo) = Map.empty" "hash_contents (global_hash2 snap_demo) = Map.empty"
    "hash_contents (global_hash3 snap_demo) = Map.empty" "hash_contents (global_hash4 snap_demo) = Map.empty"
    "skip_contents (global_skip snap_demo) = Map.empty"
    by (simp_all add: view_def empty_view_def)
  moreover have "array_listing True (nows 0) (global_array snap_demo) = [(''a'', ''v'', 0)]"
    by (simp add: snap_demo_def snapshot_set_def first_set_simps array_listing_def kvs_array_foreach_def)
  ultimately show ?thesis
    using snap_demo_ok(1,3)
    by (simp add: snapshot_entries_def rbd.listing_empty hsd.listing_empty skd.listing_empty)
qed

lemma snap_demo_save: "\<exists>f. kvs_snapshot_save sio_demo nows snap_demo None = Some (0, Some f)"
  by (rule exI, rule snapshot_save_ok) (simp_all add: sio_demo_def snap_demo_ok snap_demo_entries snap_encode_def)

theorem snapshot_roundtrip_witness:
  "\<exists>f t'. kvs_snapshot_save sio_demo (\<lambda>_. 5) snap_demo None = Some (0, Some f) \<and>
    kvs_snapshot_load lio_demo (Some f) server_demo = (0, t') \<and> view t' = empty_view\<lparr>v_array := [''a'' \<mapsto> (''v'', 0)]\<rparr>"
proof -
  obtain f where f: "kvs_snapshot_save sio_demo (\<lambda>_. 5) snap_demo None = Some (0, Some f)"
    using snap_demo_save by blast
  have valid: "\<forall>x\<in>set (snapshot_entries (\<lambda>_. 5) snap_demo). snap_valid x"
    by (simp add: snap_demo_entries snap_valid_def snap_types)
  have io: "lo_stat lio_demo" "lo_mmap lio_demo"
    by (simp_all add: lio_demo_def)
  have t: "server_inv server_demo" "view server_demo = empty_view"
    using create_engines_inv unfolding server_demo_def by blast+
  have "load_ok (lo_envs lio_demo) (lo_now lio_demo) 0 (snapshot_entries (\<lambda>_. 5) snap_demo) server_demo"
    by (simp add: snap_demo_entries lio_demo_def snapshot_set_def first_set_simps)
  from snapshot_roundtrip [OF f snap_demo_ok(1) valid io t this] show ?thesis
    using f by (auto simp: snap_demo_ok(2,3) restored_view_def empty_view_def live_map_def expired_def fun_eq_iff)
qed

text \<open>
  C31. The checksum detects every change of a single byte: if a file passes the check, the same
  file with any one byte replaced by a different one is rejected and nothing is loaded from it.
\<close>

theorem snapshot_detects_byte_change:
  assumes "fst (kvs_snapshot_load io (Some f) s) = 0" and "i < length f" and "c \<noteq> f ! i"
  shows "kvs_snapshot_load io (Some (f[i := c])) s = (-1, s)"
proof -
  have "length f \<ge> 8" "uint (kvs_crc64 0 (take (length f - 8) f)) = le_int (drop (length f - 8) f)"
    using assms(1) by (auto simp: kvs_snapshot_load_def Let_def split: if_splits)
  then show ?thesis
    using detect_change [of "length f - 8" f i c] assms(2,3) by (simp add: kvs_snapshot_load_def Let_def)
qed

theorem snapshot_detects_byte_change_witness:
  "kvs_snapshot_load lio_demo (Some ((le_bytes 8 (uint (kvs_crc64 0 [])))[0 := CHR ''x''])) server_demo = (-1, server_demo)"
proof -
  let ?f = "le_bytes 8 (uint (kvs_crc64 0 []))"
  have "fst (kvs_snapshot_load lio_demo (Some ?f) server_demo) = 0"
    using load_checksum [of lio_demo "[]" server_demo] by (simp add: lio_demo_def)
  moreover have "?f ! 0 = char_of (37 :: nat)"
    using le_bytes.simps(2) [of 7 "uint (kvs_crc64 0 [])"] by (simp add: kvs_crc64_def del: le_bytes.simps)
  then have "CHR ''x'' \<noteq> ?f ! 0"
    by (simp add: char_of_def)
  ultimately show ?thesis
    by (intro snapshot_detects_byte_change) simp_all
qed

end
