(* ===== verification/Byte_Pipe.thy ===== *)
theory Byte_Pipe
  imports Kvs_Prelude
begin

text \<open>
  Sockets and byte pipes. A \<open>send\<close> takes what the socket has room for, would block, or fails. A
  pipe is a buffer between a producer of byte blocks and such a socket: the relay's ring and the
  replication backlog are pipes. The locale states what a producer and the receiver rely on; its
  client lemma says that the receiver gets the accepted blocks in order.
\<close>

section \<open>Sockets\<close>

datatype socket = Room nat | Would_block | Broken

text \<open>
  \<open>send\<close> of \<open>data\<close>: the return value, whether \<open>errno\<close> is EAGAIN or EWOULDBLOCK after a negative
  one, and the bytes taken.
\<close>

fun sock_send :: "socket \<Rightarrow> bytes \<Rightarrow> int \<times> bool \<times> bytes" where
  "sock_send (Room n) data = (int (min n (length data)), False, take n data)"
| "sock_send Would_block data = (-1, True, [])"
| "sock_send Broken data = (-1, False, [])"

lemma sock_send_pos:
  assumes "sock_send k data = (r, again, out)" and "r > 0"
  shows "out = take (nat r) data \<and> nat r \<le> length data \<and> length out = nat r"
  using assms by (cases k) (auto simp: min_def)

lemma sock_send_none: "sock_send k data = (r, again, out) \<Longrightarrow> r \<le> 0 \<Longrightarrow> out = []"
  by (cases k) (auto simp: min_def split: if_splits)

section \<open>Pipes\<close>

text \<open>
  A history of a pipe: blocks written and activations of its sender. \<open>pipe_run\<close> gives the
  accepted bytes, the bytes sent and the state, or \<open>None\<close> if a write does not return.
\<close>

datatype ('e, 'g) pipe_step = Put 'e bytes | Get 'g

fun pipe_run ::
  "('e \<Rightarrow> bytes \<Rightarrow> 's \<Rightarrow> 's option) \<Rightarrow> ('e \<Rightarrow> bytes \<Rightarrow> 's \<Rightarrow> bool) \<Rightarrow> ('g \<Rightarrow> 's \<Rightarrow> bytes \<times> 's) \<Rightarrow>
   ('e, 'g) pipe_step list \<Rightarrow> 's \<Rightarrow> (bytes \<times> bytes \<times> 's) option" where
  "pipe_run put acc get [] s = Some ([], [], s)"
| "pipe_run put acc get (Put e d # xs) s =
     (case put e d s of
        None \<Rightarrow> None
      | Some s' \<Rightarrow> map_option (\<lambda>(i, out, t). ((if acc e d s then d else []) @ i, out, t)) (pipe_run put acc get xs s'))"
| "pipe_run put acc get (Get g # xs) s =
     (case get g s of (now, s') \<Rightarrow> map_option (\<lambda>(i, out, t). (i, now @ out, t)) (pipe_run put acc get xs s'))"

locale byte_pipe =
  fixes invar :: "'s \<Rightarrow> bool"
    and contents :: "'s \<Rightarrow> bytes"
    and put :: "'e \<Rightarrow> bytes \<Rightarrow> 's \<Rightarrow> 's option"
    and accepts :: "'e \<Rightarrow> bytes \<Rightarrow> 's \<Rightarrow> bool"
    and get :: "'g \<Rightarrow> 's \<Rightarrow> bytes \<times> 's"
  assumes put_appends: "invar s \<Longrightarrow>
      \<exists>s'. put e d s = Some s' \<and> invar s' \<and> contents s' = contents s @ (if accepts e d s then d else [])"
    and get_takes: "invar s \<Longrightarrow> get g s = (out, s') \<Longrightarrow> invar s' \<and> contents s = out @ contents s'"
begin

lemma pipe_in_order:
  "invar s \<Longrightarrow> \<exists>i out s'. pipe_run put accepts get xs s = Some (i, out, s') \<and> invar s' \<and> contents s @ i = out @ contents s'"
proof (induction xs arbitrary: s)
  case (Cons x xs)
  show ?case
  proof (cases x)
    case (Put e d)
    obtain s1 where s1: "put e d s = Some s1" "invar s1" "contents s1 = contents s @ (if accepts e d s then d else [])"
      using put_appends [OF Cons.prems] by blast
    with Cons.IH [OF s1(2)] show ?thesis
      by (auto simp: Put)
  next
    case (Get g)
    obtain out s1 where s1: "get g s = (out, s1)"
      by (cases "get g s")
    with Cons.IH [of s1] get_takes [OF Cons.prems s1] show ?thesis
      by (auto simp: Get)
  qed
qed simp

end

end
