(* ===== verification/Relay_Ring.thy ===== *)
theory Relay_Ring
  imports Byte_Pipe
begin

text \<open>
  The ring buffer of the replication relay (\<^verbatim>\<open>ebpf_relay.c\<close>: \<open>rb_init\<close>, \<open>rb_write\<close>, \<open>rb_send\<close>,
  \<open>flush_all\<close>). The buffer's memory is a function from offsets to bytes; sizes and offsets
  (\<open>size_t\<close>) are natural numbers, since a buffer never reaches \<open>2^64\<close> bytes. \<open>mal n\<close> is the
  memory a \<open>malloc(n)\<close> returns, with its arbitrary content, or \<open>None\<close>. The ring is a byte pipe.
\<close>

section \<open>Memory\<close>

text \<open>\<open>memcpy\<close> to offset \<open>p\<close>, and the \<open>n\<close> bytes at \<open>p\<close>.\<close>

definition copy_to :: "nat \<Rightarrow> bytes \<Rightarrow> (nat \<Rightarrow> char) \<Rightarrow> nat \<Rightarrow> char" where
  "copy_to p d b = (\<lambda>i. if p \<le> i \<and> i < p + length d then d ! (i - p) else b i)"

definition copy_from :: "nat \<Rightarrow> nat \<Rightarrow> (nat \<Rightarrow> char) \<Rightarrow> bytes" where
  "copy_from p n b = map b [p..<p + n]"

lemma length_copy_from [simp]: "length (copy_from p n b) = n"
  by (simp add: copy_from_def)

lemma nth_copy_from [simp]: "i < n \<Longrightarrow> copy_from p n b ! i = b (p + i)"
  by (simp add: copy_from_def)

section \<open>Operations\<close>

record ring_buf =
  rb_buf :: "nat \<Rightarrow> char"
  rb_size :: nat
  rb_head :: nat
  rb_tail :: nat
  rb_bytes :: nat

type_synonym heap_mem = "nat \<Rightarrow> (nat \<Rightarrow> char) option"

definition RING_SIZE :: nat where
  "RING_SIZE = 64 * 1024 * 1024"

definition rb_init :: "heap_mem \<Rightarrow> ring_buf \<Rightarrow> nat \<Rightarrow> int \<times> ring_buf" where
  "rb_init mal rb sz =
     (case mal sz of
        None \<Rightarrow> (-1, rb)
      | Some mem \<Rightarrow> (0, \<lparr>rb_buf = mem, rb_size = sz, rb_head = 0, rb_tail = 0, rb_bytes = 0\<rparr>))"

text \<open>The two loops of \<open>rb_write\<close>: doubling the size, and copying the content to the new memory.\<close>

partial_function (option) rb_new_size :: "nat \<Rightarrow> nat \<Rightarrow> nat option" where
  [code]: "rb_new_size need sz = (if sz < need then rb_new_size need (sz * 2) else Some sz)"

partial_function (option) rb_unroll :: "ring_buf \<Rightarrow> nat \<Rightarrow> nat \<Rightarrow> nat \<Rightarrow> (nat \<Rightarrow> char) \<Rightarrow> (nat \<Rightarrow> char) option" where
  [code]: "rb_unroll rb remaining h pos new =
     (if remaining = 0 then Some new
      else let chunk = min (rb_size rb - h) remaining
           in rb_unroll rb (remaining - chunk) ((h + chunk) mod rb_size rb) (pos + chunk)
                (copy_to pos (copy_from h chunk (rb_buf rb)) new))"

definition rb_grow :: "heap_mem \<Rightarrow> nat \<Rightarrow> ring_buf \<Rightarrow> (int \<times> ring_buf) option" where
  "rb_grow mal need rb =
     (case rb_new_size need (rb_size rb * 2) of
        None \<Rightarrow> None
      | Some new_size \<Rightarrow>
          (case mal new_size of
             None \<Rightarrow> Some (-1, rb)
           | Some mem \<Rightarrow>
               (case rb_unroll rb (rb_bytes rb) (rb_head rb) 0 mem of
                  None \<Rightarrow> None
                | Some new_buf \<Rightarrow>
                    Some (0, rb\<lparr>rb_buf := new_buf, rb_size := new_size, rb_head := 0, rb_tail := rb_bytes rb\<rparr>))))"

definition rb_store :: "bytes \<Rightarrow> ring_buf \<Rightarrow> ring_buf" where
  "rb_store data rb =
     (let len = length data; space_to_end = rb_size rb - rb_tail rb
      in if len \<le> space_to_end then
           rb\<lparr>rb_buf := copy_to (rb_tail rb) data (rb_buf rb),
              rb_tail := (if rb_tail rb + len = rb_size rb then 0 else rb_tail rb + len),
              rb_bytes := rb_bytes rb + len\<rparr>
         else
           rb\<lparr>rb_buf := copy_to 0 (drop space_to_end data) (copy_to (rb_tail rb) (take space_to_end data) (rb_buf rb)),
              rb_tail := len - space_to_end, rb_bytes := rb_bytes rb + len\<rparr>)"

text \<open>\<open>None\<close>: a loop does not end.\<close>

definition rb_write :: "heap_mem \<Rightarrow> ring_buf \<Rightarrow> bytes \<Rightarrow> (int \<times> ring_buf) option" where
  "rb_write mal rb data =
     (case (if rb_bytes rb + length data > rb_size rb then rb_grow mal (rb_bytes rb + length data) rb else Some (0, rb)) of
        None \<Rightarrow> None
      | Some (r, rb') \<Rightarrow> if r < 0 then Some (-1, rb') else Some (0, rb_store data rb'))"

text \<open>
  \<open>rb_send\<close>: the return value, whether \<open>running\<close> is reset, the bytes sent and the ring; a ring
  whose head meets its tail sends nothing, even if it is full.
\<close>

definition rb_avail :: "ring_buf \<Rightarrow> nat" where
  "rb_avail rb =
     min (if rb_head rb < rb_tail rb then rb_tail rb - rb_head rb
          else if rb_head rb > rb_tail rb then rb_size rb - rb_head rb else 0) (rb_bytes rb)"

definition rb_send :: "socket \<Rightarrow> ring_buf \<Rightarrow> int \<times> bool \<times> bytes \<times> ring_buf" where
  "rb_send k rb =
     (if rb_bytes rb = 0 \<or> rb_head rb = rb_tail rb then (0, False, [], rb)
      else case sock_send k (copy_from (rb_head rb) (rb_avail rb) (rb_buf rb)) of
        (sent, again, out) \<Rightarrow>
          if sent > 0 then
            (sent, False, out,
             rb\<lparr>rb_head := (if rb_head rb + nat sent = rb_size rb then 0 else rb_head rb + nat sent),
                rb_bytes := rb_bytes rb - nat sent\<rparr>)
          else if sent < 0 \<and> again then (0, False, [], rb)
          else (-1, True, [], rb))"

text \<open>\<open>flush_all\<close>: at most 64 rounds; \<open>ks i\<close> is the state of the socket in round \<open>i\<close>.\<close>

fun flush_rounds :: "nat \<Rightarrow> (nat \<Rightarrow> socket) \<Rightarrow> bool \<Rightarrow> ring_buf \<Rightarrow> bytes \<times> bool \<times> ring_buf" where
  "flush_rounds 0 ks running rb = ([], running, rb)"
| "flush_rounds (Suc n) ks running rb =
     (if rb_bytes rb > 0 \<and> running then
        (case rb_send (ks n) rb of
           (ret, stop, out, rb') \<Rightarrow>
             if ret \<le> 0 then (out, running \<and> \<not> stop, rb')
             else (case flush_rounds n ks (running \<and> \<not> stop) rb' of (out', running', rb'') \<Rightarrow> (out @ out', running', rb'')))
      else ([], running, rb))"

definition flush_all :: "(nat \<Rightarrow> socket) \<Rightarrow> bool \<Rightarrow> ring_buf \<Rightarrow> bytes \<times> bool \<times> ring_buf" where
  "flush_all ks running rb = flush_rounds 64 ks running rb"

section \<open>The ring as a queue of bytes\<close>

definition ring_ok :: "ring_buf \<Rightarrow> bool" where
  "ring_ok rb \<longleftrightarrow> rb_size rb > 0 \<and> rb_head rb < rb_size rb \<and> rb_bytes rb \<le> rb_size rb \<and>
     rb_tail rb = (rb_head rb + rb_bytes rb) mod rb_size rb"

definition ring_bytes :: "ring_buf \<Rightarrow> bytes" where
  "ring_bytes rb = map (\<lambda>i. rb_buf rb ((rb_head rb + i) mod rb_size rb)) [0..<rb_bytes rb]"

lemma length_ring_bytes [simp]: "length (ring_bytes rb) = rb_bytes rb"
  by (simp add: ring_bytes_def)

text \<open>Positions in the ring.\<close>

lemma mod_wrap: "h < sz \<Longrightarrow> i \<le> sz \<Longrightarrow> (h + i) mod sz = (if h + i < sz then h + i else h + i - sz)" for h i sz :: nat
  by (simp add: le_mod_geq)

lemma rb_store_ok:
  assumes "ring_ok rb" and "rb_bytes rb + length d \<le> rb_size rb"
  shows "ring_ok (rb_store d rb)" and "ring_bytes (rb_store d rb) = ring_bytes rb @ d"
proof -
  have pos: "rb_head rb < rb_size rb" "rb_bytes rb \<le> rb_size rb"
    and tail: "rb_tail rb = (if rb_head rb + rb_bytes rb < rb_size rb then rb_head rb + rb_bytes rb
      else rb_head rb + rb_bytes rb - rb_size rb)"
    using assms(1) mod_wrap [of "rb_head rb" "rb_size rb" "rb_bytes rb"] by (auto simp: ring_ok_def)
  show "ring_ok (rb_store d rb)"
    using assms(2) pos tail mod_wrap [of "rb_head rb" "rb_size rb" "rb_bytes rb + length d"]
    by (auto simp: ring_ok_def rb_store_def Let_def split: if_splits)
  have old: "rb_buf (rb_store d rb) ((rb_head rb + i) mod rb_size rb) = rb_buf rb ((rb_head rb + i) mod rb_size rb)"
    if "i < rb_bytes rb" for i
    using that assms(2) pos tail mod_wrap [of "rb_head rb" "rb_size rb" i]
    by (auto simp: rb_store_def copy_to_def Let_def)
  have new: "rb_buf (rb_store d rb) ((rb_head rb + i) mod rb_size rb) = d ! (i - rb_bytes rb)"
    if "rb_bytes rb \<le> i" "i < rb_bytes rb + length d" for i
    using that assms(2) pos tail mod_wrap [of "rb_head rb" "rb_size rb" i]
    by (auto simp: rb_store_def copy_to_def Let_def nth_append)
  have fields: "rb_head (rb_store d rb) = rb_head rb" "rb_size (rb_store d rb) = rb_size rb"
    "rb_bytes (rb_store d rb) = rb_bytes rb + length d"
    by (simp_all add: rb_store_def Let_def)
  show "ring_bytes (rb_store d rb) = ring_bytes rb @ d"
    using old new by (intro nth_equalityI) (auto simp: ring_bytes_def fields nth_append)
qed


text \<open>Growing.\<close>

lemma rb_new_size_ok: "sz > 0 \<Longrightarrow> \<exists>n. rb_new_size need sz = Some n \<and> need \<le> n \<and> sz \<le> n"
proof (induction "need - sz" arbitrary: sz rule: less_induct)
  case less
  show ?case
  proof (cases "sz < need")
    case True
    then show ?thesis
      using less.hyps [of "sz * 2"] less.prems by (subst rb_new_size.simps) fastforce
  next
    case False
    then show ?thesis
      by (subst rb_new_size.simps) simp
  qed
qed

lemma rb_unroll_ok:
  assumes "h < rb_size rb"
  shows "\<exists>new'. rb_unroll rb n h pos new = Some new' \<and>
    (\<forall>i<n. new' (pos + i) = rb_buf rb ((h + i) mod rb_size rb)) \<and> (\<forall>j<pos. new' j = new j)"
  using assms
proof (induction n arbitrary: h pos new rule: less_induct)
  case (less n)
  show ?case
  proof (cases "n = 0")
    case False
    let ?c = "min (rb_size rb - h) n" and ?sz = "rb_size rb"
    let ?new = "copy_to pos (copy_from h ?c (rb_buf rb)) new"
    have "0 < ?c" "(h + ?c) mod ?sz < ?sz"
      using False less.prems by auto
    then obtain new' where step: "rb_unroll rb (n - ?c) ((h + ?c) mod ?sz) (pos + ?c) ?new = Some new'"
      and copied: "\<forall>i<n - ?c. new' (pos + ?c + i) = rb_buf rb (((h + ?c) mod ?sz + i) mod ?sz)"
      and kept: "\<forall>j<pos + ?c. new' j = ?new j"
      using less.IH [of "n - ?c" "(h + ?c) mod ?sz" "pos + ?c" ?new] False by auto
    have "new' (pos + i) = rb_buf rb ((h + i) mod ?sz)" if "i < n" for i
    proof (cases "i < ?c")
      case True
      then have "(h + i) mod ?sz = h + i" "new' (pos + i) = ?new (pos + i)"
        using kept by (simp_all add: less_diff_conv add.commute)
      with True show ?thesis
        by (simp add: copy_to_def)
    next
      case False
      then have "new' (pos + ?c + (i - ?c)) = rb_buf rb (((h + ?c) mod ?sz + (i - ?c)) mod ?sz)"
        using copied that by (intro copied [rule_format]) linarith
      moreover have "pos + ?c + (i - ?c) = pos + i" "h + ?c + (i - ?c) = h + i"
        using False by linarith+
      ultimately show ?thesis
        by (metis mod_add_left_eq)
    qed
    moreover have "\<forall>j<pos. new' j = new j"
      using kept by (simp add: copy_to_def)
    ultimately show ?thesis
      using step False by (subst rb_unroll.simps) (simp add: Let_def)
  qed (subst rb_unroll.simps, simp)
qed

text \<open>A write returns; it appends the data, or changes nothing if memory is short.\<close>

lemma rb_grow_ok:
  assumes "ring_ok rb" and "rb_bytes rb \<le> need"
  shows "\<exists>r rb'. rb_grow mal need rb = Some (r, rb') \<and> ring_ok rb' \<and> ring_bytes rb' = ring_bytes rb \<and> rb_bytes rb' = rb_bytes rb \<and>
    (r = -1 \<and> (\<exists>n. mal n = None) \<or> r = 0 \<and> need \<le> rb_size rb')"
proof -
  have pos: "rb_size rb > 0" "rb_bytes rb \<le> rb_size rb" "rb_head rb < rb_size rb"
    using assms(1) by (simp_all add: ring_ok_def)
  then obtain n where n: "rb_new_size need (rb_size rb * 2) = Some n" "need \<le> n" "rb_size rb * 2 \<le> n"
    using rb_new_size_ok [of "rb_size rb * 2" need] by auto
  show ?thesis
  proof (cases "mal n")
    case None
    then show ?thesis
      using assms(1) n(1) by (auto simp: rb_grow_def)
  next
    case (Some mem)
    obtain new where new: "rb_unroll rb (rb_bytes rb) (rb_head rb) 0 mem = Some new"
      "\<forall>i<rb_bytes rb. new i = rb_buf rb ((rb_head rb + i) mod rb_size rb)"
      using rb_unroll_ok [OF pos(3), of "rb_bytes rb" 0 mem] by auto
    then show ?thesis
      using n pos Some by (auto simp: rb_grow_def ring_ok_def ring_bytes_def)
  qed
qed

lemma rb_write_ok:
  assumes "ring_ok rb"
  shows "\<exists>r rb'. rb_write mal rb d = Some (r, rb') \<and> ring_ok rb' \<and>
    (r = -1 \<and> (\<exists>n. mal n = None) \<and> ring_bytes rb' = ring_bytes rb \<or> r = 0 \<and> ring_bytes rb' = ring_bytes rb @ d)"
proof (cases "rb_bytes rb + length d > rb_size rb")
  case True
  obtain r rb1 where grow: "rb_grow mal (rb_bytes rb + length d) rb = Some (r, rb1)" "ring_ok rb1" "ring_bytes rb1 = ring_bytes rb"
    "rb_bytes rb1 = rb_bytes rb" "r = -1 \<and> (\<exists>n. mal n = None) \<or> r = 0 \<and> rb_bytes rb + length d \<le> rb_size rb1"
    using rb_grow_ok [OF assms le_add1, of mal "length d"] by blast
  then show ?thesis
    using True rb_store_ok [OF grow(2), of d] by (auto simp: rb_write_def)
next
  case False
  then show ?thesis
    using rb_store_ok [OF assms, of d] by (auto simp: rb_write_def)
qed

lemma rb_write_enough:
  assumes "ring_ok rb" and "\<forall>n. mal n \<noteq> None"
  shows "\<exists>rb'. rb_write mal rb d = Some (0, rb') \<and> ring_ok rb' \<and> ring_bytes rb' = ring_bytes rb @ d"
  using rb_write_ok [OF assms(1), of mal d] assms(2) by auto

text \<open>A send removes what the socket took from the front.\<close>

lemma rb_send_ok:
  assumes "ring_ok rb" and "rb_send k rb = (ret, stop, out, rb')"
  shows "ring_ok rb' \<and> ring_bytes rb = out @ ring_bytes rb'"
proof (cases "rb_bytes rb = 0 \<or> rb_head rb = rb_tail rb")
  case False
  have pos: "rb_head rb < rb_size rb" "rb_bytes rb \<le> rb_size rb"
    and tail: "rb_tail rb = (if rb_head rb + rb_bytes rb < rb_size rb then rb_head rb + rb_bytes rb
      else rb_head rb + rb_bytes rb - rb_size rb)"
    using assms(1) mod_wrap [of "rb_head rb" "rb_size rb" "rb_bytes rb"] by (auto simp: ring_ok_def)
  have avail: "rb_avail rb \<le> rb_bytes rb" "rb_head rb + rb_avail rb \<le> rb_size rb"
    using False pos tail by (auto simp: rb_avail_def)
  obtain sent again taken where send: "sock_send k (copy_from (rb_head rb) (rb_avail rb) (rb_buf rb)) = (sent, again, taken)"
    by (metis prod_cases3)
  show ?thesis
  proof (cases "sent > 0")
    case True
    let ?n = "nat sent"
    have n: "?n \<le> rb_avail rb" "taken = copy_from (rb_head rb) ?n (rb_buf rb)"
      using sock_send_pos [OF send True] by (auto simp: copy_from_def take_map)
    have rb': "rb' = rb\<lparr>rb_head := (if rb_head rb + ?n = rb_size rb then 0 else rb_head rb + ?n), rb_bytes := rb_bytes rb - ?n\<rparr>"
      and out: "out = taken"
      using assms(2) send False True by (auto simp: rb_send_def)
    have head: "rb_head rb' = (rb_head rb + ?n) mod rb_size rb"
      using n(1) avail pos by (auto simp: rb')
    have "((rb_head rb + ?n) mod rb_size rb + (rb_bytes rb - ?n)) mod rb_size rb = (rb_head rb + rb_bytes rb) mod rb_size rb"
    proof -
      have "rb_head rb + ?n + (rb_bytes rb - ?n) = rb_head rb + rb_bytes rb"
        using n(1) avail(1) by linarith
      then show ?thesis
        by (metis mod_add_left_eq)
    qed
    then have "rb_tail rb = (rb_head rb' + (rb_bytes rb - ?n)) mod rb_size rb"
      using assms(1) head by (simp add: ring_ok_def)
    moreover have "rb_head rb' < rb_size rb"
      using pos head by simp
    ultimately have "ring_ok rb'"
      using pos by (simp add: ring_ok_def rb')
    moreover have "rb_buf rb ((rb_head rb + i) mod rb_size rb) = rb_buf rb (rb_head rb + i)" if "i < ?n" for i
      using that n(1) avail by simp
    moreover have "(rb_head rb' + (i - ?n)) mod rb_size rb = (rb_head rb + i) mod rb_size rb" if "?n \<le> i" for i
      using head that by (metis add.assoc le_add_diff_inverse mod_add_left_eq)
    moreover have "rb_buf rb' = rb_buf rb" "rb_size rb' = rb_size rb" "rb_bytes rb' = rb_bytes rb - ?n"
      by (simp_all add: rb')
    ultimately have "ring_bytes rb = out @ ring_bytes rb'" "ring_ok rb'"
      using n avail(1) by (auto intro!: nth_equalityI simp: ring_bytes_def out nth_append)
    then show ?thesis by simp
  next
    case False
    then show ?thesis
      using assms send by (auto simp: rb_send_def split: if_splits)
  qed
qed (use assms in \<open>auto simp: rb_send_def\<close>)

lemma flush_rounds_ok:
  "ring_ok rb \<Longrightarrow> flush_rounds n ks running rb = (out, running', rb') \<Longrightarrow> ring_ok rb' \<and> ring_bytes rb = out @ ring_bytes rb'"
proof (induction n arbitrary: running rb out)
  case (Suc n)
  show ?case
  proof (cases "rb_bytes rb > 0 \<and> running")
    case True
    obtain ret stop out1 rb1 where send: "rb_send (ks n) rb = (ret, stop, out1, rb1)"
      by (metis prod_cases4)
    with rb_send_ok [OF Suc.prems(1) send] Suc.IH [of rb1] Suc.prems(2) True show ?thesis
      by (fastforce split: if_splits prod.splits)
  qed (use Suc.prems in auto)
qed simp


section \<open>The ring is a pipe\<close>

text \<open>The state of the pipe is the flag \<open>running\<close> with the ring.\<close>

definition ring_put :: "heap_mem \<Rightarrow> bytes \<Rightarrow> bool \<times> ring_buf \<Rightarrow> (bool \<times> ring_buf) option" where
  "ring_put mal d s = map_option (\<lambda>(r, rb). (fst s, rb)) (rb_write mal (snd s) d)"

definition ring_takes :: "heap_mem \<Rightarrow> bytes \<Rightarrow> bool \<times> ring_buf \<Rightarrow> bool" where
  "ring_takes mal d s \<longleftrightarrow> map_option fst (rb_write mal (snd s) d) = Some 0"

definition ring_get :: "(nat \<Rightarrow> socket) \<Rightarrow> bool \<times> ring_buf \<Rightarrow> bytes \<times> bool \<times> ring_buf" where
  "ring_get ks s = flush_all ks (fst s) (snd s)"

interpretation rng: byte_pipe "\<lambda>s. ring_ok (snd s)" "\<lambda>s. ring_bytes (snd s)" ring_put ring_takes ring_get
proof
  fix s :: "bool \<times> ring_buf" and mal d
  assume "ring_ok (snd s)"
  from rb_write_ok [OF this, of mal d]
  show "\<exists>s'. ring_put mal d s = Some s' \<and> ring_ok (snd s') \<and>
    ring_bytes (snd s') = ring_bytes (snd s) @ (if ring_takes mal d s then d else [])"
    by (auto simp: ring_put_def ring_takes_def)
next
  fix s s' :: "bool \<times> ring_buf" and ks out
  assume "ring_ok (snd s)" and "ring_get ks s = (out, s')"
  then show "ring_ok (snd s') \<and> ring_bytes (snd s) = out @ ring_bytes (snd s')"
    using flush_rounds_ok [of "snd s" 64 ks "fst s" out "fst s'" "snd s'"] by (simp add: ring_get_def flush_all_def)
qed

lemma rb_init_ok: "rb_init mal rb sz = (0, rb') \<Longrightarrow> sz > 0 \<Longrightarrow> ring_ok rb' \<and> ring_bytes rb' = []"
  by (auto simp: rb_init_def ring_ok_def ring_bytes_def split: option.splits)

text \<open>A ring that is exactly full sends nothing, whatever the socket could take.\<close>

lemma full_ring_stalls:
  "ring_ok rb \<Longrightarrow> rb_bytes rb = rb_size rb \<Longrightarrow> rb_send k rb = (0, False, [], rb)"
  by (auto simp: ring_ok_def rb_send_def)

text \<open>
  The relay's ring buffer forwards bytes in order: whatever blocks are written to a freshly
  initialised ring, through wrap-arounds and growth, and whatever the socket accepts in between,
  every write returns, and the bytes sent followed by the bytes still in the ring are exactly the
  blocks accepted, in order.
\<close>

theorem relay_ring_in_order:
  assumes "rb_init mal rb sz = (0, rb')" and "sz > 0"
  shows "\<exists>taken out s'. pipe_run ring_put ring_takes ring_get xs (True, rb') = Some (taken, out, s') \<and>
    ring_ok (snd s') \<and> taken = out @ ring_bytes (snd s')"
  using rng.pipe_in_order [of "(True, rb')" xs] rb_init_ok [OF assms] by auto

definition ring_demo :: "(heap_mem, nat \<Rightarrow> socket) pipe_step list" where
  "ring_demo = [Put (\<lambda>_. Some (\<lambda>_. CHR ''x'')) ''abc'', Get (\<lambda>_. Room 1), Put (\<lambda>_. Some (\<lambda>_. CHR ''x'')) ''defg'']"

theorem relay_ring_in_order_witness:
  "\<exists>taken out s'. pipe_run ring_put ring_takes ring_get ring_demo
     (True, snd (rb_init (\<lambda>_. Some (\<lambda>_. CHR ''x'')) undefined RING_SIZE)) = Some (taken, out, s') \<and>
    ring_ok (snd s') \<and> taken = out @ ring_bytes (snd s')"
proof -
  have "rb_init (\<lambda>_. Some (\<lambda>_. CHR ''x'')) undefined RING_SIZE =
    (0, snd (rb_init (\<lambda>_. Some (\<lambda>_. CHR ''x'')) undefined RING_SIZE))"
    by (simp add: rb_init_def)
  then show ?thesis
    by (rule relay_ring_in_order) (simp add: RING_SIZE_def)
qed

end
