(* ===== verification/Relay_Order.thy ===== *)
theory Relay_Order
  imports Relay_Ring "HOL-Library.Sublist"
begin

text \<open>
  Reassembly of the captured TCP segments in the relay (\<^verbatim>\<open>ebpf_relay.c\<close>: the pool of out-of-order
  segments, \<open>process_tcp_payload\<close>, \<open>handle_event\<close> and the main loop). Sequence numbers are 32-bit
  words that wrap around. The theory shows that what reaches the slave is the client's byte
  stream in order, for any order and repetition of the captured segments, as long as the pool
  does not overflow.
\<close>

definition MAX_PAYLOAD_SIZE :: nat where
  "MAX_PAYLOAD_SIZE = 1024"

definition OOO_MAX :: nat where
  "OOO_MAX = 128"

definition SEQ_GT :: "32 word \<Rightarrow> 32 word \<Rightarrow> bool" where
  "SEQ_GT a b \<longleftrightarrow> sint (a - b) > 0"

text \<open>An event of the eBPF program; the fields \<open>src_ip\<close> and \<open>src_port\<close> are not read by the relay.\<close>

record event =
  ev_seq :: "32 word"
  ev_payload_len :: "32 word"
  ev_payload :: bytes

record ooo_node =
  on_seq :: "32 word"
  on_len :: "32 word"
  on_used :: bool
  on_data :: bytes

definition ooo_zero :: ooo_node where
  "ooo_zero = \<lparr>on_seq = 0, on_len = 0, on_used = False, on_data = []\<rparr>"

record relay =
  r_rb :: ring_buf
  ooo_pool :: "ooo_node list"
  expected_seq :: "32 word"
  seq_initialized :: bool
  running :: bool
  recv_event :: "64 word"
  recv_bytes :: "64 word"
  sent_bytes :: "64 word"
  ooo_stored :: "64 word"
  ooo_merged :: "64 word"

section \<open>The pool\<close>

definition first_index :: "('a \<Rightarrow> bool) \<Rightarrow> 'a list \<Rightarrow> nat option" where
  "first_index P xs = find (\<lambda>i. P (xs ! i)) [0..<length xs]"

definition ooo_find_seq :: "32 word \<Rightarrow> ooo_node list \<Rightarrow> nat option" where
  "ooo_find_seq seq pool = first_index (\<lambda>x. on_used x \<and> on_seq x = seq) pool"

definition ooo_find_free :: "ooo_node list \<Rightarrow> nat option" where
  "ooo_find_free pool = first_index (\<lambda>x. \<not> on_used x) pool"

text \<open>A full pool is thrown away, and the next segment starts a new stream.\<close>

definition ooo_insert :: "32 word \<Rightarrow> bytes \<Rightarrow> relay \<Rightarrow> relay" where
  "ooo_insert seq data r =
     (if ooo_find_seq seq (ooo_pool r) \<noteq> None then r
      else case ooo_find_free (ooo_pool r) of
        None \<Rightarrow> r\<lparr>ooo_pool := replicate OOO_MAX ooo_zero, seq_initialized := False\<rparr>
      | Some i \<Rightarrow>
          r\<lparr>ooo_pool := (ooo_pool r)[i := \<lparr>on_seq = seq, on_len = of_nat (length data), on_used = True, on_data = data\<rparr>],
            ooo_stored := ooo_stored r + 1\<rparr>)"

lemma first_index_Some: "first_index P xs = Some i \<Longrightarrow> i < length xs \<and> P (xs ! i)"
  by (auto simp: first_index_def find_Some_iff)

lemma first_index_None: "first_index P xs = None \<longleftrightarrow> (\<forall>x\<in>set xs. \<not> P x)"
  by (auto simp: first_index_def find_None_iff all_set_conv_all_nth)

lemma used_decreases:
  assumes "i < length xs" and "on_used (xs ! i)"
  shows "length (filter on_used (xs[i := (xs ! i)\<lparr>on_used := False\<rparr>])) < length (filter on_used xs)"
proof -
  have "xs = take i xs @ xs ! i # drop (Suc i) xs"
    using assms(1) by (rule id_take_nth_drop)
  then have "length (filter on_used xs) = length (filter on_used (take i xs @ xs ! i # drop (Suc i) xs))"
    by simp
  then show ?thesis
    using assms by (simp add: upd_conv_take_nth_drop)
qed

text \<open>The merging loop; \<open>None\<close> if a write does not return. The result of \<open>rb_write\<close> is ignored.\<close>

function ooo_flush :: "heap_mem \<Rightarrow> relay \<Rightarrow> relay option" where
  "ooo_flush mal r =
     (case ooo_find_seq (expected_seq r) (ooo_pool r) of
        None \<Rightarrow> Some r
      | Some i \<Rightarrow>
          (case rb_write mal (r_rb r) (on_data (ooo_pool r ! i)) of
             None \<Rightarrow> None
           | Some (ret, rb) \<Rightarrow>
               ooo_flush mal (r\<lparr>r_rb := rb, expected_seq := expected_seq r + on_len (ooo_pool r ! i),
                 ooo_pool := (ooo_pool r)[i := (ooo_pool r ! i)\<lparr>on_used := False\<rparr>], ooo_merged := ooo_merged r + 1\<rparr>)))"
  by pat_completeness auto
termination
  by (relation "measure (\<lambda>(mal, r). length (filter on_used (ooo_pool r)))")
    (auto simp: ooo_find_seq_def dest!: first_index_Some intro: used_decreases)

declare ooo_flush.simps [simp del]

section \<open>Segments\<close>

definition forward :: "heap_mem \<Rightarrow> bytes \<Rightarrow> 32 word \<Rightarrow> relay \<Rightarrow> relay option" where
  "forward mal data len r =
     (case rb_write mal (r_rb r) data of
        None \<Rightarrow> None
      | Some (ret, rb) \<Rightarrow> ooo_flush mal (r\<lparr>r_rb := rb, expected_seq := expected_seq r + len\<rparr>))"

definition process_tcp_payload :: "heap_mem \<Rightarrow> 32 word \<Rightarrow> bytes \<Rightarrow> relay \<Rightarrow> relay option" where
  "process_tcp_payload mal seq data r =
     (let r = (if seq_initialized r then r else r\<lparr>expected_seq := seq, seq_initialized := True\<rparr>);
          len = of_nat (length data)
      in if seq = expected_seq r then forward mal data len r
         else if SEQ_GT seq (expected_seq r) then Some (ooo_insert seq data r)
         else
           let seq_end = seq + len
           in if SEQ_GT seq_end (expected_seq r) then
                let offset = expected_seq r - seq; new_len = seq_end - expected_seq r
                in forward mal (take (unat new_len) (drop (unat offset) data)) new_len r
              else Some r)"

definition handle_event :: "heap_mem \<Rightarrow> event \<Rightarrow> relay \<Rightarrow> relay option" where
  "handle_event mal e r =
     (if ev_payload_len e = 0 \<or> unat (ev_payload_len e) > MAX_PAYLOAD_SIZE then Some r
      else process_tcp_payload mal (ev_seq e) (take (unat (ev_payload_len e)) (ev_payload e))
        (r\<lparr>recv_event := recv_event r + 1, recv_bytes := recv_bytes r + ucast (ev_payload_len e)\<rparr>))"

text \<open>
  The main loop: events are handled while the ring is polled, then \<open>flush_all\<close> sends; the loop
  ends when \<open>running\<close> is reset. The result is what was sent and the state.
\<close>

datatype relay_step = Event event | Flush "nat \<Rightarrow> socket"

fun relay_main :: "heap_mem \<Rightarrow> relay_step list \<Rightarrow> relay \<Rightarrow> (bytes \<times> relay) option" where
  "relay_main mal [] r = Some ([], r)"
| "relay_main mal (Event e # xs) r =
     (case handle_event mal e r of None \<Rightarrow> None | Some r' \<Rightarrow> relay_main mal xs r')"
| "relay_main mal (Flush ks # xs) r =
     (case flush_all ks (running r) (r_rb r) of
        (out, run, rb) \<Rightarrow>
          let r' = r\<lparr>r_rb := rb, running := run, sent_bytes := sent_bytes r + of_nat (length out)\<rparr>
          in if run then map_option (\<lambda>(out', t). (out @ out', t)) (relay_main mal xs r') else Some (out, r'))"

definition relay_start :: "ring_buf \<Rightarrow> relay" where
  "relay_start rb = \<lparr>r_rb = rb, ooo_pool = replicate OOO_MAX ooo_zero, expected_seq = 0, seq_initialized = False,
     running = True, recv_event = 0, recv_bytes = 0, sent_bytes = 0, ooo_stored = 0, ooo_merged = 0\<rparr>"

section \<open>Sequence numbers\<close>

text \<open>Positions in a stream of less than \<open>2^31\<close> bytes that starts at the sequence number \<open>isn\<close>.\<close>

lemma of_nat_sub_seq: "y \<le> x \<Longrightarrow> isn + of_nat x - (isn + of_nat y) = of_nat (x - y)" for isn :: "32 word"
  by (simp add: of_nat_diff)

lemma seq_diff: "isn + of_nat x - (isn + of_nat y) = word_of_int (int x - int y)" for isn :: "32 word"
  by simp

lemma seq_eq_iff: "x < 2 ^ 31 \<Longrightarrow> y < 2 ^ 31 \<Longrightarrow> isn + of_nat x = isn + of_nat y \<longleftrightarrow> x = y" for isn :: "32 word"
  by (simp add: word_of_nat_eq_iff take_bit_nat_eq_self)

lemma SEQ_GT_iff:
  fixes isn :: "32 word"
  assumes "x < 2 ^ 31" and "y < 2 ^ 31"
  shows "SEQ_GT (isn + of_nat x) (isn + of_nat y) \<longleftrightarrow> x > y"
proof -
  have "sint (word_of_int (int x - int y) :: 32 word) = int x - int y"
    using assms by (subst signed_of_int) (simp add: signed_take_bit_int_eq_self)
  then show ?thesis
    unfolding SEQ_GT_def seq_diff by simp
qed


section \<open>Segments of a stream\<close>

text \<open>\<open>data\<close> is the part of the stream \<open>S\<close> at offset \<open>off\<close>, captured with sequence number \<open>seq\<close>.\<close>

definition seg_at :: "32 word \<Rightarrow> bytes \<Rightarrow> nat \<Rightarrow> 32 word \<Rightarrow> bytes \<Rightarrow> bool" where
  "seg_at isn S off seq data \<longleftrightarrow>
     off + length data \<le> length S \<and> data = take (length data) (drop off S) \<and> seq = isn + of_nat off \<and> data \<noteq> []"

definition pool_ok :: "32 word \<Rightarrow> bytes \<Rightarrow> ooo_node list \<Rightarrow> bool" where
  "pool_ok isn S pool \<longleftrightarrow>
     (\<forall>x\<in>set pool. on_used x \<longrightarrow> on_len x = of_nat (length (on_data x)) \<and> (\<exists>off. seg_at isn S off (on_seq x) (on_data x)))"

text \<open>A delivered sequence number is behind the expected one or still in the pool.\<close>

definition seen :: "32 word \<Rightarrow> nat \<Rightarrow> ooo_node list \<Rightarrow> 32 word \<Rightarrow> bool" where
  "seen isn e pool q \<longleftrightarrow> (\<exists>off<e. q = isn + of_nat off) \<or> (\<exists>x\<in>set pool. on_used x \<and> on_seq x = q)"

text \<open>
  The state after the segments with the sequence numbers \<open>D\<close>: \<open>out\<close> has been sent, the stream is
  complete from \<open>a\<close> to \<open>e\<close>.
\<close>

definition merging :: "32 word \<Rightarrow> bytes \<Rightarrow> nat \<Rightarrow> 32 word set \<Rightarrow> bytes \<Rightarrow> nat \<Rightarrow> relay \<Rightarrow> bool" where
  "merging isn S a D out e r \<longleftrightarrow> seq_initialized r \<and> ring_ok (r_rb r) \<and> a \<le> e \<and> e \<le> length S \<and>
     expected_seq r = isn + of_nat e \<and> out @ ring_bytes (r_rb r) = take (e - a) (drop a S) \<and>
     pool_ok isn S (ooo_pool r) \<and> (\<forall>q\<in>D. seen isn e (ooo_pool r) q)"

definition merged_all :: "relay \<Rightarrow> bool" where
  "merged_all r \<longleftrightarrow> ooo_find_seq (expected_seq r) (ooo_pool r) = None"

lemma slice_extend: "a \<le> e \<Longrightarrow> take (e - a) (drop a S) @ take k (drop e S) = take (e + k - a) (drop a S)"
proof -
  assume "a \<le> e"
  then have "take (e - a + k) (drop a S) = take (e - a) (drop a S) @ take k (drop (e - a) (drop a S))"
    by (simp only: take_add)
  with \<open>a \<le> e\<close> show ?thesis by simp
qed

lemma seen_mono: "seen isn e pool q \<Longrightarrow> e \<le> e' \<Longrightarrow> seen isn e' pool q"
  by (force simp: seen_def)

text \<open>Writing the next part of the stream.\<close>

lemma write_next:
  assumes "merging isn S a D out e r" and "\<forall>n. mal n \<noteq> None" and "data = take k (drop e S)" and "e + k \<le> length S"
  shows "\<exists>rb. rb_write mal (r_rb r) data = Some (0, rb) \<and>
    merging isn S a D out (e + k) (r\<lparr>r_rb := rb, expected_seq := expected_seq r + of_nat k\<rparr>)"
proof -
  have ring: "ring_ok (r_rb r)"
    using assms(1) by (simp add: merging_def)
  from rb_write_enough [OF ring assms(2), of data]
  obtain rb where rb: "rb_write mal (r_rb r) data = Some (0, rb)" "ring_ok rb" "ring_bytes rb = ring_bytes (r_rb r) @ data"
    by blast
  have "out @ ring_bytes rb = take (e + k - a) (drop a S)"
    using assms(1,3) rb(3) slice_extend [of a e S k] by (simp add: merging_def flip: append_assoc)
  then show ?thesis
    using assms(1,4) rb by (auto simp: merging_def intro: seen_mono)
qed

lemma ooo_flush_ok:
  assumes "merging isn S a D out e r" and "\<forall>n. mal n \<noteq> None" and "length S < 2 ^ 31"
  shows "\<exists>r' e'. ooo_flush mal r = Some r' \<and> merging isn S a D out e' r' \<and> merged_all r' \<and> e \<le> e' \<and> running r' = running r"
  using assms
proof (induction mal r arbitrary: e rule: ooo_flush.induct)
  case (1 mal r)
  show ?case
  proof (cases "ooo_find_seq (expected_seq r) (ooo_pool r)")
    case None
    then show ?thesis
      using "1.prems"(1) by (subst ooo_flush.simps) (auto simp: merged_all_def)
  next
    case (Some i)
    let ?x = "ooo_pool r ! i"
    have i: "i < length (ooo_pool r)" "on_used ?x" "on_seq ?x = expected_seq r"
      using first_index_Some [of _ "ooo_pool r" i] Some by (auto simp: ooo_find_seq_def)
    then obtain off where len: "on_len ?x = of_nat (length (on_data ?x))" and seg: "seg_at isn S off (on_seq ?x) (on_data ?x)"
      using "1.prems"(1) by (auto simp: merging_def pool_ok_def)
    have "off = e"
      using seg i(3) "1.prems"(1,3) seq_eq_iff [of off e isn] by (auto simp: seg_at_def merging_def)
    then have data: "on_data ?x = take (length (on_data ?x)) (drop e S)" "e + length (on_data ?x) \<le> length S" "on_data ?x \<noteq> []"
      using seg by (simp_all add: seg_at_def)
    let ?e = "e + length (on_data ?x)"
    obtain rb where rb: "rb_write mal (r_rb r) (on_data ?x) = Some (0, rb)"
      and m: "merging isn S a D out ?e (r\<lparr>r_rb := rb, expected_seq := expected_seq r + on_len ?x\<rparr>)"
      using write_next [OF "1.prems"(1,2) data(1,2)] len by auto
    let ?r = "r\<lparr>r_rb := rb, expected_seq := expected_seq r + on_len ?x,
      ooo_pool := (ooo_pool r)[i := ?x\<lparr>on_used := False\<rparr>], ooo_merged := ooo_merged r + 1\<rparr>"
    have pool: "pool_ok isn S ((ooo_pool r)[i := ?x\<lparr>on_used := False\<rparr>])"
      using m by (auto simp: merging_def pool_ok_def dest!: set_update_subset_insert [THEN subsetD])
    have "seen isn ?e ((ooo_pool r)[i := ?x\<lparr>on_used := False\<rparr>]) q" if "seen isn ?e (ooo_pool r) q" for q
    proof (cases "q = isn + of_nat e")
      case True
      then show ?thesis
        using data(3) unfolding seen_def by (intro disjI1 exI [of _ e]) simp
    next
      case False
      have "x \<in> set ((ooo_pool r)[i := ?x\<lparr>on_used := False\<rparr>])" if "x \<in> set (ooo_pool r)" "on_seq x = q" for x
        using that False i(3) "1.prems"(1) unfolding merging_def by (metis in_set_conv_nth length_list_update nth_list_update_neq)
      then show ?thesis
        using that unfolding seen_def by blast
    qed
    then have "merging isn S a D out ?e ?r"
      using m pool by (auto simp: merging_def)
    then show ?thesis
      using "1.IH" [OF Some rb refl] "1.prems"(2,3) Some rb by (subst ooo_flush.simps) fastforce
  qed
qed


lemma forward_ok:
  assumes "merging isn S a D out e r" and "\<forall>n. mal n \<noteq> None" and "length S < 2 ^ 31"
    and "data = take k (drop e S)" and "e + k \<le> length S"
  shows "\<exists>r' e'. forward mal data (of_nat k) r = Some r' \<and> merging isn S a D out e' r' \<and> merged_all r' \<and> e + k \<le> e' \<and>
    running r' = running r"
  using write_next [OF assms(1,2,4,5)] ooo_flush_ok [OF _ assms(2,3)] by (fastforce simp: forward_def)

lemma ooo_insert_ok:
  assumes "merging isn S a D out e r" and "merged_all r" and "seg_at isn S off seq data" and "seq \<noteq> expected_seq r"
    and "seq_initialized (ooo_insert seq data r)"
  shows "merging isn S a (insert seq D) out e (ooo_insert seq data r) \<and> merged_all (ooo_insert seq data r) \<and>
    running (ooo_insert seq data r) = running r"
proof (cases "ooo_find_seq seq (ooo_pool r)")
  case None
  then obtain i where i: "ooo_find_free (ooo_pool r) = Some i"
    using assms(5) by (auto simp: ooo_insert_def split: option.splits)
  then have free: "i < length (ooo_pool r)" "\<not> on_used (ooo_pool r ! i)"
    using first_index_Some by (auto simp: ooo_find_free_def)
  let ?x = "\<lparr>on_seq = seq, on_len = of_nat (length data), on_used = True, on_data = data\<rparr>"
  let ?pool = "(ooo_pool r)[i := ?x]"
  have sub: "set ?pool \<subseteq> insert ?x (set (ooo_pool r))"
    by (rule set_update_subset_insert)
  have kept: "x \<in> set ?pool" if "x \<in> set (ooo_pool r)" "on_used x" for x
    using that free(2) by (metis in_set_conv_nth length_list_update nth_list_update_neq)
  have "pool_ok isn S ?pool"
    using assms(1,3) unfolding merging_def pool_ok_def
    by (auto dest!: subsetD [OF set_update_subset_insert])
  moreover have "seen isn e ?pool seq"
    unfolding seen_def by (intro disjI2 bexI [of _ ?x] set_update_memI free(1)) simp
  moreover have "\<forall>q\<in>D. seen isn e ?pool q"
    using assms(1) kept unfolding merging_def seen_def by blast
  moreover have "ooo_find_seq (expected_seq r) ?pool = None"
    using assms(2,4) sub by (auto simp: merged_all_def ooo_find_seq_def first_index_None)
  ultimately show ?thesis
    using assms(1) None i by (simp add: ooo_insert_def merging_def merged_all_def)
next
  case (Some j)
  then have "j < length (ooo_pool r)" "on_used (ooo_pool r ! j)" "on_seq (ooo_pool r ! j) = seq"
    using first_index_Some [of _ "ooo_pool r" j] by (auto simp: ooo_find_seq_def)
  then have "seen isn e (ooo_pool r) seq"
    unfolding seen_def by (intro disjI2 bexI [of _ "ooo_pool r ! j"]) simp_all
  then show ?thesis
    using assms(1,2) Some by (simp add: ooo_insert_def merging_def)
qed

lemma process_ok:
  assumes "merging isn S a D out e r" and "merged_all r" and "seg_at isn S off seq data"
    and "\<forall>n. mal n \<noteq> None" and "length S < 2 ^ 31"
    and "\<And>r'. off \<noteq> e \<Longrightarrow> process_tcp_payload mal seq data r = Some r' \<Longrightarrow> seq_initialized r'"
  shows "\<exists>r' e'. process_tcp_payload mal seq data r = Some r' \<and> merging isn S a (insert seq D) out e' r' \<and> merged_all r' \<and>
    running r' = running r"
proof -
  have init: "seq_initialized r" and e: "expected_seq r = isn + of_nat e" "e \<le> length S"
    using assms(1) by (simp_all add: merging_def)
  have seg: "off + length data \<le> length S" "data = take (length data) (drop off S)" "seq = isn + of_nat off" "data \<noteq> []"
    using assms(3) by (simp_all add: seg_at_def)
  have small: "e < 2 ^ 31" "off < 2 ^ 31" "off + length data < 2 ^ 31"
    using e(2) seg(1) assms(5) by simp_all
  have gt: "SEQ_GT seq (expected_seq r) \<longleftrightarrow> off > e" "SEQ_GT (seq + of_nat (length data)) (expected_seq r) \<longleftrightarrow> off + length data > e"
    using SEQ_GT_iff [OF small(2,1), of isn] SEQ_GT_iff [OF small(3,1), of isn] by (simp_all add: e(1) seg(3) add.assoc)
  have eq: "seq = expected_seq r \<longleftrightarrow> off = e"
    using seq_eq_iff [OF small(2,1), of isn] by (simp only: e(1) seg(3))
  have wider: "merging isn S a (insert seq D) out e' r'" if "merging isn S a D out e' r'" "off < e'" for e' r'
    using that seg(3) by (auto simp: merging_def seen_def)
  consider "off = e" | "off > e" | "off < e" "off + length data > e" | "off < e" "off + length data \<le> e"
    by linarith
  then show ?thesis
  proof cases
    case 1
    then obtain r' e' where "forward mal data (of_nat (length data)) r = Some r'" "merging isn S a D out e' r'" "merged_all r'"
      "e + length data \<le> e'" "running r' = running r"
      using forward_ok [OF assms(1,4,5), of data "length data"] seg(1,2) by auto
    moreover from this 1 seg(4) have "merging isn S a (insert seq D) out e' r'"
      by (intro wider) (auto simp: Suc_le_eq dest: add_leD1 simp flip: length_greater_0_conv)
    ultimately show ?thesis
      using 1 init eq by (auto simp: process_tcp_payload_def)
  next
    case 2
    then have run: "process_tcp_payload mal seq data r = Some (ooo_insert seq data r)"
      using init gt(1) eq by (simp add: process_tcp_payload_def)
    then show ?thesis
      using ooo_insert_ok [OF assms(1-3)] assms(6) 2 eq by auto
  next
    case 3
    let ?k = "off + length data - e"
    have len: "seq + of_nat (length data) - expected_seq r = of_nat ?k" "expected_seq r - seq = of_nat (e - off)"
      using 3 by (simp_all add: e(1) seg(3) of_nat_diff)
    have words: "unat (of_nat ?k :: 32 word) = ?k" "unat (of_nat (e - off) :: 32 word) = e - off"
      using small by (simp_all add: unat_of_nat)
    have "process_tcp_payload mal seq data r =
      forward mal (take (unat (seq + of_nat (length data) - expected_seq r)) (drop (unat (expected_seq r - seq)) data))
        (seq + of_nat (length data) - expected_seq r) r"
      using 3 init gt eq by (simp add: process_tcp_payload_def Let_def)
    then have run: "process_tcp_payload mal seq data r = forward mal (take ?k (drop (e - off) data)) (of_nat ?k) r"
      by (simp only: len words)
    have "take ?k (drop (e - off) data) = take ?k (drop e S)"
      using 3 seg(1) by (subst seg(2)) (simp add: drop_take)
    then obtain r' e' where fwd: "forward mal (take ?k (drop (e - off) data)) (of_nat ?k) r = Some r'"
      "merging isn S a D out e' r'" "merged_all r'" "e + ?k \<le> e'" "running r' = running r"
      using forward_ok [OF assms(1,4,5) _, of _ ?k] seg(1) 3 by (metis le_add_diff_inverse less_imp_le)
    then have "merging isn S a (insert seq D) out e' r'"
      using 3 by (intro wider) simp_all
    with run fwd show ?thesis
      by auto
  next
    case 4
    then show ?thesis
      using assms(1,2) wider [of e r] init gt eq by (auto simp: process_tcp_payload_def Let_def)
  qed
qed


section \<open>The relay\<close>

text \<open>An event that carries a part of the stream at offset \<open>off\<close>.\<close>

definition carries :: "32 word \<Rightarrow> bytes \<Rightarrow> nat \<Rightarrow> event \<Rightarrow> bool" where
  "carries isn S off e \<longleftrightarrow> unat (ev_payload_len e) \<le> MAX_PAYLOAD_SIZE \<and> unat (ev_payload_len e) \<le> length (ev_payload e) \<and>
     seg_at isn S off (ev_seq e) (take (unat (ev_payload_len e)) (ev_payload e))"

text \<open>No event finds the pool full, which would reset the stream.\<close>

fun pool_suffices :: "heap_mem \<Rightarrow> relay_step list \<Rightarrow> relay \<Rightarrow> bool" where
  "pool_suffices mal [] r = True"
| "pool_suffices mal (Event e # xs) r =
     (case handle_event mal e r of None \<Rightarrow> True | Some r' \<Rightarrow> seq_initialized r' \<and> pool_suffices mal xs r')"
| "pool_suffices mal (Flush ks # xs) r =
     (case flush_all ks (running r) (r_rb r) of
        (out, run, rb) \<Rightarrow>
          run \<longrightarrow> pool_suffices mal xs (r\<lparr>r_rb := rb, running := run, sent_bytes := sent_bytes r + of_nat (length out)\<rparr>))"

lemma merging_cong:
  "merging isn S a D out e r \<Longrightarrow> seq_initialized r' = seq_initialized r \<Longrightarrow> r_rb r' = r_rb r \<Longrightarrow>
   expected_seq r' = expected_seq r \<Longrightarrow> ooo_pool r' = ooo_pool r \<Longrightarrow> merging isn S a D out e r'"
  by (simp add: merging_def)

lemma handle_event_ok:
  assumes "merging isn S a D out e r" and "merged_all r" and "carries isn S off ev"
    and "\<forall>n. mal n \<noteq> None" and "length S < 2 ^ 31"
    and "\<And>r'. off \<noteq> e \<Longrightarrow> handle_event mal ev r = Some r' \<Longrightarrow> seq_initialized r'"
  shows "\<exists>r' e'. handle_event mal ev r = Some r' \<and> merging isn S a (insert (ev_seq ev) D) out e' r' \<and> merged_all r' \<and>
    running r' = running r"
proof -
  let ?data = "take (unat (ev_payload_len ev)) (ev_payload ev)"
  let ?r = "r\<lparr>recv_event := recv_event r + 1, recv_bytes := recv_bytes r + ucast (ev_payload_len ev)\<rparr>"
  have seg: "seg_at isn S off (ev_seq ev) ?data"
    using assms(3) by (simp add: carries_def)
  have run: "handle_event mal ev r = process_tcp_payload mal (ev_seq ev) ?data ?r"
    using assms(3) seg by (auto simp: handle_event_def carries_def seg_at_def)
  have "merging isn S a D out e ?r" "merged_all ?r"
    using assms(1,2) by (auto simp: merged_all_def elim: merging_cong)
  then show ?thesis
    using process_ok [OF _ _ seg assms(4,5), of a D out e ?r] assms(6) run by auto
qed

lemma flush_merging:
  assumes "merging isn S a D out e r" and "merged_all r" and "flush_all ks (running r) (r_rb r) = (out1, run, rb)"
  shows "merging isn S a D (out @ out1) e (r\<lparr>r_rb := rb, running := run, sent_bytes := x\<rparr>) \<and>
    merged_all (r\<lparr>r_rb := rb, running := run, sent_bytes := x\<rparr>)"
  using assms flush_rounds_ok [of "r_rb r" 64 ks "running r" out1 run rb] by (auto simp: merging_def merged_all_def flush_all_def)

lemma relay_main_ok:
  assumes "merging isn S a D out e r" and "merged_all r" and "\<forall>n. mal n \<noteq> None" and "length S < 2 ^ 31"
    and "\<forall>ev. Event ev \<in> set xs \<longrightarrow> (\<exists>off. carries isn S off ev)" and "pool_suffices mal xs r"
  shows "\<exists>out' r' e' D'. relay_main mal xs r = Some (out', r') \<and> merging isn S a D' (out @ out') e' r' \<and> merged_all r' \<and>
    D \<subseteq> D' \<and> (running r \<and> running r' \<longrightarrow> ev_seq ` {ev. Event ev \<in> set xs} \<subseteq> D')"
  using assms(1,2,5,6)
proof (induction xs arbitrary: r D out e)
  case (Cons x xs)
  show ?case
  proof (cases x)
    case (Event ev)
    obtain off where off: "carries isn S off ev"
      using Cons.prems(3) Event by auto
    have init: "seq_initialized r'" if "off \<noteq> e" "handle_event mal ev r = Some r'" for r'
      using Cons.prems(4) that by (simp add: Event)
    obtain r1 e1 where r1: "handle_event mal ev r = Some r1" "merging isn S a (insert (ev_seq ev) D) out e1 r1"
      "merged_all r1" "running r1 = running r"
      using handle_event_ok [OF Cons.prems(1,2) off assms(3,4) init] by blast
    obtain out' r' e' D' where rest: "relay_main mal xs r1 = Some (out', r')" "merging isn S a D' (out @ out') e' r'" "merged_all r'"
      "insert (ev_seq ev) D \<subseteq> D'" "running r1 \<and> running r' \<longrightarrow> ev_seq ` {ev. Event ev \<in> set xs} \<subseteq> D'"
      using Cons.IH [OF r1(2,3)] Cons.prems(3,4) r1(1) by (auto simp: Event)
    have "ev_seq ` {ev'. Event ev' \<in> set (x # xs)} = insert (ev_seq ev) (ev_seq ` {ev. Event ev \<in> set xs})"
      by (auto simp: Event)
    then show ?thesis
      using rest r1(1,4) by (intro exI [of _ out'] exI [of _ r'] exI [of _ e'] exI [of _ D']) (auto simp: Event)
  next
    case (Flush ks)
    obtain out1 run rb where flush: "flush_all ks (running r) (r_rb r) = (out1, run, rb)"
      by (metis prod_cases3)
    let ?r = "r\<lparr>r_rb := rb, running := run, sent_bytes := sent_bytes r + of_nat (length out1)\<rparr>"
    have m: "merging isn S a D (out @ out1) e ?r" "merged_all ?r"
      using flush_merging [OF Cons.prems(1,2) flush] by blast+
    show ?thesis
    proof (cases run)
      case True
      obtain out' r' e' D' where rest: "relay_main mal xs ?r = Some (out', r')" "merging isn S a D' ((out @ out1) @ out') e' r'"
        "merged_all r'" "D \<subseteq> D'" "running ?r \<and> running r' \<longrightarrow> ev_seq ` {ev. Event ev \<in> set xs} \<subseteq> D'"
        using Cons.IH [OF m] Cons.prems(3,4) flush True by (auto simp: Flush)
      then show ?thesis
        using flush True by (intro exI [of _ "out1 @ out'"] exI [of _ r'] exI [of _ e'] exI [of _ D']) (auto simp: Flush Let_def)
    next
      case False
      then show ?thesis
        using m flush by (intro exI [of _ out1] exI [of _ ?r] exI [of _ e] exI [of _ D]) (auto simp: Flush Let_def)
    qed
  qed
qed auto

text \<open>The first event fixes the start of the stream.\<close>

lemma relay_starts:
  assumes "ring_ok rb" and "ring_bytes rb = []" and "carries isn S a ev" and "\<forall>n. mal n \<noteq> None" and "length S < 2 ^ 31"
  shows "\<exists>r e. handle_event mal ev (relay_start rb) = Some r \<and> merging isn S a {ev_seq ev} [] e r \<and> merged_all r \<and> running r"
proof -
  let ?r = "(relay_start rb)\<lparr>expected_seq := ev_seq ev, seq_initialized := True\<rparr>"
  have "merging isn S a {} [] a ?r" "merged_all ?r"
    using assms(1-3)
    by (auto simp: merging_def merged_all_def relay_start_def pool_ok_def carries_def seg_at_def ooo_zero_def ooo_find_seq_def
        first_index_None)
  moreover have "handle_event mal ev ?r = handle_event mal ev (relay_start rb)"
    using assms(3) by (auto simp: handle_event_def process_tcp_payload_def relay_start_def carries_def seg_at_def Let_def)
  moreover have "running ?r"
    by (simp add: relay_start_def)
  ultimately show ?thesis
    using handle_event_ok [OF _ _ assms(3,4,5), where D = "{}" and out = "[]" and e = a and r = ?r] by auto
qed




text \<open>
  The witness: the stream \<open>abcd\<close> starts two below the wrap-around of the sequence numbers; its last
  byte is captured before the third.
\<close>

definition ev_demo :: "nat \<Rightarrow> bytes \<Rightarrow> event" where
  "ev_demo off d = \<lparr>ev_seq = -2 + of_nat off, ev_payload_len = of_nat (length d), ev_payload = d\<rparr>"

definition rb_demo :: ring_buf where
  "rb_demo = \<lparr>rb_buf = (\<lambda>_. CHR ''x''), rb_size = 8, rb_head = 0, rb_tail = 0, rb_bytes = 0\<rparr>"

lemma carries_demo:
  assumes "off + length d \<le> length S" and "d = take (length d) (drop off S)" and "d \<noteq> []" and "length d \<le> 1024"
  shows "carries (-2) S off (ev_demo off d)"
  using assms by (simp add: carries_def ev_demo_def seg_at_def MAX_PAYLOAD_SIZE_def unat_of_nat)

lemma ooo_flush_initialized: "ooo_flush mal r = Some r' \<Longrightarrow> seq_initialized r' = seq_initialized r"
proof (induction mal r rule: ooo_flush.induct)
  case (1 mal r)
  then show ?case
    by (subst (asm) ooo_flush.simps) (fastforce split: option.splits)
qed

lemma forward_initialized: "forward mal d k r = Some r' \<Longrightarrow> seq_initialized r' = seq_initialized r"
  by (auto simp: forward_def dest: ooo_flush_initialized split: option.splits)

lemma ooo_find_seq_fresh: "ooo_find_seq q (replicate n ooo_zero) = None"
  by (simp add: ooo_find_seq_def first_index_None ooo_zero_def)

lemma ooo_find_free_fresh: "ooo_find_free (replicate OOO_MAX ooo_zero) = Some 0"
  by (simp add: ooo_find_free_def first_index_def OOO_MAX_def ooo_zero_def upt_rec [of 0])

lemma demo_first:
  "\<exists>r. handle_event mal (ev_demo 0 ''ab'') (relay_start rb_demo) = Some r \<and> seq_initialized r \<and> expected_seq r = 0 \<and>
     ooo_pool r = replicate OOO_MAX ooo_zero"
  by (simp add: handle_event_def ev_demo_def MAX_PAYLOAD_SIZE_def process_tcp_payload_def relay_start_def forward_def rb_write_def
      rb_demo_def ooo_flush.simps ooo_find_seq_fresh)

lemma demo_second:
  assumes "seq_initialized r" and "expected_seq r = 0" and "ooo_pool r = replicate OOO_MAX ooo_zero"
  shows "\<exists>r'. handle_event mal (ev_demo 3 ''d'') r = Some r' \<and> seq_initialized r' \<and> expected_seq r' = 0"
  using assms
  by (simp add: handle_event_def ev_demo_def MAX_PAYLOAD_SIZE_def process_tcp_payload_def SEQ_GT_def ooo_insert_def ooo_find_seq_fresh
      ooo_find_free_fresh)

lemma demo_third:
  assumes "seq_initialized r" and "expected_seq r = 0" and "handle_event mal (ev_demo 2 ''c'') r = Some r'"
  shows "seq_initialized r'"
  using assms by (auto simp: handle_event_def ev_demo_def MAX_PAYLOAD_SIZE_def process_tcp_payload_def dest: forward_initialized)


end
