(* ===== verification/Relay_Capture.thy ===== *)
theory Relay_Capture
  imports Relay_Order
begin

unbundle bit_operations_syntax

text \<open>
  The eBPF classifier (\<^verbatim>\<open>sync_filter.bpf.c\<close>) that feeds the relay: which packets it captures, and that the
  event of a data segment carries the segment's part of the client's stream, cut at 1024 bytes.
\<close>

text \<open>\<open>skb_linear\<close> is \<open>data_end - data\<close>; \<open>bpf_skb_load_bytes\<close> reads the whole packet.\<close>

record sk_buff =
  skb_packet :: bytes
  skb_linear :: nat

definition byte_at :: "bytes \<Rightarrow> nat \<Rightarrow> nat" where
  "byte_at p i = of_char (p ! i)"

definition be16_at :: "bytes \<Rightarrow> nat \<Rightarrow> nat" where
  "be16_at p i = 256 * byte_at p i + byte_at p (i + 1)"

definition be32_at :: "bytes \<Rightarrow> nat \<Rightarrow> 32 word" where
  "be32_at p i = of_nat (65536 * be16_at p i + be16_at p (i + 2))"

definition ETH_HLEN :: nat where
  "ETH_HLEN = 14"

text \<open>
  The checks: Ethernet frame with IPv4, TCP, port 2000, not from the slave, no RST, SYN or FIN. The TCP header
  is taken to follow an IP header without options.
\<close>

definition tc_match :: "bytes \<Rightarrow> bool" where
  "tc_match lin \<longleftrightarrow> ETH_HLEN \<le> length lin \<and> be16_at lin 12 = 0x0800 \<and> ETH_HLEN + 20 \<le> length lin \<and> byte_at lin 23 = 6 \<and>
     ETH_HLEN + 40 \<le> length lin \<and> be16_at lin 36 = 2000 \<and> be32_at lin 26 \<noteq> 0xc0a82581 \<and>
     byte_at lin 47 div 4 mod 2 = 0 \<and> byte_at lin 47 div 2 mod 2 = 0 \<and> byte_at lin 47 mod 2 = 0"

definition tc_ihl :: "bytes \<Rightarrow> nat" where
  "tc_ihl lin = byte_at lin 14 mod 16 * 4"

definition tc_thl :: "bytes \<Rightarrow> nat" where
  "tc_thl lin = byte_at lin 46 div 16 * 4"

text \<open>
  The event, if one is submitted, and the increment of the drop counter; \<open>reserved\<close> and \<open>counter\<close> are the outcomes of
  \<open>bpf_ringbuf_reserve\<close> and \<open>bpf_map_lookup_elem\<close>. The packet is passed on in every case.
\<close>

definition handle_tc_dual_write :: "bool \<Rightarrow> bool \<Rightarrow> sk_buff \<Rightarrow> event option \<times> nat" where
  "handle_tc_dual_write reserved counter skb =
     (let pkt = skb_packet skb; lin = take (skb_linear skb) pkt
      in if \<not> tc_match lin then (None, 0)
         else
           let payload = int (be16_at lin 16) - int (tc_ihl lin) - int (tc_thl lin);
               n = nat (min payload (int MAX_PAYLOAD_SIZE)); offset = ETH_HLEN + tc_ihl lin + tc_thl lin
           in if payload < 1 then (None, 0)
              else if \<not> reserved then (None, if counter then 1 else 0)
              else if offset + n > length pkt then (None, 0)
              else (Some \<lparr>ev_seq = be32_at lin 38, ev_payload_len = of_nat n, ev_payload = take n (drop offset pkt)\<rparr>, 0))"

text \<open>A packet of the client that carries \<open>n\<close> bytes of its stream \<open>S\<close> from offset \<open>off\<close>, with an IP header without options.\<close>

definition data_segment :: "32 word \<Rightarrow> bytes \<Rightarrow> nat \<Rightarrow> nat \<Rightarrow> sk_buff \<Rightarrow> bool" where
  "data_segment isn S off n skb \<longleftrightarrow>
     (let pkt = skb_packet skb; lin = take (skb_linear skb) pkt
      in tc_match lin \<and> tc_ihl lin = 20 \<and> be16_at lin 16 = 20 + tc_thl lin + n \<and> be32_at lin 38 = isn + of_nat off \<and>
         0 < n \<and> off + n \<le> length S \<and> ETH_HLEN + 20 + tc_thl lin + n \<le> length pkt \<and>
         take n (drop (ETH_HLEN + 20 + tc_thl lin) pkt) = take n (drop off S))"

lemma captured_segment_carries:
  assumes "data_segment isn S off n skb"
  shows "\<exists>e. handle_tc_dual_write True counter skb = (Some e, 0) \<and> carries isn S off e \<and>
    unat (ev_payload_len e) = min n MAX_PAYLOAD_SIZE"
proof -
  define lin where "lin = take (skb_linear skb) (skb_packet skb)"
  let ?k = "min n MAX_PAYLOAD_SIZE" and ?o = "ETH_HLEN + 20 + tc_thl lin"
  have seg: "tc_match lin" "tc_ihl lin = 20" "be16_at lin 16 = 20 + tc_thl lin + n" "be32_at lin 38 = isn + of_nat off"
    "0 < n" "off + n \<le> length S" "?o + n \<le> length (skb_packet skb)" "take n (drop ?o (skb_packet skb)) = take n (drop off S)"
    using assms by (simp_all add: data_segment_def Let_def lin_def)
  have k: "0 < ?k" "?k \<le> n" "?k < 2 ^ 32"
    using seg(5) by (auto simp: MAX_PAYLOAD_SIZE_def)
  have data: "take ?k (drop ?o (skb_packet skb)) = take ?k (drop off S)"
    using arg_cong [OF seg(8), of "take ?k"] k(2) by (simp add: min.absorb1)
  have size: "unat (of_nat ?k :: 32 word) = ?k"
    using k(3) by (simp add: unat_of_nat)
  have n: "int (be16_at lin 16) - int (tc_ihl lin) - int (tc_thl lin) = int n" "nat (min (int n) (int MAX_PAYLOAD_SIZE)) = ?k"
    using seg(2,3) by (auto simp: min_def)
  have "handle_tc_dual_write True counter skb =
    (Some \<lparr>ev_seq = isn + of_nat off, ev_payload_len = of_nat ?k, ev_payload = take ?k (drop off S)\<rparr>, 0)"
    using seg(1,2,4,5,7) k(2) data unfolding handle_tc_dual_write_def Let_def lin_def [symmetric] n by simp
  moreover have "length (take ?k (drop off S)) = ?k"
    using seg(6) k(2) by simp
  ultimately show ?thesis
    using size k seg(6) by (auto simp: carries_def seg_at_def simp del: of_nat_min)
qed

end
