(* ===== verification/Resp_Stream.thy ===== *)
theory Resp_Stream
  imports Kvs_Refine
begin

text \<open>
  The protocol loops of \<^verbatim>\<open>resp.c\<close>: \<open>protocol_process_stream\<close>, which takes commands off the
  receive buffer, logs the writing ones, executes them and packs the replies;
  \<open>protocol_handle_internal_del\<close>, which logs the deletions of the expiry system; and
  \<open>protocol_process_recover\<close>, which replays the log. \<open>None\<close> stands for an outcome the code does
  not survive (a NULL or out-of-bounds access) or a log write that keeps waiting for the kernel.
\<close>

section \<open>Logging and replication\<close>

text \<open>
  The block that logs a command and queues it for the replica. \<open>m\<close> is the allocation of the
  backlog entry, whose failure is not checked.
\<close>

definition logging_on :: "kvs_server \<Rightarrow> bool" where
  "logging_on s \<longleftrightarrow> g_enable_persistence s \<or> g_enable_repl_master s \<or> g_enable_repl_slave s"

definition replicating :: "kvs_server \<Rightarrow> bool" where
  "replicating s \<longleftrightarrow> g_slave_fd s > 0 \<and> g_enable_repl_master s \<and>
     (g_use_tcp_sync s \<and> g_sync_file_done s \<or> g_repl_backlog_enabled s)"

definition log_and_replicate :: "aof_round list \<Rightarrow> bool \<Rightarrow> bytes \<Rightarrow> kvs_server \<Rightarrow> kvs_server option" where
  "log_and_replicate evs m raw s =
     (case (if logging_on s then kvs_persistence_write evs raw (g_aof s) else Some (g_aof s)) of
        None \<Rightarrow> None
      | Some a \<Rightarrow>
          let s1 = s\<lparr>g_aof := a\<rparr>
          in if replicating s1 \<and> g_repl_backlog_count (g_backlog s1) < REPL_BACKLOG_MAX
             then if m then Some (s1\<lparr>g_backlog := backlog_push raw (g_backlog s1)\<rparr>) else None
             else Some s1)"

section \<open>One command\<close>

text \<open>
  \<open>handle_slave_rdma_connect\<close> (\<^verbatim>\<open>repl.c\<close>): it reads \<open>argv[1]\<close> to \<open>argv[4]\<close> without looking at
  \<open>argc\<close> and uses the RDMA context without looking whether it exists; of the server state it sets
  the socket of the replica. The RDMA set-up and the acknowledgement go to the network.
\<close>

definition handle_slave_rdma_connect :: "int \<Rightarrow> resp_request \<Rightarrow> kvs_server \<Rightarrow> kvs_server option" where
  "handle_slave_rdma_connect fd req s =
     (if argc req < 5 \<or> \<not> g_rdma_ctx s then None else Some (s\<lparr>g_slave_fd := fd\<rparr>))"

record stream_env =
  se_cmd :: cmd_env
  se_args :: alloc_env
  se_ping :: bool
  se_wbuf :: bool
  se_aof :: "aof_round list"
  se_backlog :: bool

definition named :: "resp_request \<Rightarrow> bytes \<Rightarrow> bool" where
  "named req name \<longleftrightarrow> argc req > 0 \<and> rargv_len req ! 0 = int (length name) \<and>
     strncasecmp (rargv req ! 0) name (length name) = 0"

definition pack_reply :: "bool \<Rightarrow> wbuffer option \<Rightarrow> resp_reply \<Rightarrow> wbuffer option" where
  "pack_reply m w reply = map_option (\<lambda>b. resp_pack_with_realloc m b reply) w"

text \<open>The reply to PING; an empty message has a NULL body.\<close>

definition ping_reply :: "bool \<Rightarrow> resp_request \<Rightarrow> resp_reply option" where
  "ping_reply m req =
     (if argc req = 1 then Some (rep KVS_RESP_PONG)
      else if argc req = 2 then
        if rargv_len req ! 1 < 0 then None
        else if rargv_len req ! 1 = 0 then Some \<lparr>status = KVS_RESP_GET_OK, body = None\<rparr>
        else if m then Some \<lparr>status = KVS_RESP_GET_OK, body = Some (arg req 1)\<rparr>
        else None
      else Some (rep KVS_RESP_PARSE_ERROR))"

text \<open>The special network commands: whether the command is finished with them, and the state.\<close>

definition network_command :: "int \<Rightarrow> resp_request \<Rightarrow> kvs_server \<Rightarrow> (bool \<times> kvs_server) option" where
  "network_command fd req s =
     (if g_enable_repl_master s \<and> named req ''RDMA_CONNECT'' then
        map_option (Pair True) (handle_slave_rdma_connect fd req (s\<lparr>conn_roles := (conn_roles s)(fd := CONN_SLAVE)\<rparr>))
      else if g_enable_repl_master s \<and> named req ''SYNC'' \<and> g_use_tcp_sync s then Some (False, s\<lparr>g_slave_fd := fd\<rparr>)
      else Some (False, s))"

definition request_command :: "resp_request \<Rightarrow> command option" where
  "request_command req = (if argc req > 0 then lookup_command (rargv req ! 0) (rargv_len req ! 0) else None)"

definition request_writes :: "resp_request \<Rightarrow> bool" where
  "request_writes req \<longleftrightarrow> argc req > 0 \<and> is_write_command (rargv req ! 0) (rargv_len req ! 0)"

text \<open>
  The body of the loop for an unpacked request of the bytes \<open>raw\<close>: the reply, if there is one,
  and the state. The write-ahead logging comes before the execution.
\<close>

definition answer_request ::
  "stream_env \<Rightarrow> int \<Rightarrow> resp_request \<Rightarrow> bytes \<Rightarrow> kvs_server \<Rightarrow> (resp_reply option \<times> kvs_server) option" where
  "answer_request env fd req raw s =
     (case network_command fd req s of None \<Rightarrow> None | Some (special, s1) \<Rightarrow>
      if named req ''PING'' then map_option (\<lambda>reply. (Some reply, s1)) (ping_reply (se_ping env) req)
      else if special then Some (None, s1)
      else
        (case (if request_writes req then log_and_replicate (se_aof env) (se_backlog env) raw s1 else Some s1) of
           None \<Rightarrow> None
         | Some s2 \<Rightarrow> map_option (\<lambda>(reply, s3). (Some reply, s3)) (kvs_execute_batch (se_cmd env) (request_command req) req s2)))"

text \<open>The whole body, for the command of \<open>n\<close> bytes at \<open>ptr\<close>; the reply goes to the send buffer.\<close>

definition stream_command ::
  "stream_env \<Rightarrow> int \<Rightarrow> bytes \<Rightarrow> nat \<Rightarrow> wbuffer option \<Rightarrow> kvs_server \<Rightarrow> (wbuffer option \<times> kvs_server) option" where
  "stream_command env fd ptr n w s =
     (case resp_unpack_no_modify (se_args env) ptr n of None \<Rightarrow> None | Some req \<Rightarrow>
      (case answer_request env fd req (take n ptr) s of None \<Rightarrow> None | Some (reply, s') \<Rightarrow>
       Some (case reply of None \<Rightarrow> w | Some r \<Rightarrow> pack_reply (se_wbuf env) w r, s')))"

section \<open>The request loop\<close>

text \<open>
  \<open>envs i\<close> is the environment of the \<open>i\<close>-th command. The loop stops at the first incomplete
  command; every round consumes at least two bytes.
\<close>

function process_loop ::
  "(nat \<Rightarrow> stream_env) \<Rightarrow> int \<Rightarrow> bytes \<Rightarrow> nat \<Rightarrow> nat \<Rightarrow> nat \<Rightarrow> wbuffer option \<Rightarrow> kvs_server \<Rightarrow>
   (nat \<times> wbuffer option \<times> kvs_server) option" where
  "process_loop envs fd in_buf in_len i processed w s =
     (if processed < in_len then
        (case has_complete_resp_command (drop processed in_buf) (in_len - processed) of
           P_incomplete \<Rightarrow> Some (processed, w, s)
         | P_fault \<Rightarrow> None
         | P_complete n \<Rightarrow>
             (case stream_command (envs i) fd (drop processed in_buf) n w s of
                None \<Rightarrow> None
              | Some (w', s') \<Rightarrow> process_loop envs fd in_buf in_len (Suc i) (processed + n) w' s'))
      else Some (processed, w, s))"
  by pat_completeness auto
termination
proof (relation "measure (\<lambda>(envs, fd, in_buf, in_len, i, processed, w, s). in_len - processed)", goal_cases)
  case (2 envs fd in_buf in_len i processed w s n x w' s')
  then show ?case
    using has_complete_bound [of "drop processed in_buf" "in_len - processed" n] by simp linarith
qed simp

declare process_loop.simps [simp del]

text \<open>
  \<open>protocol_process_stream\<close>: the return value, the number of bytes consumed (\<open>*parsed\<close>; a buffer
  that does not start with \<open>*\<close> leaves it as it was, and the callers start it at 0), the send
  buffer and the state.
\<close>

definition protocol_process_stream ::
  "(nat \<Rightarrow> stream_env) \<Rightarrow> bytes \<Rightarrow> nat \<Rightarrow> wbuffer option \<Rightarrow> int \<Rightarrow> kvs_server \<Rightarrow>
   (int \<times> nat \<times> wbuffer option \<times> kvs_server) option" where
  "protocol_process_stream envs in_buf in_len w fd s =
     (if in_len = 0 then Some (0, 0, w, s)
      else if in_buf ! 0 \<noteq> CHR ''*'' then Some (-1, 0, w, s)
      else map_option (Pair 0) (process_loop envs fd in_buf in_len 0 0 w s))"

section \<open>Deletions by the expiry system\<close>

text \<open>\<open>ok 0\<close> is the allocation of the message, \<open>ok 1\<close> that of the backlog entry.\<close>

definition protocol_handle_internal_del ::
  "alloc_env \<Rightarrow> aof_round list \<Rightarrow> bytes \<Rightarrow> bytes \<Rightarrow> kvs_server \<Rightarrow> kvs_server option" where
  "protocol_handle_internal_del ok evs cmd key s =
     (if \<not> ok 0 then Some s
      else
        let resp_buf = ''*2'' @ crlf @ CHR ''$'' # print_int (int (length cmd)) @ crlf @ cmd @ crlf @
              CHR ''$'' # print_int (int (length key)) @ crlf @ key @ crlf
        in log_and_replicate evs (ok 1) resp_buf s)"

section \<open>Replay\<close>

text \<open>
  One replayed command: the argument vectors are copied into new allocations (\<open>ok 2\<close>, \<open>ok 3\<close>);
  a negative argument count or a failed allocation makes the copy fault.
\<close>

definition recover_command :: "cmd_env \<Rightarrow> alloc_env \<Rightarrow> bytes \<Rightarrow> nat \<Rightarrow> kvs_server \<Rightarrow> kvs_server option" where
  "recover_command env ok ptr n s =
     (case resp_unpack_no_modify ok ptr n of None \<Rightarrow> None | Some req \<Rightarrow>
      if argc req < 0 \<or> argc req > 0 \<and> \<not> (ok 2 \<and> ok 3) then None
      else map_option snd (kvs_execute_batch env (request_command req) req s))"

function recover_loop ::
  "(nat \<Rightarrow> cmd_env \<times> alloc_env) \<Rightarrow> bytes \<Rightarrow> nat \<Rightarrow> nat \<Rightarrow> nat \<Rightarrow> kvs_server \<Rightarrow> (nat \<times> kvs_server) option" where
  "recover_loop envs in_buf in_len i processed s =
     (if processed < in_len then
        (case has_complete_resp_command (drop processed in_buf) (in_len - processed) of
           P_incomplete \<Rightarrow> Some (processed, s)
         | P_fault \<Rightarrow> None
         | P_complete n \<Rightarrow>
             (case recover_command (fst (envs i)) (snd (envs i)) (drop processed in_buf) n s of
                None \<Rightarrow> None
              | Some s' \<Rightarrow> recover_loop envs in_buf in_len (Suc i) (processed + n) s'))
      else Some (processed, s))"
  by pat_completeness auto
termination
proof (relation "measure (\<lambda>(envs, in_buf, in_len, i, processed, s). in_len - processed)", goal_cases)
  case (2 envs in_buf in_len i processed s n x)
  then show ?case
    using has_complete_bound [of "drop processed in_buf" "in_len - processed" n] by simp linarith
qed simp

declare recover_loop.simps [simp del]

definition protocol_process_recover ::
  "(nat \<Rightarrow> cmd_env \<times> alloc_env) \<Rightarrow> bytes \<Rightarrow> int \<Rightarrow> kvs_server \<Rightarrow> (nat \<times> kvs_server) option" where
  "protocol_process_recover envs in_buf in_len s =
     (if in_len \<le> 0 then Some (0, s) else recover_loop envs in_buf (nat in_len) 0 0 s)"

text \<open>
  \<open>kvs_persistence_recover\<close> (\<^verbatim>\<open>persistence.c\<close>): \<open>sys i\<close> are the outcomes of opening the file (when it is
  not open), \<open>fstat\<close>, \<open>mmap\<close> and reopening. The file size is passed on as an \<open>int\<close>.
\<close>

definition kvs_persistence_recover ::
  "(nat \<Rightarrow> bool) \<Rightarrow> (nat \<Rightarrow> cmd_env \<times> alloc_env) \<Rightarrow> kvs_server \<Rightarrow> kvs_server option" where
  "kvs_persistence_recover sys envs s =
     (if \<not> aof_open (g_aof s) \<and> \<not> sys 0 then Some s
      else
        let s1 = s\<lparr>g_aof := (g_aof s)\<lparr>aof_open := True\<rparr>\<rparr>; data = aof_file (g_aof s)
        in if \<not> sys 1 \<or> data = [] then Some s1
           else if \<not> sys 2 then Some s1
           else case protocol_process_recover envs data (i32 (int (length data))) s1 of
             None \<Rightarrow> None
           | Some (processed, s2) \<Rightarrow>
               Some (s2\<lparr>g_aof := (g_aof s2)\<lparr>aof_file_offset := length data, aof_open := sys 3\<rparr>\<rparr>))"

end
