(* ===== verification/Resp_Pipeline.thy ===== *)
theory Resp_Pipeline
  imports Resp_Stream
begin

text \<open>
  The request loop against a specification that knows no buffers: \<open>serve\<close> answers a list of
  requests one after the other. The lemmas show that \<open>protocol_process_stream\<close> on any receive
  buffer that holds complete requests and the beginning of a further one is \<open>serve\<close> on the
  complete ones, and the same for the replay of the log.
\<close>

section \<open>Specification\<close>

definition requests :: "bytes list list \<Rightarrow> bytes" where
  "requests as = concat (map resp_encode as)"

lemma requests_simps [simp]:
  "requests [] = []" "requests (a # as) = resp_encode a @ requests as" "requests (as @ bs) = requests as @ requests bs"
  by (simp_all add: requests_def)

text \<open>Sizes the parser can represent.\<close>

definition sized :: "bytes list \<Rightarrow> bool" where
  "sized args \<longleftrightarrow> length args < 2 ^ 31 \<and> (\<forall>a\<in>set args. length a < 2 ^ 31)"

text \<open>Allocation of the argument vectors of a request of more than 16 arguments.\<close>

definition vectors_ok :: "alloc_env \<Rightarrow> bytes list \<Rightarrow> bool" where
  "vectors_ok ok args \<longleftrightarrow> (int (length args) > RESP_STATIC_ARGC \<longrightarrow> ok 0 \<and> ok 1)"

text \<open>
  Answering requests in order; \<open>tail\<close> are the bytes behind the last of them. The result is the
  list of replies and the state.
\<close>

fun serve ::
  "(nat \<Rightarrow> stream_env) \<Rightarrow> int \<Rightarrow> nat \<Rightarrow> bytes list list \<Rightarrow> bytes \<Rightarrow> kvs_server \<Rightarrow>
   (resp_reply option list \<times> kvs_server) option" where
  "serve envs fd i [] tail s = Some ([], s)"
| "serve envs fd i (a # as) tail s =
     (case answer_request (envs i) fd (parsed_request a (requests as @ tail)) (resp_encode a) s of
        None \<Rightarrow> None
      | Some (r, s') \<Rightarrow> map_option (\<lambda>(rs, s''). (r # rs, s'')) (serve envs fd (Suc i) as tail s'))"

text \<open>The send buffer after a list of replies.\<close>

fun pack_all :: "(nat \<Rightarrow> stream_env) \<Rightarrow> nat \<Rightarrow> resp_reply option list \<Rightarrow> wbuffer option \<Rightarrow> wbuffer option" where
  "pack_all envs i [] w = w"
| "pack_all envs i (r # rs) w =
     pack_all envs (Suc i) rs (case r of None \<Rightarrow> w | Some x \<Rightarrow> pack_reply (se_wbuf (envs i)) w x)"

section \<open>The request loop\<close>

lemma stream_command_encoded:
  assumes "sized a" and "vectors_ok (se_args env) a"
  shows "stream_command env fd (resp_encode a @ rest) (length (resp_encode a)) w s =
    map_option (\<lambda>(r, s'). (case r of None \<Rightarrow> w | Some x \<Rightarrow> pack_reply (se_wbuf env) w x, s'))
      (answer_request env fd (parsed_request a rest) (resp_encode a) s)"
  using assms resp_unpack_encoded [of a "se_args env" rest]
  by (auto simp: stream_command_def sized_def vectors_ok_def split: option.split)

lemma resp_encode_Cons: "resp_encode a = CHR ''*'' # tl (resp_encode a)"
  by (simp add: resp_encode_def)

lemma process_loop_requests:
  assumes "\<forall>a\<in>set as. sized a" and "sized part" and "k < length (resp_encode part)"
    and "\<And>j. j < length as \<Longrightarrow> vectors_ok (se_args (envs (i + j))) (as ! j)"
    and "drop p buf = requests as @ take k (resp_encode part) @ stale"
    and "n = p + length (requests as) + k" and "p \<le> length buf"
  shows "process_loop envs fd buf n i p w s =
    map_option (\<lambda>(rs, s'). (p + length (requests as), pack_all envs i rs w, s'))
      (serve envs fd i as (take k (resp_encode part) @ stale) s)"
  using assms(1,4-)
proof (induction as arbitrary: i p w s)
  case Nil
  have "has_complete_resp_command (take k (resp_encode part) @ stale) k = P_incomplete"
    using has_complete_cut [of part k stale] assms(2,3) by (simp add: sized_def)
  then show ?case
    using Nil.prems by (subst process_loop.simps) simp
next
  case (Cons a as)
  let ?tail = "take k (resp_encode part) @ stale"
  let ?n = "length (resp_encode a)"
  have a: "sized a" "vectors_ok (se_args (envs i)) a"
    using Cons.prems(1) Cons.prems(2) [of 0] by simp_all
  have "0 < ?n"
    by (subst resp_encode_Cons) simp
  have at: "drop p buf = resp_encode a @ (requests as @ ?tail)"
    using Cons.prems(3) by simp
  have probe: "has_complete_resp_command (drop p buf) (n - p) = P_complete ?n"
    unfolding at using a(1) Cons.prems(4) by (intro has_complete_encoded) (simp_all add: sized_def)
  have rest: "drop (p + ?n) buf = requests as @ ?tail"
    using arg_cong [OF at, of "drop ?n"] by (simp add: add.commute)
  have len: "p + ?n \<le> length buf"
    using arg_cong [OF at, of length] Cons.prems(5) by simp
  have IH: "process_loop envs fd buf n (Suc i) (p + ?n) w' s' =
      map_option (\<lambda>(rs, s''). (p + ?n + length (requests as), pack_all envs (Suc i) rs w', s'')) (serve envs fd (Suc i) as ?tail s')"
    for w' s'
    using Cons.prems(1) Cons.prems(2) [of "Suc j" for j] Cons.prems(4) rest len
    by (intro Cons.IH) simp_all
  have "p < n"
    using Cons.prems(4) \<open>0 < ?n\<close> by simp
  then show ?case
    using probe stream_command_encoded [OF a, of fd "requests as @ ?tail" w s]
    by (subst process_loop.simps)
      (simp add: at IH option.map_comp comp_def case_prod_unfold add.assoc split: option.split)
qed

lemma protocol_process_stream_serve:
  assumes "\<forall>a\<in>set as. sized a" and "sized part" and "k < length (resp_encode part)"
    and "\<And>j. j < length as \<Longrightarrow> vectors_ok (se_args (envs j)) (as ! j)"
  shows "protocol_process_stream envs (requests as @ take k (resp_encode part) @ stale)
      (length (requests as) + k) w fd s =
    map_option (\<lambda>(rs, s'). (0, length (requests as), pack_all envs 0 rs w, s'))
      (serve envs fd 0 as (take k (resp_encode part) @ stale) s)"
proof (cases "length (requests as) + k = 0")
  case True
  then have "as = []"
    by (cases as) (simp_all add: resp_encode_def)
  with True show ?thesis
    by (simp add: protocol_process_stream_def)
next
  case False
  have "(requests as @ take k (resp_encode part) @ stale) ! 0 = CHR ''*''"
  proof (cases as)
    case Nil
    with False obtain k' where "k = Suc k'"
      by (cases k) simp_all
    with Nil show ?thesis
      by (subst resp_encode_Cons) simp
  next
    case (Cons a as')
    then show ?thesis
      by (simp add: resp_encode_def)
  qed
  then show ?thesis
    using False process_loop_requests [OF assms(1-3), of envs 0 0 "requests as @ take k (resp_encode part) @ stale"
        stale "length (requests as) + k" fd w s] assms(4)
    by (auto simp: protocol_process_stream_def option.map_comp comp_def case_prod_unfold)
qed

section \<open>Properties\<close>

text \<open>
  C23. Pipelining: a receive buffer that holds any number of complete requests and a proper part
  of a further one (with arbitrary stale bytes behind it) is processed as if the complete requests
  had come one by one: exactly their bytes are consumed, they are answered in order, the replies
  are appended in order, and the part of the last request is left for the next read.
\<close>

theorem pipelined_requests:
  assumes "\<forall>a\<in>set as. sized a" and "sized part" and "k < length (resp_encode part)"
    and "\<forall>j<length as. vectors_ok (se_args (envs j)) (as ! j)"
  shows "protocol_process_stream envs (requests as @ take k (resp_encode part) @ stale)
      (length (requests as) + k) w fd s =
    map_option (\<lambda>(rs, s'). (0, length (requests as), pack_all envs 0 rs w, s'))
      (serve envs fd 0 as (take k (resp_encode part) @ stale) s)"
  using assms by (intro protocol_process_stream_serve) simp_all

definition senv_demo :: stream_env where
  "senv_demo = \<lparr>se_cmd = env_demo, se_args = always_ok, se_ping = True, se_wbuf = True, se_aof = [], se_backlog = True\<rparr>"

lemma ping_demo:
  "answer_request senv_demo fd (parsed_request [''PING''] rest) raw server_static = Some (Some (rep KVS_RESP_PONG), server_static)"
proof -
  have "strncasecmp (''PING'' @ crlf @ rest) ''PING'' 4 = 0"
    by (simp add: strncasecmp_def numeral_eq_Suc toupper_def NUL_def)
  then have "named (parsed_request [''PING''] rest) ''PING''"
    by (simp add: named_def parsed_request_def numeral_eq_Suc)
  moreover have "network_command fd (parsed_request [''PING''] rest) server_static = Some (False, server_static)"
    by (simp add: network_command_def server_static_def)
  ultimately show ?thesis
    by (simp add: answer_request_def ping_reply_def parsed_request_def)
qed

theorem pipelined_requests_witness:
  "protocol_process_stream (\<lambda>_. senv_demo) (requests [[''PING''], [''PING'']] @ take 1 (resp_encode [''GET'']) @ ''xyz'')
     (length (requests [[''PING''], [''PING'']]) + 1) (Some \<lparr>wdata = [], wcap = 4096\<rparr>) 5 server_static =
   Some (0, length (requests [[''PING''], [''PING'']]), Some \<lparr>wdata = ''+PONG'' @ crlf @ ''+PONG'' @ crlf, wcap = 4096\<rparr>, server_static)"
proof -
  have "1 < length (resp_encode [''GET''])"
    by (simp add: resp_encode_def)
  moreover have "pack_all (\<lambda>_. senv_demo) 0 [Some (rep KVS_RESP_PONG), Some (rep KVS_RESP_PONG)] (Some \<lparr>wdata = [], wcap = 4096\<rparr>) =
    Some \<lparr>wdata = ''+PONG'' @ crlf @ ''+PONG'' @ crlf, wcap = 4096\<rparr>"
    by (simp add: senv_demo_def pack_reply_def resp_pack_with_realloc_def rep_def resp_pack_def body_len_def i32_id Let_def)
  moreover have "serve (\<lambda>_. senv_demo) 5 0 [[''PING''], [''PING'']] (take 1 (resp_encode [''GET'']) @ ''xyz'') server_static =
    Some ([Some (rep KVS_RESP_PONG), Some (rep KVS_RESP_PONG)], server_static)"
    by (simp add: ping_demo)
  moreover have "\<forall>a\<in>set [[''PING''], [''PING'']]. sized a" "sized [''GET'']"
    "\<forall>j<length [[''PING''], [''PING'']]. vectors_ok (se_args senv_demo) ([[''PING''], [''PING'']] ! j)"
    by (simp_all add: sized_def vectors_ok_def senv_demo_def)
  ultimately show ?thesis
    by (subst pipelined_requests) (simp_all only: option.map prod.case)
qed

end
