(* ===== verification/Resp_Wal.thy ===== *)
theory Resp_Wal
  imports Resp_Pipeline
begin

text \<open>
  Write-ahead logging: what a session appends to the log, and what the replay of that log gives.
\<close>

section \<open>What commands leave alone\<close>

definition modes :: "kvs_server \<Rightarrow> bool \<times> bool \<times> bool \<times> bool \<times> bool" where
  "modes s = (g_enable_persistence s, g_enable_ttl s, g_enable_repl_master s, g_enable_repl_slave s, g_use_tcp_sync s)"

definition settings :: "kvs_server \<Rightarrow> aof \<times> bool \<times> bool \<times> bool \<times> bool \<times> bool" where
  "settings s = (g_aof s, modes s)"

lemma settings_upd [simp]:
  "settings (s\<lparr>global_array := x1\<rparr>) = settings s" "settings (s\<lparr>global_rbtree := x2\<rparr>) = settings s"
  "settings (s\<lparr>global_hash := x3\<rparr>) = settings s" "settings (s\<lparr>global_hash1 := x4\<rparr>) = settings s"
  "settings (s\<lparr>global_hash2 := x5\<rparr>) = settings s" "settings (s\<lparr>global_hash3 := x6\<rparr>) = settings s"
  "settings (s\<lparr>global_hash4 := x7\<rparr>) = settings s" "settings (s\<lparr>global_skip := x8\<rparr>) = settings s"
  "settings (s\<lparr>global_vector_index := x9\<rparr>) = settings s" "settings (s\<lparr>g_cmd_queue := x10\<rparr>) = settings s"
  "settings (s\<lparr>g_mempool := x11\<rparr>) = settings s" "settings (s\<lparr>g_save_pid := x12\<rparr>) = settings s"
  "settings (s\<lparr>g_repl_backlog_enabled := x13\<rparr>) = settings s" "settings (s\<lparr>g_backlog := x14\<rparr>) = settings s"
  "settings (s\<lparr>g_rdma_ctx := x15\<rparr>) = settings s" "settings (s\<lparr>g_repl_fd := x16\<rparr>) = settings s"
  "settings (s\<lparr>g_sync_file_done := x17\<rparr>) = settings s" "settings (s\<lparr>g_slave_fd := x18\<rparr>) = settings s"
  "settings (s\<lparr>conn_roles := x19\<rparr>) = settings s"
  by (simp_all add: settings_def modes_def)

lemmas array_defs = cmd_array_set_def cmd_array_get_def cmd_array_del_def cmd_array_mod_def cmd_array_exists_def
lemmas rbtree_defs = cmd_rbtree_set_def cmd_rbtree_get_def cmd_rbtree_del_def cmd_rbtree_mod_def cmd_rbtree_exists_def
lemmas hash_defs = cmd_hash_set_def cmd_hash_get_def cmd_hash_del_def cmd_hash_mod_def cmd_hash_exists_def
lemmas skip_defs = cmd_skip_set_def cmd_skip_get_def cmd_skip_del_def cmd_skip_mod_def cmd_skip_exists_def
lemmas context_defs = cmd_setctx_def cmd_getctx_def cmd_delctx_def cmd_setrec_def cmd_getrec_def cmd_setidx_def cmd_getidx_def
lemmas index_defs = cmd_keep_def cmd_match_def cmd_getidxrec_def cmd_zadd_def cmd_zrange_def cmd_zrangerec_def
lemmas system_defs = cmd_sys_save_def cmd_sys_sync_def cmd_sys_sync_done_def cmd_sys_memtrim_def repl_destroy_def

lemma run_proc_settings:
  assumes "run_proc p env req s = Some (r, s')"
  shows "settings s' = settings s"
  using assms
  by (cases p)
    (auto simp: array_defs rbtree_defs hash_defs skip_defs context_defs index_defs system_defs
      with_key_def with_key_value_def Let_def split: if_splits prod.splits option.splits)

section \<open>Command names\<close>

text \<open>The name of a request in upper case.\<close>

definition cmd_name :: "bytes list \<Rightarrow> bytes" where
  "cmd_name a = (case a of [] \<Rightarrow> [] | n # _ \<Rightarrow> map toupper n)"

lemma parsed_request_simps [simp]:
  "argc (parsed_request a rest) = int (length a)" "rargv_len (parsed_request a rest) = map (int \<circ> length) a"
  "rargv (parsed_request a rest) = arg_ptrs a rest"
  by (simp_all add: parsed_request_def)

lemma strncasecmp_prefix:
  assumes "NUL \<notin> set name" and "map toupper name = name"
  shows "strncasecmp (x @ y) name (length name) = 0 \<and> length x = length name \<longleftrightarrow> map toupper x = name"
    and "strncasecmp name (x @ y) (length name) = 0 \<and> length x = length name \<longleftrightarrow> map toupper x = name"
proof -
  have "strncmp n a b = 0 \<longleftrightarrow> strncmp n b a = 0" for n a b
    by (induction n a b rule: strncmp.induct) (auto simp: of_char_NUL)
  then show "strncasecmp (x @ y) name (length name) = 0 \<and> length x = length name \<longleftrightarrow> map toupper x = name"
    and "strncasecmp name (x @ y) (length name) = 0 \<and> length x = length name \<longleftrightarrow> map toupper x = name"
    using assms strncmp_eq_take [of name "length name" "map toupper (x @ y)"]
    by (auto simp: strncasecmp_def take_map dest: map_eq_imp_length_eq)
qed

lemma named_parsed:
  assumes "NUL \<notin> set name" and "map toupper name = name" and "name \<noteq> []"
  shows "named (parsed_request a rest) name \<longleftrightarrow> cmd_name a = name"
  using strncasecmp_prefix(1) [OF assms(1,2)] assms(3)
  by (cases a) (auto simp: named_def cmd_name_def)

lemma write_names_ok:
  "\<forall>n\<in>set write_names. NUL \<notin> set n \<and> map toupper n = n \<and> n \<noteq> [] \<and> n \<noteq> ''PING'' \<and> n \<noteq> ''RDMA_CONNECT'' \<and> n \<noteq> ''SYNC''"
  by code_simp

lemma request_writes_parsed: "request_writes (parsed_request a rest) \<longleftrightarrow> cmd_name a \<in> set write_names"
proof -
  have "request_writes (parsed_request a rest) \<longleftrightarrow> (\<exists>n\<in>set write_names. named (parsed_request a rest) n)"
    by (auto simp: request_writes_def is_write_command_def named_def)
  also have "\<dots> \<longleftrightarrow> cmd_name a \<in> set write_names"
    using named_parsed write_names_ok by (metis (no_types, lifting))
  finally show ?thesis .
qed

lemma table_names_plain: "\<forall>c\<in>set g_cmd_table. CR \<notin> set (cname c) \<and> cname c \<noteq> []"
  by code_simp

lemma request_command_parsed:
  "request_command (parsed_request a rest) = find (\<lambda>c. cname c = cmd_name a) g_cmd_table"
proof (cases a)
  case Nil
  then show ?thesis
    using table_names_plain by (auto simp: request_command_def cmd_name_def find_None_iff eq_commute [of None])
next
  case (Cons n as)
  let ?p = "n @ crlf @ resp_args as @ rest"
  let ?len = "if int (length n) > 0 then int (length n) else int (length (cstr ?p))"
  have "name_matches ?p ?len c \<longleftrightarrow> cname c = cmd_name a" if c: "c \<in> set g_cmd_table" for c
  proof (cases "n = []")
    case True
    have "toupper CR = CR"
      by (simp add: toupper_def)
    then have "map toupper (take (length (cname c)) ?p) \<noteq> cname c"
      using True table_names_plain c by (cases "cname c") auto
    then show ?thesis
      using True name_matches_iff [OF c] table_names_plain c Cons by (auto simp: cmd_name_def)
  next
    case False
    then show ?thesis
      using name_matches_iff [OF c, of ?p ?len] Cons by (auto simp: cmd_name_def)
  qed
  then have "find (name_matches ?p ?len) g_cmd_table = find (\<lambda>c. cname c = cmd_name a) g_cmd_table"
    by (intro find_cong) simp_all
  then show ?thesis
    using Cons by (cases "n = []") (simp_all add: request_command_def lookup_find)
qed

lemma find_SomeD: "find P xs = Some x \<Longrightarrow> x \<in> set xs \<and> P x"
  by (auto simp: find_Some_iff)

lemma table_writes: "\<forall>c\<in>set g_cmd_table. is_write_proc (cproc c) \<longleftrightarrow> cname c \<in> set write_names"
  by code_simp

lemma write_names_known: "\<forall>n\<in>set write_names. \<exists>c\<in>set g_cmd_table. cname c = n"
  by code_simp

text \<open>A request is logged exactly if its command is one that changes data.\<close>

lemma writes_iff:
  "request_writes (parsed_request a rest) \<longleftrightarrow>
   (\<exists>c. request_command (parsed_request a rest) = Some c \<and> is_write_proc (cproc c))"
proof
  assume "request_writes (parsed_request a rest)"
  then obtain d where "d \<in> set g_cmd_table" "cname d = cmd_name a" and w: "cmd_name a \<in> set write_names"
    using write_names_known request_writes_parsed by metis
  then obtain c where c: "find (\<lambda>c. cname c = cmd_name a) g_cmd_table = Some c"
    by (metis (mono_tags, lifting) find_None_iff not_None_eq)
  then show "\<exists>c. request_command (parsed_request a rest) = Some c \<and> is_write_proc (cproc c)"
    using table_writes find_SomeD [OF c] w request_command_parsed by metis
next
  assume "\<exists>c. request_command (parsed_request a rest) = Some c \<and> is_write_proc (cproc c)"
  then show "request_writes (parsed_request a rest)"
    unfolding request_command_parsed request_writes_parsed using table_writes find_SomeD
    by (metis (mono_tags, lifting))
qed

section \<open>One request\<close>

lemma stores_upd [simp]:
  "view (s\<lparr>g_aof := x1\<rparr>) = view s" "view (s\<lparr>g_backlog := x2\<rparr>) = view s"
  "view (s\<lparr>g_slave_fd := x3\<rparr>) = view s" "view (s\<lparr>conn_roles := x4\<rparr>) = view s"
  "server_inv (s\<lparr>g_aof := x1\<rparr>) = server_inv s" "server_inv (s\<lparr>g_backlog := x2\<rparr>) = server_inv s"
  "server_inv (s\<lparr>g_slave_fd := x3\<rparr>) = server_inv s" "server_inv (s\<lparr>conn_roles := x4\<rparr>) = server_inv s"
  by (simp_all add: view_def server_inv_def del: server_inv_stores view_sel)

lemma answer_write:
  assumes "cmd_name a \<in> set write_names"
  shows "answer_request env fd (parsed_request a rest) raw s =
    (case log_and_replicate (se_aof env) (se_backlog env) raw s of None \<Rightarrow> None
     | Some s2 \<Rightarrow> map_option (\<lambda>(r, s3). (Some r, s3))
         (kvs_execute_batch (se_cmd env) (request_command (parsed_request a rest)) (parsed_request a rest) s2))"
proof -
  have "\<not> named (parsed_request a rest) n" if "n \<in> {''PING'', ''RDMA_CONNECT'', ''SYNC''}" for n
  proof -
    have "NUL \<notin> set n \<and> map toupper n = n \<and> n \<noteq> []"
      using that by (elim insertE emptyE; hypsubst) code_simp+
    then show ?thesis
      using that assms write_names_ok named_parsed [of n a rest] by auto
  qed
  then show ?thesis
    using assms by (simp add: answer_request_def network_command_def request_writes_parsed)
qed

lemma network_command_frame:
  assumes "network_command fd req s = Some (b, s1)"
  shows "settings s1 = settings s \<and> view s1 = view s \<and> server_inv s1 = server_inv s"
  using assms
  by (auto simp: network_command_def handle_slave_rdma_connect_def split: if_splits)

lemma execute_settings: "kvs_execute_batch env c req s = Some (r, s') \<Longrightarrow> settings s' = settings s"
  using run_proc_settings by (auto simp: kvs_execute_batch_def split: option.splits)

lemma answer_read_settings:
  assumes "answer_request env fd (parsed_request a rest) raw s = Some (r, s')" and "cmd_name a \<notin> set write_names"
  shows "settings s' = settings s"
proof -
  obtain b s1 where s1: "network_command fd (parsed_request a rest) s = Some (b, s1)"
    using assms(1) by (cases "network_command fd (parsed_request a rest) s") (auto simp: answer_request_def)
  then show ?thesis
    using assms network_command_frame [OF s1] execute_settings
    by (auto simp: answer_request_def request_writes_parsed split: if_splits)
qed

lemma log_and_replicate_frame:
  assumes "log_and_replicate evs m raw s = Some s2"
  shows "modes s2 = modes s \<and> view s2 = view s \<and> server_inv s2 = server_inv s"
  using assms
  by (auto simp: log_and_replicate_def Let_def modes_def split: if_splits option.splits)

lemma logging_on_modes: "modes s' = modes s \<Longrightarrow> logging_on s' = logging_on s"
  by (simp add: logging_on_def modes_def)

lemma log_and_replicate_log:
  assumes "log_and_replicate evs m raw s = Some s2" and "logging_on s" and "aof_ok (g_aof s)" and "aof_open (g_aof s)"
    and "rounds_full evs (g_aof s)" and "length raw \<le> AOF_BUF_SIZE"
  shows "aof_ok (g_aof s2) \<and> aof_open (g_aof s2) \<and> aof_log (g_aof s2) = aof_log (g_aof s) @ raw"
proof -
  obtain a where a: "kvs_persistence_write evs raw (g_aof s) = Some a" and "g_aof s2 = a"
    using assms(1,2) by (auto simp: log_and_replicate_def Let_def split: if_splits option.splits)
  then show ?thesis
    using persistence_write_log [OF a assms(3,5,4,6)] by simp
qed

section \<open>Sessions\<close>

text \<open>Every asynchronous write that a log write waits for during the session is complete.\<close>

fun session_io ::
  "(nat \<Rightarrow> stream_env) \<Rightarrow> int \<Rightarrow> nat \<Rightarrow> bytes list list \<Rightarrow> bytes \<Rightarrow> kvs_server \<Rightarrow> bool" where
  "session_io envs fd i [] tail s = True"
| "session_io envs fd i (a # as) tail s \<longleftrightarrow>
     rounds_full (se_aof (envs i)) (g_aof s) \<and>
     (case answer_request (envs i) fd (parsed_request a (requests as @ tail)) (resp_encode a) s of
        None \<Rightarrow> True
      | Some (r, s') \<Rightarrow> session_io envs fd (Suc i) as tail s')"

definition logged :: "bytes list list \<Rightarrow> bytes list list" where
  "logged as = filter (\<lambda>a. cmd_name a \<in> set write_names) as"

lemma logged_simps [simp]:
  "logged [] = []" "logged (a # as) = (if cmd_name a \<in> set write_names then a # logged as else logged as)"
  by (simp_all add: logged_def)

lemma answer_log:
  assumes "answer_request env fd (parsed_request a rest) (resp_encode a) s = Some (r, s')"
    and "logging_on s" and "aof_ok (g_aof s)" and "aof_open (g_aof s)" and "rounds_full (se_aof env) (g_aof s)"
    and "length (resp_encode a) \<le> AOF_BUF_SIZE"
  shows "logging_on s' \<and> aof_ok (g_aof s') \<and> aof_open (g_aof s') \<and>
    aof_log (g_aof s') = aof_log (g_aof s) @ requests (logged [a])"
proof (cases "cmd_name a \<in> set write_names")
  case True
  then obtain s2 where s2: "log_and_replicate (se_aof env) (se_backlog env) (resp_encode a) s = Some s2"
    and ex: "settings s' = settings s2"
    using assms(1) execute_settings by (auto simp: answer_write split: option.splits)
  show ?thesis
    using log_and_replicate_log [OF s2 assms(2-6)] log_and_replicate_frame [OF s2] ex True assms(2)
      logging_on_modes [of s' s] by (simp add: settings_def)
next
  case False
  then show ?thesis
    using answer_read_settings [OF assms(1) False] assms(2-4) logging_on_modes [of s' s] by (simp add: settings_def)
qed

lemma serve_log:
  assumes "serve envs fd i as tail s = Some (rs, s')" and "session_io envs fd i as tail s"
    and "logging_on s" and "aof_ok (g_aof s)" and "aof_open (g_aof s)"
    and "\<forall>a\<in>set as. length (resp_encode a) \<le> AOF_BUF_SIZE"
  shows "aof_ok (g_aof s') \<and> aof_open (g_aof s') \<and> aof_log (g_aof s') = aof_log (g_aof s) @ requests (logged as)"
  using assms
proof (induction as arbitrary: i s rs)
  case (Cons a as)
  then obtain r s1 rs1 where s1: "answer_request (envs i) fd (parsed_request a (requests as @ tail)) (resp_encode a) s = Some (r, s1)"
    and rest: "serve envs fd (Suc i) as tail s1 = Some (rs1, s')"
    by (auto split: option.splits)
  note one = answer_log [OF s1 Cons.prems(3-5)]
  have "aof_ok (g_aof s') \<and> aof_open (g_aof s') \<and> aof_log (g_aof s') = aof_log (g_aof s1) @ requests (logged as)"
    using Cons.prems(2,6) one s1 by (intro Cons.IH [OF rest]) simp_all
  then show ?case
    using one Cons.prems(2,6) by auto
qed simp

section \<open>Properties\<close>

text \<open>
  C24. Write-ahead logging: when a session starts on an open log and the writes the server waits
  for complete, then after the session the log (file, buffer being written, active buffer) has
  grown by exactly the original bytes of the writing commands, in the order they were served, and
  by nothing else.
\<close>

theorem session_log:
  assumes "serve envs fd 0 as tail s = Some (rs, s')" and "session_io envs fd 0 as tail s"
    and "logging_on s" and "aof_ok (g_aof s)" and "aof_open (g_aof s)"
    and "\<forall>a\<in>set as. length (resp_encode a) \<le> AOF_BUF_SIZE"
  shows "aof_log (g_aof s') = aof_log (g_aof s) @ requests (filter (\<lambda>a. request_writes (parsed_request a [])) as) \<and>
    aof_ok (g_aof s')"
  using serve_log [OF assms] by (simp add: logged_def request_writes_parsed)

definition server_wal :: kvs_server where
  "server_wal = server_demo\<lparr>g_enable_persistence := True, g_aof := aof_demo\<rparr>"

lemma server_wal_ok:
  "server_inv server_wal" "view server_wal = empty_view" "\<not> g_enable_ttl server_wal" "logging_on server_wal"
  "aof_ok (g_aof server_wal)" "aof_open (g_aof server_wal)" "aof_log (g_aof server_wal) = []"
  "\<not> replicating server_wal" "aof_buf_active (g_aof server_wal) = []"
proof -
  have inv: "server_inv server_demo" and empty: "view server_demo = empty_view"
    using create_engines_inv unfolding server_demo_def by blast+
  have eq: "view server_wal = view server_demo" "server_inv server_wal = server_inv server_demo"
    by (simp_all add: server_wal_def view_def server_inv_def del: server_inv_stores view_sel)
  with inv empty show "server_inv server_wal" "view server_wal = empty_view" by simp_all
  show "\<not> g_enable_ttl server_wal" "logging_on server_wal" "\<not> replicating server_wal"
    by (simp_all add: server_wal_def server_demo_def create_engines_def server_static_def logging_on_def replicating_def)
  show "aof_ok (g_aof server_wal)" "aof_open (g_aof server_wal)" "aof_log (g_aof server_wal) = []" "aof_buf_active (g_aof server_wal) = []"
    by (simp_all add: server_wal_def aof_demo_def kvs_persistence_init_def aof_static_def aof_ok_def aof_log_def Let_def)
qed

text \<open>The session of the witnesses: one SSET.\<close>

definition sset_demo :: "bytes list" where
  "sset_demo = [''SSET'', ''k'', ''v'']"

lemma sset_demo_name: "cmd_name sset_demo = ''SSET''" "''SSET'' \<in> set write_names"
  "find (\<lambda>c. cname c = ''SSET'') g_cmd_table = Some (mk_command ''SSET'' 3 P_skip_set)"
  by code_simp+

lemma sset_demo_length: "length (resp_encode sset_demo) \<le> 100" "sized sset_demo"
proof -
  have "length (print_int 1) \<le> 2" "length (print_int 3) \<le> 2" "length (print_int 4) \<le> 2"
    using dec_length [of 1 2] dec_length [of 3 2] dec_length [of 4 2] by (simp_all add: print_int_def)
  then show "length (resp_encode sset_demo) \<le> 100"
    by (simp add: sset_demo_def resp_encode_def resp_arg_def)
qed (simp add: sized_def sset_demo_def)

lemma sset_demo_executes:
  assumes "skip_inv (global_skip s)" and "\<not> g_enable_ttl s"
  shows "\<exists>s'. kvs_execute_batch env_demo (request_command (parsed_request sset_demo rest)) (parsed_request sset_demo rest) s =
    Some (rep KVS_RESP_OK, s')"
proof -
  let ?r = "parsed_request sset_demo rest"
  obtain st where "kvs_skip_set 7 always_ok (global_skip s) (kd (arg ?r 1)) (kd (arg ?r 2)) 0 = (0, st)"
    using kvs_skip_set_succeeds [OF assms(1)] by (metis prod.collapse)
  moreover have "request_command ?r = Some (mk_command ''SSET'' 3 P_skip_set)"
    using sset_demo_name by (simp add: request_command_parsed)
  ultimately show ?thesis
    using assms(2)
    by (simp add: kvs_execute_batch_def mk_command_def cmd_skip_set_def with_key_value_def
        env_demo_def Let_def) (simp add: sset_demo_def)
qed

lemma sset_demo_session:
  "\<exists>s'. serve (\<lambda>_. senv_demo) 5 0 [sset_demo] [] server_wal = Some ([Some (rep KVS_RESP_OK)], s')"
proof -
  have small: "0 < length (resp_encode sset_demo)" "length (resp_encode sset_demo) \<le> AOF_BUF_SIZE"
    using sset_demo_length(1) by (simp_all add: AOF_BUF_SIZE_def resp_encode_def)
  then have "\<exists>a. kvs_persistence_write [] (resp_encode sset_demo) (g_aof server_wal) = Some a"
    using server_wal_ok(9) by (simp add: kvs_persistence_write_def aof_make_room.simps [of "[]"])
  then obtain a where a: "kvs_persistence_write [] (resp_encode sset_demo) (g_aof server_wal) = Some a"
    by blast
  have log: "log_and_replicate [] True (resp_encode sset_demo) server_wal = Some (server_wal\<lparr>g_aof := a\<rparr>)"
    using a server_wal_ok(4,8) by (auto simp: log_and_replicate_def replicating_def Let_def)
  have "skip_inv (global_skip server_wal)"
    using server_wal_ok(1) by simp
  then obtain s' where "kvs_execute_batch env_demo (request_command (parsed_request sset_demo [])) (parsed_request sset_demo [])
      (server_wal\<lparr>g_aof := a\<rparr>) = Some (rep KVS_RESP_OK, s')"
    using sset_demo_executes [of "server_wal\<lparr>g_aof := a\<rparr>" "[]"] server_wal_ok(3) by auto
  then show ?thesis
    using log sset_demo_name by (simp add: answer_write senv_demo_def)
qed

theorem session_log_witness:
  "\<exists>s'. serve (\<lambda>_. senv_demo) 5 0 [sset_demo] [] server_wal = Some ([Some (rep KVS_RESP_OK)], s') \<and>
     aof_log (g_aof s') = resp_encode sset_demo"
proof -
  obtain s' where s': "serve (\<lambda>_. senv_demo) 5 0 [sset_demo] [] server_wal = Some ([Some (rep KVS_RESP_OK)], s')"
    using sset_demo_session by blast
  have "session_io (\<lambda>_. senv_demo) 5 0 [sset_demo] [] server_wal"
    by (simp add: senv_demo_def split: option.split)
  then have "aof_log (g_aof s') = resp_encode sset_demo"
    using session_log [OF s' _ server_wal_ok(4,5,6)] sset_demo_length(1) sset_demo_name server_wal_ok(7)
    by (simp add: AOF_BUF_SIZE_def request_writes_parsed)
  with s' show ?thesis by blast
qed

end
