(* ===== verification/Resp_Recover.thy ===== *)
theory Resp_Recover
  imports Resp_Wal
begin

text \<open>
  Recovery: replaying the log of a session into an empty server gives back the data of the
  session. The values are compared; a relative expiry time is relative to the time of the
  replay.
\<close>

section \<open>Values\<close>

definition values_of :: "store_map \<Rightarrow> bytes \<Rightarrow> bytes option" where
  "values_of m k = map_option fst (m k)"

definition vals :: "store_view \<Rightarrow> (bytes \<Rightarrow> bytes option) list" where
  "vals v = map values_of [v_array v, v_rbtree v, v_hash v, v_hash1 v, v_hash2 v, v_hash3 v, v_hash4 v, v_skip v]"

lemma values_of_upd [simp]:
  "values_of (m(k \<mapsto> e)) = (values_of m)(k \<mapsto> fst e)" "values_of (m(k := None)) = (values_of m)(k := None)"
  by (auto simp: values_of_def)

lemma values_of_append:
  assumes "values_of m = values_of m'"
  shows "values_of (spec_append m k x) = values_of (spec_append m' k x)"
proof -
  have "map_option fst (m k) = map_option fst (m' k)"
    using assms by (metis values_of_def)
  then show ?thesis
    using assms by (auto simp: spec_append_def split: option.split)
qed

lemma spec_get_no_ttl: "spec_op m (OpGet False now k) = m"
  by (auto simp: expired_def split: option.split)

definition same_args :: "proc \<Rightarrow> resp_request \<Rightarrow> resp_request \<Rightarrow> bool" where
  "same_args p r r' \<longleftrightarrow> arg r 1 = arg r' 1 \<and> (\<not> is_del_proc p \<longrightarrow> arg r 2 = arg r' 2) \<and>
     (p = P_zadd \<longrightarrow> atoll (argp r 1) = atoll (argp r' 1))"

lemma spec_write_vals:
  assumes "is_write_proc p" and "vals v = vals v'" and "same_args p r r'"
  shows "vals (spec_write p False env r v) = vals (spec_write p False env' r' v')"
proof -
  have e: "values_of (v_array v) = values_of (v_array v')" "values_of (v_rbtree v) = values_of (v_rbtree v')"
    "values_of (v_hash v) = values_of (v_hash v')" "values_of (v_hash1 v) = values_of (v_hash1 v')"
    "values_of (v_hash2 v) = values_of (v_hash2 v')" "values_of (v_hash3 v) = values_of (v_hash3 v')"
    "values_of (v_hash4 v) = values_of (v_hash4 v')" "values_of (v_skip v) = values_of (v_skip v')"
    using assms(2) by (simp_all add: vals_def)
  have a: "arg r 1 = arg r' 1" "\<not> is_del_proc p \<Longrightarrow> arg r 2 = arg r' 2"
    "p = P_zadd \<Longrightarrow> atoll (argp r 1) = atoll (argp r' 1)"
    using assms(3) by (simp_all add: same_args_def)
  show ?thesis
    using assms(1) a(2,3)
    by (cases p) (simp_all add: vals_def e a(1) values_of_append [OF e(7)] spec_get_no_ttl
        del: spec_op.simps One_nat_def split: option.split)
qed

section \<open>Arguments of a successful write\<close>

lemma write_argc:
  assumes "run_proc p env r s = Some (x, s')" and "is_write_proc p" and "succeeded p x"
  shows "2 \<le> argc r \<and> (\<not> is_del_proc p \<longrightarrow> 3 \<le> argc r) \<and> (p = P_zadd \<longrightarrow> argc r = 3)"
  using assms
  by (cases p)
    (auto simp: array_defs rbtree_defs hash_defs skip_defs context_defs index_defs succeeded_def rep_def split: if_splits)

lemma arg_parsed [simp]: "i < length a \<Longrightarrow> arg (parsed_request a rest) i = a ! i"
proof -
  have "take (length (a ! i)) (arg_ptrs a rest ! i) = a ! i" if "i < length a"
    using that
  proof (induction a rest arbitrary: i rule: arg_ptrs.induct)
    case (2 b as rest)
    then show ?case by (cases i) simp_all
  qed simp
  then show "i < length a \<Longrightarrow> arg (parsed_request a rest) i = a ! i"
    by (simp add: arg_def)
qed

lemma strtoll_stops:
  assumes "\<not> is_digit c" and "\<not> is_space c" and "c \<noteq> CHR ''-''" and "c \<noteq> CHR ''+''"
  shows "strtoll (x @ c # y) = strtoll (x @ c # y')"
proof -
  have digits: "digits_value n (x @ c # y) = digits_value n (x @ c # y')" for n x
    using assms(1) by (induction x arbitrary: n) simp_all
  have "dropWhile is_space (x @ c # y) = dropWhile is_space x @ c # y \<and>
      dropWhile is_space (x @ c # y') = dropWhile is_space x @ c # y'"
    using assms(2) by (induction x) simp_all
  then show ?thesis
    using assms(1,3,4) digits [of 0 "[]"] digits [of 0 "dropWhile is_space x"] digits [of 0 "tl (dropWhile is_space x)"]
    by (cases "dropWhile is_space x") (simp_all add: strtoll_def)
qed

lemma same_args_parsed:
  assumes "run_proc p env (parsed_request a rest) s = Some (x, s')" and "is_write_proc p" and "succeeded p x"
  shows "same_args p (parsed_request a rest) (parsed_request a rest')"
proof -
  note n = write_argc [OF assms]
  have "atoll (argp (parsed_request a rest) 1) = atoll (argp (parsed_request a rest') 1)" if "p = P_zadd"
  proof -
    have "length a = 3"
      using n that by simp
    then obtain u t d where a: "a = [u, t, d]"
      by (auto simp: length_Suc_conv numeral_3_eq_3)
    have "\<not> is_digit (CHR ''$'')" "\<not> is_space (CHR ''$'')"
      by (simp_all add: is_digit_def is_space_def)
    then show ?thesis
      using strtoll_stops [of "CHR ''$''" "t @ crlf"] by (simp add: a argp_def atoll_def resp_arg_def)
  qed
  then show ?thesis
    using n by (auto simp: same_args_def)
qed

section \<open>Execution of a request\<close>

definition proc_of :: "bytes list \<Rightarrow> proc" where
  "proc_of a = cproc (the (find (\<lambda>c. cname c = cmd_name a) g_cmd_table))"

text \<open>A writing command reported success.\<close>

definition write_done :: "bytes list \<Rightarrow> resp_reply option \<Rightarrow> bool" where
  "write_done a r \<longleftrightarrow> (cmd_name a \<in> set write_names \<longrightarrow> (\<exists>x. r = Some x \<and> succeeded (proc_of a) x))"

lemma write_done_Some [simp]:
  "cmd_name a \<in> set write_names \<Longrightarrow> write_done a (Some x) \<longleftrightarrow> succeeded (proc_of a) x"
  by (simp add: write_done_def)

definition keyed :: "bytes list \<Rightarrow> bool" where
  "keyed a \<longleftrightarrow> (2 \<le> length a \<longrightarrow> a ! 1 \<noteq> [])"

lemma write_command:
  assumes "cmd_name a \<in> set write_names"
  shows "is_write_proc (proc_of a)"
    and "kvs_execute_batch env (request_command (parsed_request a rest)) (parsed_request a rest) s =
      run_proc (proc_of a) env (parsed_request a rest) s"
proof -
  obtain c where c: "request_command (parsed_request a rest) = Some c" "is_write_proc (cproc c)"
    using assms writes_iff [of a rest] request_writes_parsed by blast
  then have "proc_of a = cproc c"
    by (simp add: proc_of_def request_command_parsed)
  with c show "is_write_proc (proc_of a)"
    and "kvs_execute_batch env (request_command (parsed_request a rest)) (parsed_request a rest) s =
      run_proc (proc_of a) env (parsed_request a rest) s"
    by (simp_all add: kvs_execute_batch_def)
qed

lemma execute_write:
  assumes "kvs_execute_batch env (request_command (parsed_request a rest)) (parsed_request a rest) s = Some (x, s')"
    and "cmd_name a \<in> set write_names" and "server_inv s" and "\<not> g_enable_ttl s" and "keyed a"
    and "succeeded (proc_of a) x"
  shows "server_inv s' \<and> \<not> g_enable_ttl s' \<and>
    view s' = spec_write (proc_of a) False env (parsed_request a rest) (view s) \<and>
    same_args (proc_of a) (parsed_request a rest) (parsed_request a rest')"
proof -
  note run = assms(1) [unfolded write_command(2) [OF assms(2)]]
  note w = write_command(1) [OF assms(2)]
  have "handler_ok (proc_of a) env (parsed_request a rest) s x s'"
    using assms(5) by (intro proc_effect [OF assms(3) run]) (auto simp: keyed_def)
  then show ?thesis
    using same_args_parsed [OF run w assms(6)] w assms(4,6) by (simp add: handler_ok_def)
qed

lemma execute_read:
  assumes "kvs_execute_batch env (request_command (parsed_request a rest)) (parsed_request a rest) s = Some (x, s')"
    and "cmd_name a \<notin> set write_names" and "server_inv s" and "keyed a"
  shows "server_inv s' \<and> g_enable_ttl s' = g_enable_ttl s \<and> view_le (view s') (view s) \<and>
    (\<not> g_enable_ttl s \<longrightarrow> view s' = view s)"
proof (cases "request_command (parsed_request a rest)")
  case None
  then show ?thesis
    using assms(1,3) by (simp add: kvs_execute_batch_def view_le_def)
next
  case (Some c)
  then have run: "run_proc (cproc c) env (parsed_request a rest) s = Some (x, s')"
    and r: "\<not> is_write_proc (cproc c)"
    using assms(1,2) writes_iff [of a rest] request_writes_parsed by (auto simp: kvs_execute_batch_def)
  have "handler_ok (cproc c) env (parsed_request a rest) s x s'"
    using assms(4) by (intro proc_effect [OF assms(3) run]) (auto simp: keyed_def)
  then show ?thesis
    using r by (simp add: handler_ok_def)
qed

lemma answer_read:
  assumes "answer_request env fd (parsed_request a rest) raw s = Some (r, s')"
    and "cmd_name a \<notin> set write_names" and "server_inv s" and "keyed a"
  shows "server_inv s' \<and> g_enable_ttl s' = g_enable_ttl s \<and> view_le (view s') (view s) \<and>
    (\<not> g_enable_ttl s \<longrightarrow> view s' = view s)"
proof -
  obtain b s1 where s1: "network_command fd (parsed_request a rest) s = Some (b, s1)"
    using assms(1) by (cases "network_command fd (parsed_request a rest) s") (auto simp: answer_request_def)
  note frame = network_command_frame [OF s1]
  show ?thesis
  proof (cases "s' = s1")
    case True
    with frame assms(3) show ?thesis by (simp add: settings_def modes_def view_le_def)
  next
    case False
    then obtain x where "kvs_execute_batch (se_cmd env) (request_command (parsed_request a rest)) (parsed_request a rest) s1 = Some (x, s')"
      using assms(1,2) s1 by (auto simp: answer_request_def request_writes_parsed split: if_splits)
    from execute_read [OF this assms(2) _ assms(4)] frame assms(3) show ?thesis
      by (simp add: settings_def modes_def)
  qed
qed

section \<open>Replay\<close>

text \<open>The replay of a list of requests.\<close>

fun replay ::
  "(nat \<Rightarrow> cmd_env \<times> alloc_env) \<Rightarrow> nat \<Rightarrow> bytes list list \<Rightarrow> kvs_server \<Rightarrow> (resp_reply list \<times> kvs_server) option" where
  "replay envs i [] s = Some ([], s)"
| "replay envs i (a # as) s =
     (let req = parsed_request a (requests as) in
      case kvs_execute_batch (fst (envs i)) (request_command req) req s of
        None \<Rightarrow> None
      | Some (r, s') \<Rightarrow> map_option (\<lambda>(rs, s''). (r # rs, s'')) (replay envs (Suc i) as s'))"

lemma recover_loop_requests:
  assumes "\<forall>a\<in>set as. sized a" and "\<And>i j. snd (envs i) j"
    and "drop p buf = requests as" and "n = p + length (requests as)" and "p \<le> length buf"
  shows "recover_loop envs buf n i p s = map_option (\<lambda>(rs, s'). (n, s')) (replay envs i as s)"
  using assms(1,3-)
proof (induction as arbitrary: i p s)
  case Nil
  then show ?case
    by (subst recover_loop.simps) simp
next
  case (Cons a as)
  let ?n = "length (resp_encode a)"
  have a: "sized a" and "0 < ?n"
    using Cons.prems(1) by (simp_all add: resp_encode_def)
  have at: "drop p buf = resp_encode a @ requests as"
    using Cons.prems(2) by simp
  have probe: "has_complete_resp_command (drop p buf) (n - p) = P_complete ?n"
    unfolding at using a Cons.prems(3) by (intro has_complete_encoded) (simp_all add: sized_def)
  have unpack: "resp_unpack_no_modify (snd (envs i)) (drop p buf) ?n = Some (parsed_request a (requests as))"
    unfolding at using a assms(2) by (intro resp_unpack_encoded) (simp_all add: sized_def)
  have rest: "drop (p + ?n) buf = requests as" and len: "p + ?n \<le> length buf"
    using arg_cong [OF at, of "drop ?n"] arg_cong [OF at, of length] Cons.prems(4) by (simp_all add: add.commute)
  have IH: "recover_loop envs buf n (Suc i) (p + ?n) s' = map_option (\<lambda>(rs, s''). (n, s'')) (replay envs (Suc i) as s')" for s'
    using Cons.prems(1,3) rest len by (intro Cons.IH) simp_all
  have "p < n"
    using Cons.prems(3) \<open>0 < ?n\<close> by simp
  then show ?case
    using probe unpack assms(2) IH
    by (subst recover_loop.simps)
      (simp add: recover_command_def Let_def option.map_comp comp_def case_prod_unfold split: option.split)
qed

section \<open>A session and its replay\<close>

lemma answer_write_effect:
  assumes "answer_request env fd (parsed_request a rest) raw s = Some (r, s')"
    and "cmd_name a \<in> set write_names" and "server_inv s" and "\<not> g_enable_ttl s" and "keyed a" and "write_done a r"
  shows "server_inv s' \<and> \<not> g_enable_ttl s' \<and>
    view s' = spec_write (proc_of a) False (se_cmd env) (parsed_request a rest) (view s) \<and>
    same_args (proc_of a) (parsed_request a rest) (parsed_request a rest')"
proof -
  obtain s2 x where s2: "log_and_replicate (se_aof env) (se_backlog env) raw s = Some s2"
    and ex: "kvs_execute_batch (se_cmd env) (request_command (parsed_request a rest)) (parsed_request a rest) s2 = Some (x, s')"
    and r: "r = Some x"
    using assms(1) by (auto simp: answer_write [OF assms(2)] split: option.splits)
  note frame = log_and_replicate_frame [OF s2]
  have "succeeded (proc_of a) x"
    using assms(2,6) r by (simp add: write_done_def)
  from execute_write [OF ex assms(2) _ _ assms(5) this, of rest'] frame assms(3,4) show ?thesis
    by (simp add: modes_def)
qed

lemma serve_replay:
  assumes "serve envs fd i as tail s = Some (rs, s')" and "list_all2 write_done as rs"
    and "replay envs' j (logged as) t = Some (rs', t')" and "list_all2 write_done (logged as) (map Some rs')"
    and "server_inv s" and "server_inv t" and "\<not> g_enable_ttl s" and "\<not> g_enable_ttl t"
    and "vals (view s) = vals (view t)" and "\<forall>a\<in>set as. keyed a"
  shows "server_inv s' \<and> server_inv t' \<and> vals (view s') = vals (view t')"
  using assms
proof (induction as arbitrary: i j s t rs rs')
  case (Cons a as)
  then obtain r s1 rs1 where s1: "answer_request (envs i) fd (parsed_request a (requests as @ tail)) (resp_encode a) s = Some (r, s1)"
    and rest: "serve envs fd (Suc i) as tail s1 = Some (rs1, s')" and rs: "rs = r # rs1"
    by (auto split: option.splits)
  have a: "keyed a" "write_done a r" "list_all2 write_done as rs1" "\<forall>a\<in>set as. keyed a"
    using Cons.prems(2,10) rs by simp_all
  show ?case
  proof (cases "cmd_name a \<in> set write_names")
    case True
    let ?req = "parsed_request a (requests (logged as))"
    obtain x t1 rs2 where t1: "kvs_execute_batch (fst (envs' j)) (request_command ?req) ?req t = Some (x, t1)"
      and replay: "replay envs' (Suc j) (logged as) t1 = Some (rs2, t')" and rs': "rs' = x # rs2"
      using Cons.prems(3) True by (auto simp: Let_def split: option.splits)
    have x: "succeeded (proc_of a) x" "list_all2 write_done (logged as) (map Some rs2)"
      using Cons.prems(4) rs' True by simp_all
    note S = answer_write_effect [OF s1 True Cons.prems(5,7) a(1,2), of "requests (logged as)"]
    note T = execute_write [OF t1 True Cons.prems(6,8) a(1) x(1)]
    have "vals (view s1) = vals (view t1)"
      using S T spec_write_vals [OF write_command(1) [OF True] Cons.prems(9)] by metis
    then show ?thesis
      using S T by (intro Cons.IH [OF rest a(3) replay x(2)]) (use a(4) in simp_all)
  next
    case False
    note S = answer_read [OF s1 False Cons.prems(5) a(1)]
    show ?thesis
      using S Cons.prems(3,4,6-9) False a(4) by (intro Cons.IH [OF rest a(3)]) simp_all
  qed
qed simp

lemma recover_replays:
  assumes "aof_file (g_aof t) = requests as" and "length (requests as) < 2 ^ 31"
    and "\<forall>a\<in>set as. sized a" and "\<And>i j. snd (envs i) j"
    and "replay envs 0 as (t\<lparr>g_aof := (g_aof t)\<lparr>aof_open := True\<rparr>\<rparr>) = Some (rs, t1)"
  shows "\<exists>t'. kvs_persistence_recover (\<lambda>_. True) envs t = Some t' \<and> view t' = view t1 \<and> server_inv t' = server_inv t1"
proof (cases "requests as = []")
  case True
  then have "as = []"
    by (cases as) (simp_all add: resp_encode_def)
  with assms show ?thesis
    by (auto simp: kvs_persistence_recover_def Let_def)
next
  case False
  let ?t = "t\<lparr>g_aof := (g_aof t)\<lparr>aof_open := True\<rparr>\<rparr>"
  have "i32 (int (length (requests as))) = int (length (requests as))"
    using assms(2) by (intro i32_id) simp_all
  moreover have "recover_loop envs (requests as) (length (requests as)) 0 0 ?t = Some (length (requests as), t1)"
    using recover_loop_requests [of as envs 0 "requests as" "length (requests as)" 0 ?t] assms(3-5) by simp
  ultimately show ?thesis
    using False assms(1) by (simp add: kvs_persistence_recover_def protocol_process_recover_def Let_def)
qed

section \<open>Properties\<close>

text \<open>
  Nothing escapes the log: a request is logged exactly if its command is one of those that
  change data, and a request that is not logged leaves the log as it was and changes no data; with
  TTL on it can only drop expired entries.
\<close>

theorem unlogged_keeps_data:
  assumes "answer_request env fd (parsed_request a rest) raw s = Some (r, s')" and "server_inv s" and "keyed a"
    and "\<not> (\<exists>c. request_command (parsed_request a rest) = Some c \<and> is_write_proc (cproc c))"
  shows "\<not> request_writes (parsed_request a rest) \<and> g_aof s' = g_aof s \<and> server_inv s' \<and>
    view_le (view s') (view s) \<and> (\<not> g_enable_ttl s \<longrightarrow> view s' = view s)"
proof -
  have "cmd_name a \<notin> set write_names"
    using assms(4) writes_iff request_writes_parsed by blast
  then show ?thesis
    using answer_read [OF assms(1) _ assms(2,3)] answer_read_settings [OF assms(1)] request_writes_parsed
    by (simp add: settings_def)
qed

theorem unlogged_keeps_data_witness:
  "\<exists>r s'. answer_request senv_demo 5 (parsed_request [''NOPE''] []) [] server_wal = Some (r, s') \<and> view s' = empty_view"
proof -
  have names: "cmd_name [''NOPE''] = ''NOPE''" "''NOPE'' \<notin> set write_names" "''NOPE'' \<noteq> ''PING''"
    "find (\<lambda>c. cname c = ''NOPE'') g_cmd_table = None" "NUL \<notin> set ''PING''" "map toupper ''PING'' = ''PING''"
    by code_simp+
  have "\<not> named (parsed_request [''NOPE''] []) ''PING''"
    using names named_parsed [of "''PING''" "[''NOPE'']" "[]"] by simp
  moreover have "\<not> g_enable_repl_master server_wal"
    by (simp add: server_wal_def server_demo_def create_engines_def server_static_def)
  ultimately have ex: "\<exists>r s'. answer_request senv_demo 5 (parsed_request [''NOPE''] []) [] server_wal = Some (r, s')"
    using names by (simp add: answer_request_def network_command_def request_writes_parsed request_command_parsed
        kvs_execute_batch_def)
  then obtain r s' where s': "answer_request senv_demo 5 (parsed_request [''NOPE''] []) [] server_wal = Some (r, s')"
    by blast
  have "view s' = empty_view"
    using unlogged_keeps_data [OF s' server_wal_ok(1)] names server_wal_ok(2,3)
    by (simp add: keyed_def request_command_parsed)
  with s' show ?thesis by blast
qed

text \<open>
  C25. Recovery restores the data: a server with TTL off serves any requests, with their
  replies reporting success for the writing commands, and its log reaches the disk; then a server
  that starts empty on that log file, and whose replayed commands succeed, ends with exactly the
  same values under exactly the same keys in all eight stores.
\<close>

theorem recovery_restores:
  assumes "server_inv s" and "view s = empty_view" and "\<not> g_enable_ttl s" and "logging_on s"
    and "aof_ok (g_aof s)" and "aof_open (g_aof s)" and "aof_log (g_aof s) = []"
    and "\<forall>a\<in>set as. sized a \<and> keyed a \<and> length (resp_encode a) \<le> AOF_BUF_SIZE"
    and "serve envs fd 0 as tail s = Some (rs, s')" and "session_io envs fd 0 as tail s"
    and "list_all2 write_done as rs"
    and "aof_file (g_aof t) = aof_log (g_aof s')" and "length (aof_file (g_aof t)) < 2 ^ 31"
    and "server_inv t" and "view t = empty_view" and "\<not> g_enable_ttl t" and "\<And>i j. snd (envs' i) j"
    and "replay envs' 0 (logged as) (t\<lparr>g_aof := (g_aof t)\<lparr>aof_open := True\<rparr>\<rparr>) = Some (rs', t1)"
    and "list_all2 write_done (logged as) (map Some rs')"
  shows "\<exists>t'. kvs_persistence_recover (\<lambda>_. True) envs' t = Some t' \<and> server_inv t' \<and> vals (view t') = vals (view s')"
proof -
  have "aof_log (g_aof s') = requests (logged as)"
    using serve_log [OF assms(9,10,4-6)] assms(7,8) by simp
  then obtain t' where t': "kvs_persistence_recover (\<lambda>_. True) envs' t = Some t'" "view t' = view t1"
    "server_inv t' = server_inv t1"
    using recover_replays [OF _ _ _ assms(17,18)] assms(8,12,13) by (auto simp: logged_def)
  have "server_inv s' \<and> server_inv t1 \<and> vals (view s') = vals (view t1)"
    using assms(1-3,8,14-16) by (intro serve_replay [OF assms(9,11,18,19)]) simp_all
  with t' show ?thesis by auto
qed

theorem recovery_restores_witness:
  "\<exists>s' t t'. serve (\<lambda>_. senv_demo) 5 0 [sset_demo] [] server_wal = Some ([Some (rep KVS_RESP_OK)], s') \<and>
     view t = empty_view \<and> kvs_persistence_recover (\<lambda>_. True) (\<lambda>_. (env_demo, always_ok)) t = Some t' \<and>
     vals (view t') = vals (view s')"
proof -
  obtain s' where s': "serve (\<lambda>_. senv_demo) 5 0 [sset_demo] [] server_wal = Some ([Some (rep KVS_RESP_OK)], s')"
    using sset_demo_session by blast
  have io: "session_io (\<lambda>_. senv_demo) 5 0 [sset_demo] [] server_wal"
    by (simp add: senv_demo_def split: option.split)
  have small: "length (resp_encode sset_demo) \<le> AOF_BUF_SIZE" "length (resp_encode sset_demo) < 2 ^ 31"
    using sset_demo_length(1) by (simp_all add: AOF_BUF_SIZE_def)
  define t where "t = server_wal\<lparr>g_aof := (g_aof server_wal)\<lparr>aof_file := aof_log (g_aof s')\<rparr>\<rparr>"
  have t: "server_inv t" "view t = empty_view" "\<not> g_enable_ttl t" "aof_file (g_aof t) = aof_log (g_aof s')"
    using server_wal_ok by (simp_all add: t_def)
  have log: "aof_log (g_aof s') = resp_encode sset_demo"
    using serve_log [OF s' io server_wal_ok(4-6)] small server_wal_ok(7) sset_demo_name by simp
  have w: "write_done sset_demo (Some (rep KVS_RESP_OK))" "keyed sset_demo"
    by (simp_all add: write_done_def succeeded_def rep_def keyed_def sset_demo_def)
  let ?t = "t\<lparr>g_aof := (g_aof t)\<lparr>aof_open := True\<rparr>\<rparr>"
  have "skip_inv (global_skip ?t)" "\<not> g_enable_ttl ?t"
    using t by simp_all
  then obtain t1 where rp: "replay (\<lambda>_. (env_demo, always_ok)) 0 (logged [sset_demo]) ?t = Some ([rep KVS_RESP_OK], t1)"
    using sset_demo_executes [of ?t "[]"] sset_demo_name by auto
  have "\<exists>t'. kvs_persistence_recover (\<lambda>_. True) (\<lambda>_. (env_demo, always_ok)) t = Some t' \<and> server_inv t' \<and>
      vals (view t') = vals (view s')"
    using small log t w sset_demo_length(2) sset_demo_name
    by (intro recovery_restores [OF server_wal_ok(1-7) _ s' io _ _ _ _ _ _ _ rp]) simp_all
  with s' t show ?thesis by blast
qed

end
