(* ===== verification/Expire_System.thy ===== *)
theory Expire_System
  imports Resp_Recover
begin

text \<open>
  The expiry system of \<^verbatim>\<open>expire.c\<close> as a whole: \<open>expire_thread_routine\<close>, which moves registered
  timers through its heap into the delete queue when they are due, and \<open>expire_process_deletes\<close>,
  by which the network thread carries out and logs the deletions. The thread is a state machine
  with one step per queue or heap operation; the steps of the other thread interleave with it.
\<close>

section \<open>The expire thread\<close>

text \<open>
  Where the thread is: moving registered timers to the heap, comparing the root of the heap with
  the time \<open>now\<close> it read, or handing an item to the delete queue (again and again while that is
  full).
\<close>

datatype expire_pc = X_drain | X_due int | X_hand int expire_item

record expire_thread =
  x_heap :: min_heap
  x_pc :: expire_pc

definition expire_thread_start :: expire_thread where
  "expire_thread_start = \<lparr>x_heap = heap_init 4096, x_pc = X_drain\<rparr>"

text \<open>One step, with the value of the clock; the queues are those of the server.\<close>

definition expire_thread_step ::
  "int \<Rightarrow> expire_thread \<times> expire_item expire_queue \<times> expire_item expire_queue \<Rightarrow>
   expire_thread \<times> expire_item expire_queue \<times> expire_item expire_queue" where
  "expire_thread_step now st =
     (case st of (t, cmdq, delq) \<Rightarrow>
      (case x_pc t of
         X_drain \<Rightarrow>
           (case queue_pop cmdq of
              (Some item, q) \<Rightarrow> (t\<lparr>x_heap := heap_push (x_heap t) item\<rparr>, q, delq)
            | (None, q) \<Rightarrow> (t\<lparr>x_pc := X_due now\<rparr>, q, delq))
       | X_due n \<Rightarrow>
           if hdata (x_heap t) \<noteq> [] \<and> iexpire (hdata (x_heap t) ! 0) \<le> n then
             (case heap_pop (x_heap t) of
                (Some item, h) \<Rightarrow> (\<lparr>x_heap = h, x_pc = X_hand n item\<rparr>, cmdq, delq)
              | (None, h) \<Rightarrow> (t, cmdq, delq))
           else (t\<lparr>x_pc := X_drain\<rparr>, cmdq, delq)
       | X_hand n item \<Rightarrow>
           (case queue_push delq item of
              (r, q) \<Rightarrow> if r \<noteq> 0 then (t, cmdq, q) else (t\<lparr>x_pc := X_due n\<rparr>, cmdq, q))))"

section \<open>Deletions\<close>

definition engine_del_if_expired :: "bool \<Rightarrow> int \<Rightarrow> kv_data \<Rightarrow> int \<Rightarrow> kvs_server \<Rightarrow> int \<times> kvs_server" where
  "engine_del_if_expired m typ key expected s =
     (if typ = EXPIRE_TYPE_ARRAY then
        (case kvs_array_del_if_expired (global_array s) key expected of (r, x) \<Rightarrow> (r, s\<lparr>global_array := x\<rparr>))
      else if typ = EXPIRE_TYPE_HASH then
        (case kvs_hash_del_if_expired m (global_hash s) key expected of (r, x) \<Rightarrow> (r, s\<lparr>global_hash := x\<rparr>))
      else if typ = EXPIRE_TYPE_HASH2 then
        (case kvs_hash_del_if_expired m (global_hash2 s) key expected of (r, x) \<Rightarrow> (r, s\<lparr>global_hash2 := x\<rparr>))
      else if typ = EXPIRE_TYPE_RBTREE then
        (case kvs_rbtree_del_if_expired (global_rbtree s) key expected of (r, x) \<Rightarrow> (r, s\<lparr>global_rbtree := x\<rparr>))
      else if typ = EXPIRE_TYPE_SKIPLIST then
        (case kvs_skip_del_if_expired (global_skip s) key expected of (r, x) \<Rightarrow> (r, s\<lparr>global_skip := x\<rparr>))
      else (0, s))"

definition expire_del_command :: "int \<Rightarrow> bytes" where
  "expire_del_command typ =
     (if typ = EXPIRE_TYPE_ARRAY then ''DEL''
      else if typ = EXPIRE_TYPE_HASH then ''HDEL''
      else if typ = EXPIRE_TYPE_HASH2 then ''DELCTX''
      else if typ = EXPIRE_TYPE_RBTREE then ''RDEL''
      else if typ = EXPIRE_TYPE_SKIPLIST then ''SDEL''
      else ''DEL'')"

text \<open>What one deletion takes from outside: the shrinking resize, the message buffers, the log.\<close>

record delete_env =
  d_shrink :: bool
  d_ok :: alloc_env
  d_aof :: "aof_round list"

definition expire_delete_one :: "delete_env \<Rightarrow> expire_item \<Rightarrow> kvs_server \<Rightarrow> kvs_server option" where
  "expire_delete_one env item s =
     (case engine_del_if_expired (d_shrink env) (itype item) (ikey item) (iexpire item) s of
        (deleted, s1) \<Rightarrow>
          if deleted \<noteq> 0
          then protocol_handle_internal_del (d_ok env) (d_aof env) (expire_del_command (itype item)) (kbytes (ikey item)) s1
          else Some s1)"

text \<open>The loop: \<open>n\<close> deletions are still allowed, \<open>cnt\<close> are done.\<close>

fun delete_loop :: "(nat \<Rightarrow> delete_env) \<Rightarrow> nat \<Rightarrow> nat \<Rightarrow> kvs_server \<Rightarrow> kvs_server option" where
  "delete_loop envs 0 cnt s = Some s"
| "delete_loop envs (Suc n) cnt s =
     (case queue_pop (g_delete_queue s) of
        (None, q) \<Rightarrow> Some (s\<lparr>g_delete_queue := q\<rparr>)
      | (Some item, q) \<Rightarrow>
          (case expire_delete_one (envs cnt) item (s\<lparr>g_delete_queue := q\<rparr>) of
             None \<Rightarrow> None
           | Some s' \<Rightarrow> delete_loop envs n (Suc cnt) s'))"

definition expire_process_deletes :: "(nat \<Rightarrow> delete_env) \<Rightarrow> kvs_server \<Rightarrow> kvs_server option" where
  "expire_process_deletes envs s = delete_loop envs 500 0 s"

section \<open>Both threads\<close>

text \<open>
  The network thread registers timers (\<open>expire_push_cmd\<close>) and takes due ones; \<open>xs_registered\<close>
  and \<open>xs_taken\<close> record them. The clock never runs backwards.
\<close>

record expire_sys =
  xs_thread :: expire_thread
  xs_cmdq :: "expire_item expire_queue"
  xs_delq :: "expire_item expire_queue"
  xs_now :: int
  xs_registered :: "expire_item list"
  xs_taken :: "expire_item list"

inductive expire_step :: "expire_sys \<Rightarrow> expire_sys \<Rightarrow> bool" where
  tick: "xs_now s \<le> t \<Longrightarrow> expire_step s (s\<lparr>xs_now := t\<rparr>)"
| register: "queue_push (xs_cmdq s) item = (0, q) \<Longrightarrow>
    expire_step s (s\<lparr>xs_cmdq := q, xs_registered := xs_registered s @ [item]\<rparr>)"
| thread: "expire_thread_step (xs_now s) (xs_thread s, xs_cmdq s, xs_delq s) = (t, q1, q2) \<Longrightarrow>
    expire_step s (s\<lparr>xs_thread := t, xs_cmdq := q1, xs_delq := q2\<rparr>)"
| take_due: "queue_pop (xs_delq s) = (Some item, q) \<Longrightarrow>
    expire_step s (s\<lparr>xs_delq := q, xs_taken := xs_taken s @ [item]\<rparr>)"

inductive expire_reach :: "expire_sys \<Rightarrow> expire_sys \<Rightarrow> bool" for s0 where
  here: "expire_reach s0 s0"
| further: "expire_reach s0 s \<Longrightarrow> expire_step s s' \<Longrightarrow> expire_reach s0 s'"

inductive_cases expire_stepE: "expire_step s s'"

definition expire_sys_start :: "(nat \<Rightarrow> expire_item) \<Rightarrow> int \<Rightarrow> expire_sys" where
  "expire_sys_start junk now =
     \<lparr>xs_thread = expire_thread_start, xs_cmdq = \<lparr>q_items = junk, q_head = 0, q_tail = 0\<rparr>,
      xs_delq = \<lparr>q_items = junk, q_head = 0, q_tail = 0\<rparr>, xs_now = now, xs_registered = [], xs_taken = []\<rparr>"

section \<open>Invariant\<close>

fun held :: "expire_pc \<Rightarrow> expire_item multiset" where
  "held (X_hand n item) = {#item#}"
| "held _ = {#}"

fun pc_time_ok :: "int \<Rightarrow> expire_pc \<Rightarrow> bool" where
  "pc_time_ok now X_drain = True"
| "pc_time_ok now (X_due n) \<longleftrightarrow> n \<le> now"
| "pc_time_ok now (X_hand n item) \<longleftrightarrow> n \<le> now \<and> iexpire item \<le> n"

text \<open>The timers the thread has, as a multiset.\<close>

definition thread_items :: "expire_thread \<Rightarrow> expire_item multiset" where
  "thread_items t = mset (hdata (x_heap t)) + held (x_pc t)"

definition thread_ok :: "int \<Rightarrow> expire_thread \<times> expire_item expire_queue \<times> expire_item expire_queue \<Rightarrow> bool" where
  "thread_ok now st \<longleftrightarrow> (case st of (t, cmdq, delq) \<Rightarrow>
     queue_inv cmdq \<and> queue_inv delq \<and> heap_ok (hdata (x_heap t)) \<and> pc_time_ok now (x_pc t) \<and>
     (\<forall>item\<in>set (queue_contents delq). iexpire item \<le> now))"

definition thread_total :: "expire_thread \<times> expire_item expire_queue \<times> expire_item expire_queue \<Rightarrow> expire_item multiset" where
  "thread_total st = (case st of (t, cmdq, delq) \<Rightarrow>
     mset (queue_contents cmdq) + thread_items t + mset (queue_contents delq))"

lemma heap_root_pop:
  assumes "heap_pop h = (Some item, h')"
  shows "item = hdata h ! 0"
  using assms by (auto simp: heap_pop_def split: list.splits)

lemma thread_step_ok:
  assumes "thread_ok now st"
  shows "thread_ok now (expire_thread_step now st) \<and> thread_total (expire_thread_step now st) = thread_total st"
proof -
  obtain t cmdq delq where st: "st = (t, cmdq, delq)"
    by (cases st) auto
  have q: "queue_inv cmdq" "queue_inv delq" and heap: "heap_ok (hdata (x_heap t))" and pc: "pc_time_ok now (x_pc t)"
    and due: "\<forall>item\<in>set (queue_contents delq). iexpire item \<le> now"
    using assms by (simp_all add: thread_ok_def st)
  show ?thesis
  proof (cases "x_pc t")
    case X_drain
    obtain r q' where pop: "queue_pop cmdq = (r, q')"
      by fastforce
    note q' = eq.pop_inv [OF q(1) pop] eq.pop_contents [OF q(1) pop]
    show ?thesis
      using eh.push_inv [OF heap] eh.push_items [OF heap] q' q(2) heap due X_drain
      by (cases r) (simp_all add: st expire_thread_step_def pop thread_ok_def thread_total_def thread_items_def)
  next
    case (X_due n)
    show ?thesis
    proof (cases "hdata (x_heap t) \<noteq> [] \<and> iexpire (hdata (x_heap t) ! 0) \<le> n")
      case True
      then obtain item h where pop: "heap_pop (x_heap t) = (Some item, h)" and h: "heap_ok (hdata h)"
        "mset (hdata (x_heap t)) = add_mset item (mset (hdata h))"
        using eh.pop_min [OF heap] by auto
      then show ?thesis
        using True heap_root_pop [OF pop] q due pc X_due
        by (simp add: st expire_thread_step_def thread_ok_def thread_total_def thread_items_def)
    next
      case False
      then show ?thesis
        using q heap due X_due by (auto simp: st expire_thread_step_def thread_ok_def thread_total_def thread_items_def)
    qed
  next
    case (X_hand n item)
    obtain r q' where push: "queue_push delq item = (r, q')"
      by fastforce
    note q' = eq.push_inv [OF q(2) push] eq.push_contents [OF q(2) push]
    show ?thesis
      using q' q(1) heap due pc X_hand
      by (simp add: st expire_thread_step_def push thread_ok_def thread_total_def thread_items_def)
  qed
qed

lemma pc_time_mono: "pc_time_ok now pc \<Longrightarrow> now \<le> now' \<Longrightarrow> pc_time_ok now' pc"
  by (cases pc) auto

definition sys_ok :: "expire_sys \<Rightarrow> bool" where
  "sys_ok s \<longleftrightarrow> thread_ok (xs_now s) (xs_thread s, xs_cmdq s, xs_delq s) \<and>
     mset (xs_registered s) = thread_total (xs_thread s, xs_cmdq s, xs_delq s) + mset (xs_taken s) \<and>
     (\<forall>item\<in>set (xs_taken s). iexpire item \<le> xs_now s)"

lemma expire_step_ok:
  assumes "expire_step s s'" and "sys_ok s"
  shows "sys_ok s'"
  using assms
proof (cases rule: expire_step.cases)
  case (tick t)
  then show ?thesis
    using assms(2) pc_time_mono by (fastforce simp: sys_ok_def thread_ok_def)
next
  case (register item q)
  then show ?thesis
    using assms(2) eq.push_inv [of "xs_cmdq s" item 0 q] eq.push_contents [of "xs_cmdq s" item 0 q]
    by (simp add: sys_ok_def thread_ok_def thread_total_def)
next
  case (thread t q1 q2)
  then show ?thesis
    using assms(2) thread_step_ok [of "xs_now s" "(xs_thread s, xs_cmdq s, xs_delq s)"] by (simp add: sys_ok_def)
next
  case (take_due item q)
  then show ?thesis
    using assms(2) eq.pop_inv [of "xs_delq s" "Some item" q] eq.pop_contents [of "xs_delq s" "Some item" q]
    by (simp add: sys_ok_def thread_ok_def thread_total_def)
qed

lemma expire_sys_start_ok: "sys_ok (expire_sys_start junk now)"
  by (simp add: sys_ok_def expire_sys_start_def thread_ok_def thread_total_def thread_items_def
      expire_thread_start_def heap_init_def heap_ok_def queue_inv_def queue_contents_def queue_len_def ring_def)

lemma expire_reach_ok: "expire_reach s0 s \<Longrightarrow> sys_ok s0 \<Longrightarrow> sys_ok s"
  by (induction rule: expire_reach.induct) (auto intro: expire_step_ok)

section \<open>Progress\<close>

definition thread_steps where
  "thread_steps now st st' \<longleftrightarrow> (\<exists>k. (expire_thread_step now ^^ k) st = st')"

lemma thread_steps_refl: "thread_steps now st st"
  unfolding thread_steps_def by (metis funpow_0)

lemma thread_steps_step: "thread_steps now (expire_thread_step now st) st' \<Longrightarrow> thread_steps now st st'"
  unfolding thread_steps_def by (metis comp_apply funpow_Suc_right)

lemma thread_steps_trans: "thread_steps now a b \<Longrightarrow> thread_steps now b c \<Longrightarrow> thread_steps now a c"
  unfolding thread_steps_def by (metis comp_apply funpow_add)

lemma drain_steps:
  assumes "thread_ok now (t, cmdq, delq)" and "x_pc t = X_drain"
  shows "\<exists>t' q. thread_steps now (t, cmdq, delq) (t', q, delq) \<and> x_pc t' = X_due now \<and> queue_contents q = [] \<and>
    mset (hdata (x_heap t')) = mset (queue_contents cmdq) + mset (hdata (x_heap t))"
  using assms
proof (induction "queue_contents cmdq" arbitrary: t cmdq)
  case Nil
  then have "expire_thread_step now (t, cmdq, delq) = (t\<lparr>x_pc := X_due now\<rparr>, cmdq, delq)"
    using eq.pop_empty [of cmdq] by (simp add: expire_thread_step_def thread_ok_def)
  then have "thread_steps now (t, cmdq, delq) (t\<lparr>x_pc := X_due now\<rparr>, cmdq, delq)"
    using thread_steps_step thread_steps_refl by metis
  with Nil(1) show ?case
    by (intro exI [of _ "t\<lparr>x_pc := X_due now\<rparr>"] exI [of _ cmdq]) simp
next
  case (Cons item items)
  let ?t = "t\<lparr>x_heap := heap_push (x_heap t) item\<rparr>"
  have inv: "queue_inv cmdq" "heap_ok (hdata (x_heap t))"
    using Cons.prems(1) by (simp_all add: thread_ok_def)
  obtain q where q: "queue_pop cmdq = (Some item, q)" "queue_contents q = items"
    using eq.pop_ok [OF inv(1) Cons(2) [symmetric]] by blast
  have st: "expire_thread_step now (t, cmdq, delq) = (?t, q, delq)"
    using Cons.prems(2) q(1) by (simp add: expire_thread_step_def)
  then have "thread_ok now (?t, q, delq)"
    using thread_step_ok [OF Cons.prems(1)] by simp
  then obtain t' q' where "thread_steps now (?t, q, delq) (t', q', delq)" "x_pc t' = X_due now" "queue_contents q' = []"
    "mset (hdata (x_heap t')) = mset items + mset (hdata (x_heap ?t))"
    using Cons.hyps(1) [of q ?t] q(2) Cons.prems(2) by auto
  then show ?case
    using thread_steps_step [of now "(t, cmdq, delq)"] st eh.push_items [OF inv(2), of item] Cons(2) [symmetric]
    by (intro exI [of _ t'] exI [of _ q']) simp
qed

abbreviation due_items :: "int \<Rightarrow> min_heap \<Rightarrow> expire_item multiset" where
  "due_items n h \<equiv> filter_mset (\<lambda>item. iexpire item \<le> n) (mset (hdata h))"

lemma heap_none_due:
  fixes h :: min_heap
  assumes "heap_ok (hdata h)" and "\<not> (hdata h \<noteq> [] \<and> iexpire (hdata h ! 0) \<le> n)"
  shows "\<forall>item\<in>set (hdata h). n < iexpire item"
proof (cases "hdata h = []")
  case False
  then obtain x h' where "heap_pop h = (Some x, h')" and least: "\<forall>y\<in>#mset (hdata h). iexpire x \<le> iexpire y"
    using eh.pop_min [OF assms(1)] by auto
  then show ?thesis
    using False assms(2) heap_root_pop by fastforce
qed simp

lemma due_steps:
  assumes "thread_ok now (t, cmdq, delq)" and "x_pc t = X_due n"
    and "length (queue_contents delq) + size (due_items n (x_heap t)) < EXPIRE_QUEUE_SIZE"
  shows "\<exists>t' q. thread_steps now (t, cmdq, delq) (t', cmdq, q) \<and> x_pc t' = X_drain \<and>
    (\<forall>item\<in>set (hdata (x_heap t')). n < iexpire item) \<and>
    mset (queue_contents q) = mset (queue_contents delq) + due_items n (x_heap t)"
  using assms
proof (induction "length (hdata (x_heap t))" arbitrary: t delq)
  case 0
  then have "expire_thread_step now (t, cmdq, delq) = (t\<lparr>x_pc := X_drain\<rparr>, cmdq, delq)"
    by (simp add: expire_thread_step_def)
  then have "thread_steps now (t, cmdq, delq) (t\<lparr>x_pc := X_drain\<rparr>, cmdq, delq)"
    using thread_steps_step thread_steps_refl by metis
  with 0 show ?case
    by (intro exI [of _ "t\<lparr>x_pc := X_drain\<rparr>"] exI [of _ delq]) simp
next
  case (Suc m)
  have inv: "queue_inv delq" "heap_ok (hdata (x_heap t))"
    using Suc.prems(1) by (simp_all add: thread_ok_def)
  show ?case
  proof (cases "hdata (x_heap t) \<noteq> [] \<and> iexpire (hdata (x_heap t) ! 0) \<le> n")
    case True
    then obtain item h where pop: "heap_pop (x_heap t) = (Some item, h)"
      and h: "mset (hdata (x_heap t)) = add_mset item (mset (hdata h))"
      using eh.pop_min [OF inv(2)] by auto
    have item: "iexpire item \<le> n"
      using True heap_root_pop [OF pop] by simp
    let ?t1 = "\<lparr>x_heap = h, x_pc = X_hand n item\<rparr>" and ?t2 = "\<lparr>x_heap = h, x_pc = X_due n\<rparr>"
    have st1: "expire_thread_step now (t, cmdq, delq) = (?t1, cmdq, delq)"
      using Suc.prems(2) True pop by (simp add: expire_thread_step_def)
    have ok1: "thread_ok now (?t1, cmdq, delq)"
      using thread_step_ok [OF Suc.prems(1)] st1 by simp
    obtain q where push: "queue_push delq item = (0, q)" and q: "queue_contents q = queue_contents delq @ [item]"
      using eq.push_ok [OF inv(1), of item] Suc.prems(3) h item by (auto simp: EXPIRE_QUEUE_SIZE_def)
    have st2: "expire_thread_step now (?t1, cmdq, delq) = (?t2, cmdq, q)"
      using push by (simp add: expire_thread_step_def)
    have ok2: "thread_ok now (?t2, cmdq, q)"
      using thread_step_ok [OF ok1] st2 by simp
    have "m = length (hdata (x_heap ?t2))"
      using Suc.hyps(2) arg_cong [OF h, of size] by simp
    from Suc.hyps(1) [OF this ok2] obtain t' q' where "thread_steps now (?t2, cmdq, q) (t', cmdq, q')" "x_pc t' = X_drain"
      "\<forall>item\<in>set (hdata (x_heap t')). n < iexpire item" "mset (queue_contents q') = mset (queue_contents q) + due_items n h"
      using Suc.prems(3) h item q by auto
    then show ?thesis
      using thread_steps_step [of now "(t, cmdq, delq)"] thread_steps_step [of now "(?t1, cmdq, delq)"] st1 st2 h item q
      by (intro exI [of _ t'] exI [of _ q']) simp
  next
    case False
    then have st: "expire_thread_step now (t, cmdq, delq) = (t\<lparr>x_pc := X_drain\<rparr>, cmdq, delq)"
      using Suc.prems(2) by (auto simp: expire_thread_step_def)
    have later: "\<forall>item\<in>set (hdata (x_heap t)). n < iexpire item"
      using heap_none_due [OF inv(2) False] .
    then have "due_items n (x_heap t) = {#}"
      by (simp add: linorder_not_le)
    moreover have "thread_steps now (t, cmdq, delq) (t\<lparr>x_pc := X_drain\<rparr>, cmdq, delq)"
      using st thread_steps_step thread_steps_refl by metis
    ultimately show ?thesis
      using later by (intro exI [of _ "t\<lparr>x_pc := X_drain\<rparr>"] exI [of _ delq]) simp
  qed
qed

lemma thread_steps_ok: "thread_steps now st st' \<Longrightarrow> thread_ok now st \<Longrightarrow> thread_ok now st'"
proof -
  have "thread_ok now ((expire_thread_step now ^^ k) st)" if "thread_ok now st" for k
    using that by (induction k) (simp_all add: thread_step_ok)
  then show "thread_steps now st st' \<Longrightarrow> thread_ok now st \<Longrightarrow> thread_ok now st'"
    by (auto simp: thread_steps_def)
qed

section \<open>What a deletion does\<close>

text \<open>
  The store a timer is about, and its effect: the entry goes if its expiry time is still the one
  the timer was registered with.
\<close>

fun timer_spec :: "expire_item \<Rightarrow> store_view \<Rightarrow> store_view" where
  "timer_spec item v =
     (let drop = (\<lambda>m. spec_op m (OpDelIfExpired (kbytes (ikey item)) (iexpire item)))
      in if itype item = EXPIRE_TYPE_ARRAY then v\<lparr>v_array := drop (v_array v)\<rparr>
         else if itype item = EXPIRE_TYPE_HASH then v\<lparr>v_hash := drop (v_hash v)\<rparr>
         else if itype item = EXPIRE_TYPE_HASH2 then v\<lparr>v_hash2 := drop (v_hash2 v)\<rparr>
         else if itype item = EXPIRE_TYPE_RBTREE then v\<lparr>v_rbtree := drop (v_rbtree v)\<rparr>
         else if itype item = EXPIRE_TYPE_SKIPLIST then v\<lparr>v_skip := drop (v_skip v)\<rparr>
         else v)"

text \<open>A timer whose key carries no stale hash value.\<close>

definition clean_item :: "expire_item \<Rightarrow> bool" where
  "clean_item item \<longleftrightarrow> ikey item = kd (kbytes (ikey item))"

lemma engine_delete_effect:
  assumes "server_inv s" and "clean_item item"
    and "engine_del_if_expired m (itype item) (ikey item) (iexpire item) s = (r, s')"
  shows "server_inv s' \<and> view s' = timer_spec item (view s) \<and> settings s' = settings s \<and>
    g_delete_queue s' = g_delete_queue s"
proof -
  let ?k = "kbytes (ikey item)"
  have key: "ikey item = kd ?k"
    using assms(2) by (simp add: clean_item_def)
  note effects = arr.del_if_expired_invar arr.del_if_expired_contents hsh.del_if_expired_invar hsh.del_if_expired_contents
    rbe.del_if_expired_invar rbe.del_if_expired_contents ske.del_if_expired_invar ske.del_if_expired_contents
  show ?thesis
    using assms(1,3) unfolding engine_del_if_expired_def
    by (subst (asm) (1 2 3 4 5) key)
      (auto simp: effects Let_def simp del: spec_op.simps split: if_splits prod.splits dest!: arg_cong [of _ _ snd])
qed

lemma view_upd_eq:
  fixes v :: store_view
  shows "v\<lparr>v_array := m\<rparr> = v \<longleftrightarrow> m = v_array v" "v\<lparr>v_hash := m\<rparr> = v \<longleftrightarrow> m = v_hash v"
    "v\<lparr>v_hash2 := m\<rparr> = v \<longleftrightarrow> m = v_hash2 v" "v\<lparr>v_rbtree := m\<rparr> = v \<longleftrightarrow> m = v_rbtree v"
    "v\<lparr>v_skip := m\<rparr> = v \<longleftrightarrow> m = v_skip v"
  by (cases v; auto)+

lemma engine_delete_result:
  assumes "server_inv s" and "clean_item item"
  shows "fst (engine_del_if_expired m (itype item) (ikey item) (iexpire item) s) \<noteq> 0 \<longleftrightarrow>
    timer_spec item (view s) \<noteq> view s"
proof -
  let ?k = "kbytes (ikey item)"
  have key: "ikey item = kd ?k"
    using assms(2) by (simp add: clean_item_def)
  note results = arr.del_if_expired_result hsh.del_if_expired_result rbe.del_if_expired_result ske.del_if_expired_result
  show ?thesis
    unfolding engine_del_if_expired_def
    by (subst (1 2 3 4 5) key)
      (simp add: results assms(1) Let_def view_upd_eq case_prod_unfold del: spec_op.simps)
qed

section \<open>Logging of deletions\<close>

lemma print_int_2: "print_int 2 = ''2''"
proof -
  have "digit 2 = CHR ''2''"
    by code_simp
  then show ?thesis
    by (simp add: print_int_def) (subst dec.simps, simp)
qed

text \<open>The message is the request a client would send.\<close>

lemma internal_del_logs:
  "protocol_handle_internal_del ok evs cmd key s =
     (if ok 0 then log_and_replicate evs (ok 1) (resp_encode [cmd, key]) s else Some s)"
  by (simp add: protocol_handle_internal_del_def resp_encode_def resp_arg_def print_int_2)

lemma log_keeps_queue: "log_and_replicate evs m raw s = Some s' \<Longrightarrow> g_delete_queue s' = g_delete_queue s"
  by (auto simp: log_and_replicate_def Let_def split: if_splits option.splits)

lemma delete_one_effect:
  assumes "expire_delete_one env item s = Some s'" and "server_inv s" and "clean_item item"
  shows "server_inv s' \<and> view s' = timer_spec item (view s) \<and> modes s' = modes s \<and> g_delete_queue s' = g_delete_queue s"
proof -
  obtain r s1 where s1: "engine_del_if_expired (d_shrink env) (itype item) (ikey item) (iexpire item) s = (r, s1)"
    by fastforce
  note e = engine_delete_effect [OF assms(2,3) s1]
  show ?thesis
    using assms(1) e log_and_replicate_frame log_keeps_queue
    by (fastforce simp: expire_delete_one_def s1 internal_del_logs settings_def split: if_splits)
qed

definition timer_message :: "expire_item \<Rightarrow> bytes list" where
  "timer_message item = [expire_del_command (itype item), kbytes (ikey item)]"

lemma delete_one_log:
  assumes "expire_delete_one env item s = Some s'" and "server_inv s" and "clean_item item" and "d_ok env 0"
    and "logging_on s" and "aof_ok (g_aof s)" and "aof_open (g_aof s)" and "rounds_full (d_aof env) (g_aof s)"
    and "length (resp_encode (timer_message item)) \<le> AOF_BUF_SIZE"
  shows "aof_ok (g_aof s') \<and> aof_open (g_aof s') \<and> aof_log (g_aof s') = aof_log (g_aof s) @
    (if timer_spec item (view s) \<noteq> view s then resp_encode (timer_message item) else [])"
proof -
  obtain r s1 where s1: "engine_del_if_expired (d_shrink env) (itype item) (ikey item) (iexpire item) s = (r, s1)"
    by fastforce
  have aof: "g_aof s1 = g_aof s" and "logging_on s1"
    using engine_delete_effect [OF assms(2,3) s1] assms(5) logging_on_modes [of s1 s] by (simp_all add: settings_def)
  have "r \<noteq> 0 \<longleftrightarrow> timer_spec item (view s) \<noteq> view s"
    using engine_delete_result [OF assms(2,3), of "d_shrink env"] s1 by simp
  then show ?thesis
    using assms(1,4,6-9) aof \<open>logging_on s1\<close> log_and_replicate_log [of "d_aof env" "d_ok env 1" _ s1 s']
    by (auto simp: expire_delete_one_def s1 internal_del_logs timer_message_def simp del: timer_spec.simps split: if_splits)
qed

section \<open>The deletion loop\<close>

lemma stores_delete_queue [simp]:
  "view (s\<lparr>g_delete_queue := q\<rparr>) = view s" "server_inv (s\<lparr>g_delete_queue := q\<rparr>) = server_inv s"
  "modes (s\<lparr>g_delete_queue := q\<rparr>) = modes s" "logging_on (s\<lparr>g_delete_queue := q\<rparr>) = logging_on s"
  by (simp_all add: view_def server_inv_def modes_def logging_on_def del: server_inv_stores view_sel)

lemma delete_loop_effect:
  assumes "delete_loop envs n cnt s = Some s'" and "server_inv s" and "queue_inv (g_delete_queue s)"
    and "\<forall>item\<in>set (queue_contents (g_delete_queue s)). clean_item item"
  shows "server_inv s' \<and> view s' = fold timer_spec (take n (queue_contents (g_delete_queue s))) (view s) \<and>
    queue_contents (g_delete_queue s') = drop n (queue_contents (g_delete_queue s))"
  using assms
proof (induction n arbitrary: cnt s)
  case (Suc n)
  obtain r q where pop: "queue_pop (g_delete_queue s) = (r, q)"
    by fastforce
  note q = eq.pop_inv [OF Suc.prems(3) pop] eq.pop_contents [OF Suc.prems(3) pop]
  show ?case
  proof (cases r)
    case None
    then have "queue_contents q = []"
      using pop q eq.pop_None_iff [OF Suc.prems(3)] by simp
    with None show ?thesis
      using Suc.prems(1,2) pop q by (auto simp del: timer_spec.simps)
  next
    case (Some item)
    then obtain s1 where s1: "expire_delete_one (envs cnt) item (s\<lparr>g_delete_queue := q\<rparr>) = Some s1"
      and rest: "delete_loop envs n (Suc cnt) s1 = Some s'"
      using Suc.prems(1) pop by (auto split: option.splits)
    have e: "server_inv s1" "view s1 = timer_spec item (view s)" "g_delete_queue s1 = q"
      using delete_one_effect [OF s1] Suc.prems(2,4) q Some by (simp_all del: timer_spec.simps)
    have "server_inv s' \<and> view s' = fold timer_spec (take n (queue_contents q)) (view s1) \<and>
        queue_contents (g_delete_queue s') = drop n (queue_contents q)"
      using Suc.IH [OF rest e(1)] e(3) q Suc.prems(4) Some by (simp del: timer_spec.simps)
    then show ?thesis
      using e q Some by (simp del: timer_spec.simps)
  qed
qed simp

text \<open>The requests a sequence of timers puts into the log.\<close>

fun timer_log :: "expire_item list \<Rightarrow> store_view \<Rightarrow> bytes list list" where
  "timer_log [] v = []"
| "timer_log (item # items) v =
     (if timer_spec item v \<noteq> v then [timer_message item] else []) @ timer_log items (timer_spec item v)"

fun delete_io :: "(nat \<Rightarrow> delete_env) \<Rightarrow> nat \<Rightarrow> nat \<Rightarrow> kvs_server \<Rightarrow> bool" where
  "delete_io envs 0 cnt s = True"
| "delete_io envs (Suc n) cnt s \<longleftrightarrow>
     d_ok (envs cnt) 0 \<and> rounds_full (d_aof (envs cnt)) (g_aof s) \<and>
     (case queue_pop (g_delete_queue s) of
        (None, q) \<Rightarrow> True
      | (Some item, q) \<Rightarrow>
          (case expire_delete_one (envs cnt) item (s\<lparr>g_delete_queue := q\<rparr>) of
             None \<Rightarrow> True
           | Some s' \<Rightarrow> delete_io envs n (Suc cnt) s'))"

lemma delete_loop_log:
  assumes "delete_loop envs n cnt s = Some s'" and "delete_io envs n cnt s"
    and "server_inv s" and "queue_inv (g_delete_queue s)"
    and "\<forall>item\<in>set (queue_contents (g_delete_queue s)). clean_item item \<and> length (resp_encode (timer_message item)) \<le> AOF_BUF_SIZE"
    and "logging_on s" and "aof_ok (g_aof s)" and "aof_open (g_aof s)"
  shows "aof_log (g_aof s') = aof_log (g_aof s) @ requests (timer_log (take n (queue_contents (g_delete_queue s))) (view s))"
  using assms
proof (induction n arbitrary: cnt s)
  case (Suc n)
  obtain r q where pop: "queue_pop (g_delete_queue s) = (r, q)"
    by fastforce
  note q = eq.pop_inv [OF Suc.prems(4) pop] eq.pop_contents [OF Suc.prems(4) pop]
  show ?case
  proof (cases r)
    case None
    then have "queue_contents (g_delete_queue s) = []"
      using pop eq.pop_None_iff [OF Suc.prems(4)] by simp
    with None show ?thesis
      using Suc.prems(1) pop by auto
  next
    case (Some item)
    let ?s = "s\<lparr>g_delete_queue := q\<rparr>"
    obtain s1 where s1: "expire_delete_one (envs cnt) item ?s = Some s1"
      and rest: "delete_loop envs n (Suc cnt) s1 = Some s'"
      using Suc.prems(1) pop Some by (auto split: option.splits)
    have item: "clean_item item" "length (resp_encode (timer_message item)) \<le> AOF_BUF_SIZE"
      and io: "d_ok (envs cnt) 0" "rounds_full (d_aof (envs cnt)) (g_aof s)" "delete_io envs n (Suc cnt) s1"
      using Suc.prems(2,5) pop q Some s1 by simp_all
    have e: "server_inv s1" "view s1 = timer_spec item (view s)" "g_delete_queue s1 = q" "logging_on s1"
      using delete_one_effect [OF s1] Suc.prems(3,6) item(1) logging_on_modes [of s1 ?s] by (simp_all del: timer_spec.simps)
    have log: "aof_ok (g_aof s1) \<and> aof_open (g_aof s1) \<and> aof_log (g_aof s1) = aof_log (g_aof s) @
        (if timer_spec item (view s) \<noteq> view s then resp_encode (timer_message item) else [])"
      using delete_one_log [OF s1 _ item(1) io(1) _ _ _ _ item(2)] Suc.prems(3,6-8) io(2) by (simp del: timer_spec.simps)
    have "aof_log (g_aof s') = aof_log (g_aof s1) @ requests (timer_log (take n (queue_contents q)) (view s1))"
      using Suc.IH [OF rest io(3) e(1)] e(3,4) q Suc.prems(5) Some log by (simp del: timer_spec.simps)
    then show ?thesis
      using e log q Some by (simp del: timer_spec.simps)
  qed
qed simp

section \<open>A timer that is due at once\<close>

lemma find_key_from_hash: "find_key_from t \<lparr>kdata = Some k, hash_cache = h\<rparr> i n = find_key_from t (kd k) i n"
  by (induction n arbitrary: i) (simp_all add: kv_data_compare_def klen_def kbytes_def kd_def)

lemma array_del_if_expired_hash:
  "kvs_array_del_if_expired inst \<lparr>kdata = Some k, hash_cache = h\<rparr> x = kvs_array_del_if_expired inst (kd k) x"
  by (simp add: kvs_array_del_if_expired_def kvs_array_del_def find_key_index_def find_key_from_hash split: option.split)

section \<open>Properties\<close>

text \<open>
  C26. No timer is lost, invented or early: in every interleaving of the network thread and the
  expire thread, the timers registered so far are exactly those still in the command queue, in
  the heap, in the hand of the thread, in the delete queue or already taken by the network thread;
  and everything that reached the delete queue or was taken was due.
\<close>

theorem timers_conserved:
  assumes "expire_reach (expire_sys_start junk now) s"
  shows "mset (xs_registered s) = mset (queue_contents (xs_cmdq s)) + mset (hdata (x_heap (xs_thread s))) +
      held (x_pc (xs_thread s)) + mset (queue_contents (xs_delq s)) + mset (xs_taken s) \<and>
    (\<forall>item\<in>set (queue_contents (xs_delq s)) \<union> set (xs_taken s). iexpire item \<le> xs_now s)"
  using expire_reach_ok [OF assms expire_sys_start_ok]
  by (auto simp: sys_ok_def thread_ok_def thread_total_def thread_items_def)

theorem timers_conserved_witness:
  "\<exists>s. expire_reach (expire_sys_start (\<lambda>_. demo_item ''a'' 5) 3) s \<and> xs_registered s = [demo_item ''b'' 7] \<and>
     mset (queue_contents (xs_cmdq s)) = {#demo_item ''b'' 7#}"
proof -
  let ?start = "expire_sys_start (\<lambda>_. demo_item ''a'' 5) 3"
  have inv: "queue_inv (xs_cmdq ?start)" and empty: "queue_contents (xs_cmdq ?start) = []"
    by (simp_all add: expire_sys_start_def queue_inv_def queue_contents_def queue_len_def ring_def)
  then obtain q where q: "queue_push (xs_cmdq ?start) (demo_item ''b'' 7) = (0, q)"
    using eq.push_ok [OF inv] by (auto simp: EXPIRE_QUEUE_SIZE_def)
  let ?s = "?start\<lparr>xs_cmdq := q, xs_registered := xs_registered ?start @ [demo_item ''b'' 7]\<rparr>"
  have reach: "expire_reach ?start ?s"
    using expire_reach.further [OF expire_reach.here expire_step.register [OF q]] .
  have "mset (queue_contents q) = {#demo_item ''b'' 7#}"
    using timers_conserved [OF reach]
    by (simp add: expire_sys_start_def expire_thread_start_def heap_init_def queue_contents_def queue_len_def ring_def)
  with reach show ?thesis
    by (intro exI [of _ ?s]) (simp add: expire_sys_start_def)
qed

text \<open>
  C27. Every due timer is delivered: whatever is registered when the expire thread starts a round,
  after finitely many of its steps every timer that is due at the time it reads is in the
  delete queue, and only later ones remain in the heap, provided the delete queue has room.
\<close>

theorem due_timers_delivered:
  assumes "thread_ok now (t, cmdq, delq)" and "x_pc t = X_drain"
    and "length (queue_contents delq) + length (queue_contents cmdq) + length (hdata (x_heap t)) < EXPIRE_QUEUE_SIZE"
  shows "\<exists>k t' cmdq' delq'. (expire_thread_step now ^^ k) (t, cmdq, delq) = (t', cmdq', delq') \<and>
    queue_contents cmdq' = [] \<and> (\<forall>item\<in>set (hdata (x_heap t')). now < iexpire item) \<and>
    mset (queue_contents delq') = mset (queue_contents delq) +
      filter_mset (\<lambda>item. iexpire item \<le> now) (mset (queue_contents cmdq) + mset (hdata (x_heap t)))"
proof -
  obtain t1 q where q: "thread_steps now (t, cmdq, delq) (t1, q, delq)" "x_pc t1 = X_due now" "queue_contents q = []"
    and heap: "mset (hdata (x_heap t1)) = mset (queue_contents cmdq) + mset (hdata (x_heap t))"
    using drain_steps [OF assms(1,2)] by blast
  have "size (due_items now (x_heap t1)) \<le> length (queue_contents cmdq) + length (hdata (x_heap t))"
    unfolding heap by (metis size_filter_mset_lesseq size_mset size_union)
  then have "length (queue_contents delq) + size (due_items now (x_heap t1)) < EXPIRE_QUEUE_SIZE"
    using assms(3) by linarith
  from due_steps [OF thread_steps_ok [OF q(1) assms(1)] q(2) this] obtain t' q' where
    "thread_steps now (t1, q, delq) (t', q, q')" "\<forall>item\<in>set (hdata (x_heap t')). now < iexpire item"
    "mset (queue_contents q') = mset (queue_contents delq) + due_items now (x_heap t1)"
    by blast
  with q heap show ?thesis
    using thread_steps_trans unfolding thread_steps_def by metis
qed

theorem due_timers_delivered_witness:
  "\<exists>k t' cmdq' delq'. (expire_thread_step 100 ^^ k)
      (\<lparr>x_heap = heap_demo, x_pc = X_drain\<rparr>, xs_cmdq (expire_sys_start (\<lambda>_. demo_item ''a'' 5) 3),
       xs_delq (expire_sys_start (\<lambda>_. demo_item ''a'' 5) 3)) = (t', cmdq', delq') \<and>
    mset (queue_contents delq') = mset (hdata heap_demo)"
proof -
  let ?q = "xs_cmdq (expire_sys_start (\<lambda>_. demo_item ''a'' 5) 3)" and ?d = "xs_delq (expire_sys_start (\<lambda>_. demo_item ''a'' 5) 3)"
  let ?t = "\<lparr>x_heap = heap_demo, x_pc = X_drain\<rparr>"
  have empty: "queue_contents ?q = []" "queue_contents ?d = []" "queue_inv ?q" "queue_inv ?d"
    by (simp_all add: expire_sys_start_def queue_inv_def queue_contents_def queue_len_def ring_def)
  have "heap_ok (hdata heap_demo)"
    by (auto simp: heap_demo_def heap_ok_def demo_item_def less_Suc_eq numeral_3_eq_3)
  then have "thread_ok 100 (?t, ?q, ?d)"
    using empty by (simp add: thread_ok_def)
  moreover have "filter_mset (\<lambda>item. iexpire item \<le> 100) (mset (hdata heap_demo)) = mset (hdata heap_demo)"
    by (simp add: heap_demo_def demo_item_def)
  ultimately show ?thesis
    using due_timers_delivered [of 100 ?t ?q ?d] empty by (fastforce simp: heap_demo_def EXPIRE_QUEUE_SIZE_def)
qed


definition timer_demo :: expire_item where
  "timer_demo = \<lparr>ikey = kd ''a'', iexpire = 5, iversion = 0, itype = EXPIRE_TYPE_SKIPLIST\<rparr>"

definition del_demo :: kvs_server where
  "del_demo = server_wal\<lparr>g_delete_queue := snd (queue_push (g_delete_queue server_wal) timer_demo),
     global_skip := snd (kvs_skip_set 7 always_ok (global_skip server_wal) (kd ''a'') (kd ''v'') 5)\<rparr>"

definition denv_demo :: delete_env where
  "denv_demo = \<lparr>d_shrink = True, d_ok = always_ok, d_aof = []\<rparr>"

lemma del_demo_queue: "queue_inv (g_delete_queue del_demo)" "queue_contents (g_delete_queue del_demo) = [timer_demo]"
proof -
  have "g_delete_queue server_wal = \<lparr>q_items = (\<lambda>_. \<lparr>ikey = kd_null, iexpire = 0, iversion = 0, itype = 0\<rparr>), q_head = 0, q_tail = 0\<rparr>"
    by (simp add: server_wal_def server_demo_def create_engines_def server_static_def)
  then have inv: "queue_inv (g_delete_queue server_wal)" and empty: "queue_contents (g_delete_queue server_wal) = []"
    by (simp_all add: queue_inv_def queue_contents_def queue_len_def ring_def)
  have "length (queue_contents (g_delete_queue server_wal)) < EXPIRE_QUEUE_SIZE - 1"
    using empty by (simp add: EXPIRE_QUEUE_SIZE_def)
  from eq.push_ok [OF inv this, of timer_demo] empty
  show "queue_inv (g_delete_queue del_demo)" "queue_contents (g_delete_queue del_demo) = [timer_demo]"
    by (auto simp: del_demo_def)
qed

lemma del_demo_ok:
  "server_inv del_demo" "view del_demo = empty_view\<lparr>v_skip := [''a'' \<mapsto> (''v'', 5)]\<rparr>" "logging_on del_demo"
  "g_aof del_demo = g_aof server_wal" "\<not> replicating del_demo"
proof -
  obtain st where st: "kvs_skip_set 7 always_ok (global_skip server_wal) (kd ''a'') (kd ''v'') 5 = (0, st)"
    using kvs_skip_set_succeeds server_wal_ok(1) server_inv_stores by (metis prod.collapse)
  have d: "del_demo = (server_wal\<lparr>global_skip := st\<rparr>)\<lparr>g_delete_queue := snd (queue_push (g_delete_queue server_wal) timer_demo)\<rparr>"
    by (simp add: del_demo_def st)
  have old: "skip_contents (global_skip server_wal) = Map.empty"
    using server_wal_ok(2) by (metis empty_view_def store_view.select_convs(8) view_sel(8))
  have "skip_inv st" "skip_contents st = [''a'' \<mapsto> (''v'', 5)]"
    using ske.set_invar [OF _ _ st] ske.set_ok [OF _ _ st] server_wal_ok(1) old by simp_all
  then show "server_inv del_demo" "view del_demo = empty_view\<lparr>v_skip := [''a'' \<mapsto> (''v'', 5)]\<rparr>"
    unfolding d using server_wal_ok(1,2) by simp_all
  show "logging_on del_demo" "g_aof del_demo = g_aof server_wal" "\<not> replicating del_demo"
    using server_wal_ok(4,8) by (simp_all add: del_demo_def logging_on_def replicating_def)
qed

lemma log_has_room:
  assumes "aof_buf_active (g_aof s) = []" and "length raw \<le> AOF_BUF_SIZE" and "\<not> replicating s"
  shows "\<exists>s'. log_and_replicate [] m raw s = Some s'"
proof -
  have "\<exists>a. kvs_persistence_write [] raw (g_aof s) = Some a"
    using assms(1,2) by (simp add: kvs_persistence_write_def aof_make_room.simps [of "[]"])
  with assms(3) show ?thesis
    by (auto simp: log_and_replicate_def replicating_def Let_def split: option.split)
qed

lemma timer_demo_message: "length (resp_encode (timer_message timer_demo)) \<le> AOF_BUF_SIZE"
  "timer_message timer_demo = [''SDEL'', ''a'']" "clean_item timer_demo"
proof -
  show m: "timer_message timer_demo = [''SDEL'', ''a'']" "clean_item timer_demo"
    by (simp_all add: timer_message_def timer_demo_def expire_del_command_def EXPIRE_TYPE_SKIPLIST_def
        EXPIRE_TYPE_ARRAY_def EXPIRE_TYPE_HASH_def EXPIRE_TYPE_HASH2_def EXPIRE_TYPE_RBTREE_def clean_item_def)
  have "length (print_int 1) \<le> 2" "length (print_int 2) \<le> 2" "length (print_int 4) \<le> 2"
    using dec_length [of 1 2] dec_length [of 2 2] dec_length [of 4 2] by (simp_all add: print_int_def)
  then show "length (resp_encode (timer_message timer_demo)) \<le> AOF_BUF_SIZE"
    unfolding m by (simp add: resp_encode_def resp_arg_def AOF_BUF_SIZE_def)
qed

lemma del_demo_runs: "\<exists>s'. expire_process_deletes (\<lambda>_. denv_demo) del_demo = Some s'"
proof -
  obtain q where pop: "queue_pop (g_delete_queue del_demo) = (Some timer_demo, q)" "queue_inv q" "queue_contents q = []"
    using eq.pop_ok [OF del_demo_queue] by blast
  let ?s = "del_demo\<lparr>g_delete_queue := q\<rparr>"
  obtain r s1 where s1: "engine_del_if_expired True (itype timer_demo) (ikey timer_demo) (iexpire timer_demo) ?s = (r, s1)"
    by fastforce
  have "g_aof s1 = g_aof server_wal"
    using engine_delete_effect [OF _ timer_demo_message(3) s1] del_demo_ok(1,4) by (simp add: settings_def)
  moreover have "\<not> replicating s1"
    using s1 del_demo_ok(5)
    by (auto simp: engine_del_if_expired_def replicating_def split: if_splits prod.splits)
  ultimately obtain s2 where "log_and_replicate [] True (resp_encode (timer_message timer_demo)) s1 = Some s2"
    using log_has_room server_wal_ok(9) timer_demo_message(1) by metis
  then have "\<exists>s2. expire_delete_one denv_demo timer_demo ?s = Some s2"
    using s1 by (simp add: expire_delete_one_def denv_demo_def internal_del_logs timer_message_def)
  then obtain s3 where s3: "expire_delete_one denv_demo timer_demo ?s = Some s3"
    by blast
  have "g_delete_queue s3 = q"
    using delete_one_effect [OF s3 _ timer_demo_message(3)] del_demo_ok(1) by simp
  then have "delete_loop (\<lambda>_. denv_demo) 499 1 s3 = Some s3"
    using eq.pop_empty [OF pop(2,3)] by (simp add: numeral_eq_Suc)
  then show ?thesis
    using pop(1) s3 unfolding expire_process_deletes_def by (simp add: numeral_eq_Suc)
qed


text \<open>
  C29. A key without an expiry time does not survive SET while TTL is enabled: the array SET
  registers a timer also for a key that never expires, with expiry time 0; the timer is due at
  once, and since the stored expiry time is the same 0, its deletion removes the key just set.
\<close>

theorem array_set_timer_deletes_key:
  assumes "server_inv s" and "g_enable_ttl s" and "argc req = 3" and "arg req 1 \<noteq> []"
    and "queue_inv (g_cmd_queue s)" and "length (queue_contents (g_cmd_queue s)) < EXPIRE_QUEUE_SIZE - 1" and "e_hok env 0"
    and "cmd_array_set env req s = Some (r, s')" and "status r = KVS_RESP_OK"
  shows "v_array (view s') (arg req 1) = Some (arg req 2, 0) \<and>
    (\<exists>item. queue_contents (g_cmd_queue s') = queue_contents (g_cmd_queue s) @ [item] \<and> iexpire item = 0 \<and>
      v_array (view (snd (engine_del_if_expired m (itype item) (ikey item) (iexpire item) s'))) (arg req 1) = None)"
proof -
  let ?k = "arg req 1" and ?v = "arg req 2"
  obtain st where set: "kvs_array_set (e_ok env) (global_array s) (kd ?k) (kd ?v) 0 = (0, st)"
    and s': "s' = s\<lparr>global_array := st, g_cmd_queue := snd (expire_push_cmd (e_hok env 0) (e_junk env) EXPIRE_TYPE_ARRAY
        (kd ?k) 0 0 (g_cmd_queue s))\<rparr>"
    using assms(2,3,8,9)
    by (auto simp: cmd_array_set_def with_key_value_def parse_ttl_def Let_def rep_def split: if_splits prod.splits)
  define item where "item = \<lparr>ikey = \<lparr>kdata = Some ?k, hash_cache = e_junk env\<rparr>, iexpire = 0, iversion = 0, itype = EXPIRE_TYPE_ARRAY\<rparr>"
  obtain q where "queue_push (g_cmd_queue s) item = (0, q)" and q: "queue_contents q = queue_contents (g_cmd_queue s) @ [item]"
    using eq.push_ok [OF assms(5,6)] by blast
  then have "g_cmd_queue s' = q"
    using assms(4,7) by (simp add: s' expire_push_cmd_def klen_def kbytes_def kd_def item_def)
  moreover have inv: "array_inv st" and contents: "array_contents st = (array_contents (global_array s))(?k \<mapsto> (?v, 0))"
    using arr.set_invar [OF _ assms(4) set] arr.set_ok [OF _ assms(4) set] assms(1) by simp_all
  moreover have "array_contents (snd (kvs_array_del_if_expired st (kd ?k) 0)) ?k = None"
    using arr.del_if_expired_contents [OF inv, of ?k 0] contents by simp
  ultimately show ?thesis
    using q by (auto simp: s' item_def engine_del_if_expired_def array_del_if_expired_hash split: prod.split)
qed

text \<open>The array engine of the witness: SET of a first key succeeds.\<close>

definition ttl_demo :: kvs_server where
  "ttl_demo = server_demo\<lparr>g_enable_ttl := True\<rparr>"

lemma array_first_set: "\<exists>st. kvs_array_set always_ok (global_array ttl_demo) (kd ''k'') (kd ''v'') 0 = (0, st)"
  by (simp add: ttl_demo_def server_demo_def create_engines_def kvs_array_create_def array_static_def kvs_array_set_def
      find_key_index_def KVS_ARRAY_SIZE_def kv_data_dup_def kv_data_create_def kd_def klen_def kbytes_def Let_def)

theorem array_set_timer_deletes_key_witness:
  "\<exists>r s' item. cmd_array_set env_demo (req_demo [''SET'', ''k'', ''v'']) ttl_demo = Some (r, s') \<and>
     queue_contents (g_cmd_queue s') = [item] \<and>
     v_array (view (snd (engine_del_if_expired True (itype item) (ikey item) (iexpire item) s'))) ''k'' = None"
proof -
  let ?req = "req_demo [''SET'', ''k'', ''v'']"
  have inv: "server_inv ttl_demo"
    using create_engines_inv [of server_static]
    by (simp add: ttl_demo_def server_demo_def server_inv_def del: server_inv_stores)
  have q: "queue_inv (g_cmd_queue ttl_demo)" "queue_contents (g_cmd_queue ttl_demo) = []"
    by (simp_all add: ttl_demo_def server_demo_def create_engines_def server_static_def
        queue_inv_def queue_contents_def queue_len_def ring_def)
  have args: "arg ?req 1 = ''k''" "arg ?req 2 = ''v''" "argc ?req = 3" "rargv_len ?req = [3, 1, 1]"
    by (simp_all add: arg_def req_demo_def)
  obtain st where "kvs_array_set always_ok (global_array ttl_demo) (kd ''k'') (kd ''v'') 0 = (0, st)"
    using array_first_set by blast
  then have "\<exists>s'. cmd_array_set env_demo ?req ttl_demo = Some (rep KVS_RESP_OK, s')"
    using args by (simp add: cmd_array_set_def with_key_value_def parse_ttl_def env_demo_def Let_def)
  then obtain s' where s': "cmd_array_set env_demo ?req ttl_demo = Some (rep KVS_RESP_OK, s')"
    by blast
  show ?thesis
    using array_set_timer_deletes_key [OF inv _ args(3) _ q(1) _ _ s', of True] q(2) args s'
    by (fastforce simp: ttl_demo_def env_demo_def rep_def EXPIRE_QUEUE_SIZE_def)
qed

end
