(* ===== verification/Conn_Ntyco.thy ===== *)
theory Conn_Ntyco
  imports Resp_Wal
begin

text \<open>
  The connection coroutine of \<^verbatim>\<open>ntyco.c\<close> (\<open>ntyco_client_co\<close>): the receive buffer that grows, is
  filled by \<open>recv\<close>, is handed to the protocol layer and is moved down behind the consumed bytes,
  and the replies that are sent. Between two yields the coroutine runs one round of its loop; what the socket delivers, the
  allocations and the environment of the commands are inputs of a round. The theory shows that
  the way the byte stream is cut into reads does not matter.
\<close>

definition INIT_BUFFER_SIZE :: nat where
  "INIT_BUFFER_SIZE = 4096"

definition MAX_RBUFFER_SIZE :: nat where
  "MAX_RBUFFER_SIZE = 16 * 1024 * 1024"

definition CONNECTION_SIZE :: int where
  "CONNECTION_SIZE = 1024"

section \<open>State\<close>

text \<open>
  The buffers of a connection: \<open>c_rbuffer\<close> is the allocated memory of \<open>rcapacity\<close> bytes, of which
  the first \<open>c_rlength\<close> are received bytes. \<open>role\<close> is in the server state.
\<close>

record conn =
  c_rbuffer :: bytes
  c_rlength :: nat
  c_wbuffer :: wbuffer

abbreviation c_rcapacity :: "conn \<Rightarrow> nat" where
  "c_rcapacity c \<equiv> length (c_rbuffer c)"

text \<open>
  What \<open>recv\<close> does: deliver up to \<open>n\<close> of the pending bytes, report EAGAIN, the end of the
  stream or an error. \<open>ce_grow\<close> is the memory behind the old content after a successful
  \<open>kvs_realloc\<close>, \<open>ce_envs j i\<close> is the environment of the \<open>i\<close>-th command of the \<open>j\<close>-th call of the
  protocol layer; \<open>ce_flush\<close> are the inputs of the final flush.
\<close>

datatype recv_event = R_data nat | R_again | R_closed | R_error

record client_env =
  ce_grow :: "(nat \<Rightarrow> char) option"
  ce_recv :: recv_event
  ce_envs :: "nat \<Rightarrow> nat \<Rightarrow> stream_env"
  ce_flush :: "int \<times> int option \<times> bool \<times> bool"

section \<open>Operations\<close>

definition ntyco_close_and_free_connection :: "int \<Rightarrow> kvs_server \<Rightarrow> kvs_server" where
  "ntyco_close_and_free_connection fd s =
     (if fd < 0 \<or> fd \<ge> CONNECTION_SIZE then s else s\<lparr>conn_roles := (conn_roles s)(fd := CONN_CLIENT)\<rparr>)"

text \<open>The buffers at the start of the coroutine, \<open>None\<close> when an allocation fails.\<close>

definition client_start :: "(nat \<Rightarrow> char) option \<Rightarrow> bool \<Rightarrow> conn option" where
  "client_start r w =
     (case r of
        None \<Rightarrow> None
      | Some mem \<Rightarrow>
          if w then Some \<lparr>c_rbuffer = map mem [0..<INIT_BUFFER_SIZE], c_rlength = 0,
            c_wbuffer = \<lparr>wdata = [], wcap = int INIT_BUFFER_SIZE\<rparr>\<rparr>
          else None)"

definition client_grow :: "(nat \<Rightarrow> char) option \<Rightarrow> conn \<Rightarrow> conn option" where
  "client_grow g c =
     (if c_rcapacity c - c_rlength c < 65536 \<and> c_rcapacity c < MAX_RBUFFER_SIZE then
        let cap = max (c_rcapacity c * 2) 65536
        in (case g of
              None \<Rightarrow> None
            | Some mem \<Rightarrow> Some (c\<lparr>c_rbuffer := c_rbuffer c @ map mem [c_rcapacity c..<cap]\<rparr>))
      else Some c)"

text \<open>\<open>recv\<close> into the free part of the buffer.\<close>

definition client_fill :: "bytes \<Rightarrow> conn \<Rightarrow> conn" where
  "client_fill d c =
     c\<lparr>c_rbuffer := take (c_rlength c) (c_rbuffer c) @ d @ drop (c_rlength c + length d) (c_rbuffer c),
       c_rlength := c_rlength c + length d\<rparr>"

text \<open>
  The parsing loop: whether the connection stays open, the bytes consumed, the send buffer and
  the server. A replica's connection to its master has no replies.
\<close>

function client_parse ::
  "(nat \<Rightarrow> nat \<Rightarrow> stream_env) \<Rightarrow> int \<Rightarrow> bytes \<Rightarrow> nat \<Rightarrow> nat \<Rightarrow> nat \<Rightarrow> wbuffer \<Rightarrow> kvs_server \<Rightarrow>
   (bool \<times> nat \<times> wbuffer \<times> kvs_server) option" where
  "client_parse envs fd buf rlen j tot w s =
     (if rlen > tot then
        let is_master = (conn_roles s fd = CONN_MASTER)
        in (case protocol_process_stream (envs j) (drop tot buf) (rlen - tot) (if is_master then None else Some w) fd s of
              None \<Rightarrow> None
            | Some (st, parsed, w', s') \<Rightarrow>
                let w1 = (case w' of None \<Rightarrow> w | Some x \<Rightarrow> x)
                in if st = 1 \<or> parsed = 0 then Some (True, tot, w1, s')
                   else if st < 0 then Some (False, tot, w1, s')
                   else client_parse envs fd buf rlen (Suc j) (tot + parsed) w1 s')
      else Some (True, tot, w, s))"
  by pat_completeness auto
termination
  by (relation "measure (\<lambda>(envs, fd, buf, rlen, j, tot, w, s). rlen - tot)") auto

declare client_parse.simps [simp del]

definition client_compact :: "nat \<Rightarrow> conn \<Rightarrow> conn" where
  "client_compact tot c =
     (if tot > 0 then
        let remaining = c_rlength c - tot
        in c\<lparr>c_rbuffer := take remaining (drop tot (c_rbuffer c)) @ drop remaining (c_rbuffer c), c_rlength := remaining\<rparr>
      else c)"

text \<open>
  What follows a successful \<open>recv\<close>: the connection (\<open>None\<close> when it is closed), the input left, the
  bytes passed to \<open>send\<close>, whose result is ignored, and the server.
\<close>

definition client_serve ::
  "client_env \<Rightarrow> int \<Rightarrow> bytes \<Rightarrow> conn \<Rightarrow> kvs_server \<Rightarrow> (conn option \<times> bytes \<times> bytes \<times> kvs_server) option" where
  "client_serve env fd inp c s =
     (case client_parse (ce_envs env) fd (c_rbuffer c) (c_rlength c) 0 0 (c_wbuffer c) s of
        None \<Rightarrow> None
      | Some (alive, tot, w, s') \<Rightarrow>
          if \<not> alive then Some (None, inp, [], ntyco_close_and_free_connection fd s')
          else
            let c3 = client_compact tot (c\<lparr>c_wbuffer := w\<rparr>)
            in if wdata w \<noteq> [] then Some (Some (c3\<lparr>c_wbuffer := w\<lparr>wdata := []\<rparr>\<rparr>), inp, wdata w, s')
               else Some (Some c3, inp, [], s'))"

text \<open>One round of the loop on the pending input \<open>inp\<close>.\<close>

definition client_round ::
  "client_env \<Rightarrow> int \<Rightarrow> bytes \<Rightarrow> conn \<Rightarrow> kvs_server \<Rightarrow> (conn option \<times> bytes \<times> bytes \<times> kvs_server) option" where
  "client_round env fd inp c s =
     (if c_rlength c \<ge> MAX_RBUFFER_SIZE then Some (Some c, inp, [], s)
      else case client_grow (ce_grow env) c of
        None \<Rightarrow> Some (None, inp, [], ntyco_close_and_free_connection fd s)
      | Some c1 \<Rightarrow>
          let gone = (case ce_flush env of (now, cqe, sqe1, sqe2) \<Rightarrow>
                let s1 = (if logging_on s then s\<lparr>g_aof := kvs_persistence_force_flush now cqe sqe1 sqe2 (g_aof s)\<rparr> else s)
                in (None, inp, [], ntyco_close_and_free_connection fd s1))
          in (case ce_recv env of
                R_again \<Rightarrow> Some (Some c1, inp, [], s)
              | R_closed \<Rightarrow> Some gone
              | R_error \<Rightarrow> Some gone
              | R_data n \<Rightarrow>
                  let d = take n (take (c_rcapacity c1 - c_rlength c1) inp)
                  in if d = [] then Some gone else client_serve env fd (drop (length d) inp) (client_fill d c1) s))"

fun client_run ::
  "int \<Rightarrow> client_env list \<Rightarrow> bytes \<Rightarrow> conn \<Rightarrow> kvs_server \<Rightarrow> (conn option \<times> bytes \<times> bytes \<times> kvs_server) option" where
  "client_run fd [] inp c s = Some (Some c, inp, [], s)"
| "client_run fd (env # envs) inp c s =
     (case client_round env fd inp c s of
        None \<Rightarrow> None
      | Some (None, inp', out, s') \<Rightarrow> Some (None, inp', out, s')
      | Some (Some c', inp', out, s') \<Rightarrow>
          map_option (\<lambda>(c'', inp'', out', s''). (c'', inp'', out @ out', s'')) (client_run fd envs inp' c' s'))"


section \<open>Requests as a client sees them\<close>

text \<open>
  The requests are answered once each and in order; \<open>rest\<close> is what lies behind a request in the
  receive buffer when it is answered.
\<close>

inductive served :: "int \<Rightarrow> bytes list list \<Rightarrow> resp_reply option list \<Rightarrow> kvs_server \<Rightarrow> kvs_server \<Rightarrow> bool" for fd where
  served_Nil: "served fd [] [] s s"
| served_Cons: "answer_request env fd (parsed_request a rest) (resp_encode a) s = Some (r, s') \<Longrightarrow> served fd as rs s' s'' \<Longrightarrow>
    served fd (a # as) (r # rs) s s''"

inductive_cases served_NilE: "served fd [] rs s s'"

definition reply_text :: "resp_reply option \<Rightarrow> bytes" where
  "reply_text r = (case r of None \<Rightarrow> [] | Some x \<Rightarrow> resp_pack x)"

lemma served_append:
  "served fd as rs s s1 \<Longrightarrow> served fd bs ts s1 s2 \<Longrightarrow> served fd (as @ bs) (rs @ ts) s s2"
  by (induction rule: served.induct) (auto intro: served_Cons)

lemma serve_served: "serve envs fd i as tail s = Some (rs, s') \<Longrightarrow> served fd as rs s s'"
proof (induction as arbitrary: i s rs)
  case Nil
  then show ?case by (auto intro: served_Nil)
next
  case (Cons a as)
  then show ?case by (auto intro: served_Cons split: option.splits)
qed

text \<open>A request that cannot be answered.\<close>

definition faults :: "int \<Rightarrow> bytes list \<Rightarrow> kvs_server \<Rightarrow> bool" where
  "faults fd a s \<longleftrightarrow> (\<exists>env rest. answer_request env fd (parsed_request a rest) (resp_encode a) s = None)"

lemma serve_faults:
  "serve envs fd i as tail s = None \<Longrightarrow> \<exists>bs a cs rs s1. as = bs @ a # cs \<and> served fd bs rs s s1 \<and> faults fd a s1"
proof (induction as arbitrary: i s)
  case (Cons a as)
  show ?case
  proof (cases "answer_request (envs i) fd (parsed_request a (requests as @ tail)) (resp_encode a) s")
    case None
    then show ?thesis
      using served_Nil by (metis append_Nil faults_def)
  next
    case (Some p)
    then obtain r s' where p: "answer_request (envs i) fd (parsed_request a (requests as @ tail)) (resp_encode a) s = Some (r, s')"
      by (cases p) simp
    then obtain bs b cs rs s1 where "as = bs @ b # cs" "served fd bs rs s' s1" "faults fd b s1"
      using Cons.IH [of "Suc i" s'] Cons.prems by auto
    then show ?thesis
      using served_Cons [OF p] by (metis append_Cons)
  qed
qed simp

text \<open>A connection does not become that of a master by serving requests.\<close>

lemma run_proc_roles: "run_proc p env req s = Some (r, s') \<Longrightarrow> conn_roles s' = conn_roles s"
  by (cases p)
    (auto simp: array_defs rbtree_defs hash_defs skip_defs context_defs index_defs system_defs
      with_key_def with_key_value_def Let_def split: if_splits prod.splits option.splits)

lemma answer_roles:
  assumes "answer_request env fd req raw s = Some (r, s')" and "conn_roles s fd \<noteq> CONN_MASTER"
  shows "conn_roles s' fd \<noteq> CONN_MASTER"
proof -
  have net: "conn_roles s1 fd \<noteq> CONN_MASTER" if "network_command fd req s = Some (b, s1)" for b s1
    using that assms(2) by (auto simp: network_command_def handle_slave_rdma_connect_def split: if_splits)
  have log: "conn_roles s2 = conn_roles s1" if "log_and_replicate evs m raw s1 = Some s2" for evs m s1 s2
    using that by (auto simp: log_and_replicate_def Let_def split: if_splits option.splits)
  have ex: "conn_roles s2 = conn_roles s1" if "kvs_execute_batch e c req s1 = Some (x, s2)" for e c s1 x s2
    using that run_proc_roles by (auto simp: kvs_execute_batch_def split: option.splits)
  show ?thesis
    using assms(1) by (auto simp: answer_request_def split: option.splits if_splits prod.splits dest!: net log ex)
qed

lemma served_roles: "served fd as rs s s' \<Longrightarrow> conn_roles s fd \<noteq> CONN_MASTER \<Longrightarrow> conn_roles s' fd \<noteq> CONN_MASTER"
  by (induction rule: served.induct) (auto dest: answer_roles)

lemma pack_all_text:
  assumes "\<And>i. se_wbuf (envs i)"
  shows "\<exists>w'. pack_all envs i rs (Some w) = Some w' \<and> wdata w' = wdata w @ concat (map reply_text rs)"
proof (induction rs arbitrary: i w)
  case (Cons r rs)
  have "\<exists>w'. (case r of None \<Rightarrow> Some w | Some x \<Rightarrow> pack_reply (se_wbuf (envs i)) (Some w) x) = Some w' \<and> wdata w' = wdata w @ reply_text r"
    using assms by (auto simp: reply_text_def pack_reply_def resp_pack_with_realloc_def Let_def split: option.split)
  then obtain w1 where "(case r of None \<Rightarrow> Some w | Some x \<Rightarrow> pack_reply (se_wbuf (envs i)) (Some w) x) = Some w1"
    "wdata w1 = wdata w @ reply_text r"
    by blast
  then show ?case
    using Cons.IH [of "Suc i" w1] by (simp only: pack_all.simps) auto
qed simp

text \<open>What has been received so far: whole requests and a proper part of the next one.\<close>

lemma received_split:
  assumes "B @ inp = requests as @ take k (resp_encode part)" and "k < length (resp_encode part)"
  shows "\<exists>bs cs p k'. as = bs @ cs \<and> B = requests bs @ take k' (resp_encode p) \<and> k' < length (resp_encode p) \<and> p \<in> set (part # as) \<and>
    take k' (resp_encode p) @ inp = requests cs @ take k (resp_encode part) \<and> (cs \<noteq> [] \<longrightarrow> p = hd cs)"
  using assms(1)
proof (induction as arbitrary: B)
  case Nil
  let ?n = "length B"
  have "B = take ?n (take k (resp_encode part))"
    using Nil.prems by (metis append_Nil append_eq_conv_conj requests_simps(1))
  moreover have "?n \<le> k"
    using arg_cong [OF Nil.prems, of length] by simp
  ultimately have "B = take ?n (resp_encode part)"
    by (simp add: min_absorb2)
  then show ?case
    using Nil.prems assms(2) \<open>?n \<le> k\<close>
    by (intro exI [of _ "[]"] exI [of _ part] exI [of _ ?n]) auto
next
  case (Cons a as)
  show ?case
  proof (cases "length B < length (resp_encode a)")
    case True
    have "B = take (length B) (resp_encode a @ requests as @ take k (resp_encode part))"
      using Cons.prems by (metis append_assoc append_eq_conv_conj requests_simps(2))
    then have "B = take (length B) (resp_encode a)"
      using True by simp
    then show ?thesis
      using True Cons.prems by (intro exI [of _ "[]"] exI [of _ "a # as"] exI [of _ a] exI [of _ "length B"]) auto
  next
    case False
    let ?B = "drop (length (resp_encode a)) B"
    have "take (length (resp_encode a)) B = resp_encode a"
      using arg_cong [OF Cons.prems, of "take (length (resp_encode a))"] False by simp
    then have B: "B = resp_encode a @ ?B"
      by (metis append_take_drop_id)
    then have "resp_encode a @ (?B @ inp) = resp_encode a @ (requests as @ take k (resp_encode part))"
      using Cons.prems by (metis append_assoc requests_simps(2))
    then have "?B @ inp = requests as @ take k (resp_encode part)"
      by (simp only: same_append_eq)
    from Cons.IH [OF this] obtain bs cs p k' where IH: "as = bs @ cs" "?B = requests bs @ take k' (resp_encode p)"
      "k' < length (resp_encode p)" "p \<in> set (part # as)" "take k' (resp_encode p) @ inp = requests cs @ take k (resp_encode part)"
      "cs \<noteq> [] \<longrightarrow> p = hd cs"
      by blast
    have "B = requests (a # bs) @ take k' (resp_encode p)"
      using B IH(2) by simp
    then show ?thesis
      using IH by (intro exI [of _ "a # bs"] exI [of _ cs] exI [of _ p] exI [of _ k']) auto
  qed
qed


section \<open>Rounds\<close>

text \<open>Environments in which the allocations of the protocol layer for the requests \<open>as\<close> succeed.\<close>

definition envs_ok :: "bytes list list \<Rightarrow> client_env \<Rightarrow> bool" where
  "envs_ok as env \<longleftrightarrow> (\<forall>j i. se_wbuf (ce_envs env j i) \<and> (\<forall>a\<in>set as. vectors_ok (se_args (ce_envs env j i)) a))"

lemma client_parse_requests:
  assumes "take rlen buf = requests bs @ take k (resp_encode p)" and "rlen \<le> length buf" and "\<forall>a\<in>set bs. sized a" and "sized p"
    and "k < length (resp_encode p)" and "conn_roles s fd \<noteq> CONN_MASTER" and "envs_ok bs env"
  shows "client_parse (ce_envs env) fd buf rlen 0 0 w s = None \<and>
      (\<exists>cs a ds rs s1. bs = cs @ a # ds \<and> served fd cs rs s s1 \<and> faults fd a s1) \<or>
    (\<exists>rs w' s'. client_parse (ce_envs env) fd buf rlen 0 0 w s = Some (True, length (requests bs), w', s') \<and>
      served fd bs rs s s' \<and> wdata w' = wdata w @ concat (map reply_text rs))"
proof -
  let ?T = "take k (resp_encode p)" and ?stale = "drop rlen buf" and ?n = "length (requests bs)" and ?envs = "ce_envs env"
  have k: "rlen = ?n + k"
    using arg_cong [OF assms(1), of length] assms(2,5) by simp
  have buf: "buf = requests bs @ ?T @ ?stale"
    using assms(1) by (metis append_assoc append_take_drop_id)
  have vec: "vectors_ok (se_args (?envs j i)) (bs ! m)" if "m < length bs" for j i m
    using assms(7) that by (simp add: envs_ok_def)
  have first: "protocol_process_stream (?envs 0) (drop 0 buf) (rlen - 0) (Some w) fd s =
    map_option (\<lambda>(rs, s'). (0, ?n, pack_all (?envs 0) 0 rs (Some w), s')) (serve (?envs 0) fd 0 bs (?T @ ?stale) s)"
    using protocol_process_stream_serve [OF assms(3,4,5), of "?envs 0" ?stale "Some w" fd s] vec buf k by simp
  have second: "protocol_process_stream (?envs j) (drop ?n buf) (rlen - ?n) u fd s' = Some (0, 0, u, s')" for j u s'
  proof -
    have "drop ?n buf = ?T @ ?stale" "rlen - ?n = k"
      using arg_cong [OF buf, of "drop ?n"] k by simp_all
    then show ?thesis
      using protocol_process_stream_serve [of "[]" p k "?envs j" ?stale u fd s'] assms(4,5) by simp
  qed
  show ?thesis
  proof (cases "serve (?envs 0) fd 0 bs (?T @ ?stale) s")
    case None
    moreover from None have "rlen > 0"
      using k by (cases bs) (auto simp: resp_encode_def)
    ultimately show ?thesis
      using serve_faults [OF None] first assms(6) by (subst client_parse.simps) simp
  next
    case (Some q)
    then obtain rs s' where q: "serve (?envs 0) fd 0 bs (?T @ ?stale) s = Some (rs, s')"
      by (cases q) simp
    obtain w' where w': "pack_all (?envs 0) 0 rs (Some w) = Some w'" "wdata w' = wdata w @ concat (map reply_text rs)"
      using pack_all_text [of "?envs 0" 0 rs w] assms(7) by (auto simp: envs_ok_def)
    have again: "client_parse ?envs fd buf rlen (Suc 0) ?n w' s' = Some (True, ?n, w', s')"
      using second [of "Suc 0" _ s'] by (subst client_parse.simps) (simp add: Let_def)
    have "rlen = 0 \<Longrightarrow> bs = []"
      using k by (cases bs) (auto simp: resp_encode_def)
    then have "client_parse ?envs fd buf rlen 0 0 w s = Some (True, ?n, w', s')"
      using first q w'(1) assms(6) again by (subst client_parse.simps) (auto simp: Let_def)
    then show ?thesis
      using serve_served [OF q] w'(2) by blast
  qed
qed


text \<open>
  The connection between two rounds: the received bytes and the pending ones are the requests \<open>cs\<close>
  still to be answered and the beginning \<open>t\<close> of a further one; no request is complete.
\<close>

definition conn_inv :: "bytes list list \<Rightarrow> bytes \<Rightarrow> bytes \<Rightarrow> conn \<Rightarrow> bool" where
  "conn_inv cs t inp c \<longleftrightarrow> c_rlength c \<le> c_rcapacity c \<and> wdata (c_wbuffer c) = [] \<and>
     take (c_rlength c) (c_rbuffer c) @ inp = requests cs @ t \<and> (cs \<noteq> [] \<longrightarrow> c_rlength c < length (resp_encode (hd cs)))"

text \<open>What may come of the requests \<open>cs\<close>: a fault of one of them, or a number of answers in order.\<close>

definition outcome ::
  "int \<Rightarrow> bytes list list \<Rightarrow> bytes \<Rightarrow> kvs_server \<Rightarrow> (conn option \<times> bytes \<times> bytes \<times> kvs_server) option \<Rightarrow> bool" where
  "outcome fd cs t s res \<longleftrightarrow>
     (case res of
        None \<Rightarrow> \<exists>bs a ds rs s1. cs = bs @ a # ds \<and> served fd bs rs s s1 \<and> faults fd a s1
      | Some (co, inp, out, s') \<Rightarrow>
          \<exists>bs ds rs s1. cs = bs @ ds \<and> served fd bs rs s s1 \<and> out = concat (map reply_text rs) \<and> view s' = view s1 \<and>
            (\<forall>c. co = Some c \<longrightarrow> s' = s1 \<and> conn_inv ds t inp c))"

lemma outcome_idle: "conn_inv cs t inp c \<Longrightarrow> outcome fd cs t s (Some (Some c, inp, [], s))"
  unfolding outcome_def using served_Nil [of fd s] by fastforce

lemma outcome_closed: "view s' = view s \<Longrightarrow> outcome fd cs t s (Some (None, inp, [], s'))"
  unfolding outcome_def using served_Nil [of fd s] by fastforce

lemma close_view: "view (ntyco_close_and_free_connection fd s) = view s"
  by (simp add: ntyco_close_and_free_connection_def)

lemma client_grow_ok:
  assumes "client_grow g c = Some c1" and "conn_inv cs t inp c"
  shows "conn_inv cs t inp c1"
  using assms by (auto simp: client_grow_def conn_inv_def Let_def split: if_splits option.splits)

lemma client_fill_ok:
  assumes "c_rlength c + length d \<le> c_rcapacity c"
  shows "take (c_rlength c + length d) (c_rbuffer (client_fill d c)) = take (c_rlength c) (c_rbuffer c) @ d"
    and "c_rcapacity (client_fill d c) = c_rcapacity c" and "c_rlength (client_fill d c) = c_rlength c + length d"
    and "c_wbuffer (client_fill d c) = c_wbuffer c"
  using assms by (simp_all add: client_fill_def min_absorb2)

lemma client_compact_ok:
  assumes "take (c_rlength c) (c_rbuffer c) = x @ y" and "c_rlength c \<le> c_rcapacity c"
  shows "take (c_rlength (client_compact (length x) c)) (c_rbuffer (client_compact (length x) c)) = y"
    and "c_rlength (client_compact (length x) c) = length y" and "c_rcapacity (client_compact (length x) c) = c_rcapacity c"
    and "c_wbuffer (client_compact (length x) c) = c_wbuffer c" and "length y \<le> c_rcapacity c"
proof -
  have len: "c_rlength c = length x + length y"
    using arg_cong [OF assms(1), of length] assms(2) by simp
  have y: "take (length y) (drop (length x) (c_rbuffer c)) = y"
    using arg_cong [OF assms(1), of "drop (length x)"] len by (simp add: drop_take)
  then show "take (c_rlength (client_compact (length x) c)) (c_rbuffer (client_compact (length x) c)) = y"
    and "c_rlength (client_compact (length x) c) = length y" and "c_rcapacity (client_compact (length x) c) = c_rcapacity c"
    and "c_wbuffer (client_compact (length x) c) = c_wbuffer c" and "length y \<le> c_rcapacity c"
    using assms len by (auto simp: client_compact_def Let_def)
qed

lemma client_received:
  assumes "conn_inv cs t inp c" and "t = take k (resp_encode part)" and "k < length (resp_encode part)"
    and "\<forall>a\<in>set (part # cs). sized a" and "conn_roles s fd \<noteq> CONN_MASTER" and "envs_ok cs env"
    and "d @ inp' = inp" and "c_rlength c + length d \<le> c_rcapacity c" and "c2 = client_fill d c"
  shows "outcome fd cs t s (client_serve env fd inp' c2 s)"
proof -
  note fill = client_fill_ok [OF assms(8), folded assms(9)]
  have "(take (c_rlength c) (c_rbuffer c) @ d) @ inp' = requests cs @ take k (resp_encode part)"
    using assms(1,2,7) by (simp add: conn_inv_def)
  from received_split [OF this assms(3)] obtain bs ds p k' where split: "cs = bs @ ds" "take (c_rlength c) (c_rbuffer c) @ d = requests bs @ take k' (resp_encode p)"
    "k' < length (resp_encode p)" "p \<in> set (part # cs)" "take k' (resp_encode p) @ inp' = requests ds @ take k (resp_encode part)"
    "ds \<noteq> [] \<longrightarrow> p = hd ds"
    by blast
  have buf: "take (c_rlength c2) (c_rbuffer c2) = requests bs @ take k' (resp_encode p)" "c_rlength c2 \<le> c_rcapacity c2"
    using fill split(2) assms(8) by simp_all
  have ok: "\<forall>a\<in>set bs. sized a" "sized p" "envs_ok bs env"
    using assms(4,6) split(1,4) by (auto simp: envs_ok_def)
  have w0: "wdata (c_wbuffer c2) = []"
    using assms(1) fill(4) by (simp add: conn_inv_def)
  consider (fault) cs' a ds' rs s1 where "client_parse (ce_envs env) fd (c_rbuffer c2) (c_rlength c2) 0 0 (c_wbuffer c2) s = None"
      "bs = cs' @ a # ds'" "served fd cs' rs s s1" "faults fd a s1"
    | (fine) rs w s' where "client_parse (ce_envs env) fd (c_rbuffer c2) (c_rlength c2) 0 0 (c_wbuffer c2) s = Some (True, length (requests bs), w, s')"
      "served fd bs rs s s'" "wdata w = concat (map reply_text rs)"
    using client_parse_requests [OF buf ok(1,2) split(3) assms(5) ok(3), of "c_wbuffer c2"] w0 by auto
  then show ?thesis
  proof cases
    case fault
    then show ?thesis
      using split(1) by (auto simp: outcome_def client_serve_def)
  next
    case fine
    let ?c = "client_compact (length (requests bs)) (c2\<lparr>c_wbuffer := w\<rparr>)"
    have "conn_inv ds t inp' (?c\<lparr>c_wbuffer := w\<lparr>wdata := []\<rparr>\<rparr>)" "wdata w = [] \<Longrightarrow> conn_inv ds t inp' ?c"
      using client_compact_ok [of "c2\<lparr>c_wbuffer := w\<rparr>" "requests bs" "take k' (resp_encode p)"] buf split(3,5,6) assms(2)
      by (auto simp: conn_inv_def)
    with fine split(1) show ?thesis
      unfolding client_serve_def by (cases "wdata w = []") (auto simp: outcome_def Let_def)
  qed
qed

lemma outcome_append:
  assumes "served fd bs rs s s1" and "outcome fd ds t s1 res"
  shows "outcome fd (bs @ ds) t s (map_option (\<lambda>(c, inp, out, s'). (c, inp, concat (map reply_text rs) @ out, s')) res)"
proof (cases res)
  case None
  then obtain cs a es ts s2 where "ds = cs @ a # es" "served fd cs ts s1 s2" "faults fd a s2"
    using assms(2) by (auto simp: outcome_def)
  then show ?thesis
    using None served_append [OF assms(1)] unfolding outcome_def by (fastforce intro: exI [of _ "bs @ cs"])
next
  case (Some q)
  obtain co inp out s' where q: "q = (co, inp, out, s')"
    by (metis prod_cases4)
  then obtain cs es ts s2 where "ds = cs @ es" "served fd cs ts s1 s2" "out = concat (map reply_text ts)" "view s' = view s2"
    "\<forall>c. co = Some c \<longrightarrow> s' = s2 \<and> conn_inv es t inp c"
    using assms(2) Some by (auto simp: outcome_def)
  then show ?thesis
    using served_append [OF assms(1)] unfolding outcome_def Some q option.map prod.case option.case
    by (intro exI [of _ "bs @ cs"] exI [of _ es] exI [of _ "rs @ ts"] exI [of _ s2]) simp
qed

lemma client_round_ok:
  assumes "conn_inv cs t inp c" and "t = take k (resp_encode part)" and "k < length (resp_encode part)"
    and "\<forall>a\<in>set (part # cs). sized a" and "conn_roles s fd \<noteq> CONN_MASTER" and "envs_ok cs env"
  shows "outcome fd cs t s (client_round env fd inp c s)"
proof (cases "c_rlength c \<ge> MAX_RBUFFER_SIZE")
  case True
  then show ?thesis
    using outcome_idle [OF assms(1)] by (simp add: client_round_def)
next
  case False
  show ?thesis
  proof (cases "client_grow (ce_grow env) c")
    case None
    with False show ?thesis
      by (simp add: client_round_def outcome_closed close_view)
  next
    case (Some c1)
    note inv1 = client_grow_ok [OF Some assms(1)]
    obtain now cqe sqe1 sqe2 where flush: "ce_flush env = (now, cqe, sqe1, sqe2)"
      by (metis prod_cases4)
    show ?thesis
    proof (cases "\<exists>n. ce_recv env = R_data n \<and> take n (take (c_rcapacity c1 - c_rlength c1) inp) \<noteq> []")
      case True
      then obtain n where n: "ce_recv env = R_data n" "take n (take (c_rcapacity c1 - c_rlength c1) inp) \<noteq> []"
        by blast
      let ?d = "take n (take (c_rcapacity c1 - c_rlength c1) inp)"
      have "?d @ drop (length ?d) inp = inp" "c_rlength c1 + length ?d \<le> c_rcapacity c1"
        using inv1 by (auto simp: conn_inv_def min_def)
      then have "outcome fd cs t s (client_serve env fd (drop (length ?d) inp) (client_fill ?d c1) s)"
        by (rule client_received [OF inv1 assms(2-6) _ _ refl])
      moreover have "client_round env fd inp c s = client_serve env fd (drop (length ?d) inp) (client_fill ?d c1) s"
        using False Some n by (simp only: client_round_def Let_def recv_event.case option.case if_False)
      ultimately show ?thesis by simp
    next
      case no_data: False
      let ?s = "if logging_on s then s\<lparr>g_aof := kvs_persistence_force_flush now cqe sqe1 sqe2 (g_aof s)\<rparr> else s"
      have "client_round env fd inp c s = Some (Some c1, inp, [], s) \<or>
        client_round env fd inp c s = Some (None, inp, [], ntyco_close_and_free_connection fd ?s)"
        using False Some no_data flush
        by (cases "ce_recv env") (simp_all add: client_round_def Let_def del: take_take take_eq_Nil take_eq_Nil2)
      moreover have "view (ntyco_close_and_free_connection fd ?s) = view s"
        by (simp add: close_view)
      ultimately show ?thesis
        using outcome_idle [OF inv1] outcome_closed by metis
    qed
  qed
qed

lemma client_run_ok:
  assumes "conn_inv cs t inp c" and "t = take k (resp_encode part)" and "k < length (resp_encode part)"
    and "\<forall>a\<in>set (part # cs). sized a" and "conn_roles s fd \<noteq> CONN_MASTER" and "\<forall>env\<in>set envs. envs_ok cs env"
  shows "outcome fd cs t s (client_run fd envs inp c s)"
  using assms(1,4-)
proof (induction envs arbitrary: cs inp c s)
  case Nil
  then show ?case by (simp add: outcome_idle)
next
  case (Cons env envs)
  have round: "outcome fd cs t s (client_round env fd inp c s)"
    using client_round_ok [OF Cons.prems(1) assms(2,3) Cons.prems(2,3)] Cons.prems(4) by simp
  show ?case
  proof (cases "client_round env fd inp c s")
    case None
    with round show ?thesis by (simp add: outcome_def)
  next
    case (Some q)
    obtain co inp1 out1 s1 where q: "q = (co, inp1, out1, s1)"
      by (metis prod_cases4)
    show ?thesis
    proof (cases co)
      case None
      with round Some q show ?thesis by simp
    next
      case co: (Some c1)
      from round Some q co obtain bs ds rs where step: "cs = bs @ ds" "served fd bs rs s s1" "out1 = concat (map reply_text rs)"
        "conn_inv ds t inp1 c1"
        by (auto simp: outcome_def)
      have "outcome fd ds t s1 (client_run fd envs inp1 c1 s1)"
        using Cons.prems(2-) step by (intro Cons.IH) (auto simp: envs_ok_def dest: served_roles)
      then show ?thesis
        using outcome_append [OF step(2)] Some q co step(1,3) by simp
    qed
  qed
qed

text \<open>
  C33. The cutting of the byte stream does not matter: let a client send complete requests and the
  beginning of a further one, and let the network deliver these bytes in pieces of any size, with
  pauses, growth of the receive buffer and possibly a disconnect in between. Then every request
  is answered at most once and in order, each on the state its predecessors left, the bytes
  passed to \<open>send\<close> are the replies in order, and as long as the connection is open exactly the
  unanswered bytes are in the receive buffer or still pending; when all bytes have been received,
  all requests have been answered. Only a fault in a request itself ends the coroutine.
\<close>

theorem fragmentation_irrelevant:
  assumes "client_start (Some mem) True = Some c" and "\<forall>a\<in>set (part # as). sized a" and "k < length (resp_encode part)"
    and "conn_roles s fd \<noteq> CONN_MASTER" and "\<forall>env\<in>set envs. envs_ok as env"
    and "inp = requests as @ take k (resp_encode part)"
  shows "case client_run fd envs inp c s of
      None \<Rightarrow> \<exists>bs a ds rs s1. as = bs @ a # ds \<and> served fd bs rs s s1 \<and> faults fd a s1
    | Some (co, inp', out, s') \<Rightarrow>
        \<exists>bs ds rs s1. as = bs @ ds \<and> served fd bs rs s s1 \<and> out = concat (map reply_text rs) \<and> view s' = view s1 \<and>
          (\<forall>c'. co = Some c' \<longrightarrow> s' = s1 \<and>
             take (c_rlength c') (c_rbuffer c') @ inp' = requests ds @ take k (resp_encode part) \<and>
             (inp' = [] \<longrightarrow> ds = []))"
proof -
  have inv: "conn_inv as (take k (resp_encode part)) inp c"
    using assms(1,6) by (auto simp: client_start_def conn_inv_def INIT_BUFFER_SIZE_def resp_encode_def)
  have run: "outcome fd as (take k (resp_encode part)) s (client_run fd envs inp c s)"
    by (rule client_run_ok [OF inv refl assms(3,2,4,5)])
  have all_served: "ds = []" if "conn_inv ds (take k (resp_encode part)) [] c'" for ds c'
  proof (rule ccontr)
    assume "ds \<noteq> []"
    then have "c_rlength c' < length (requests ds)"
      using that by (cases ds) (auto simp: conn_inv_def)
    moreover have "length (take (c_rlength c') (c_rbuffer c')) = length (requests ds @ take k (resp_encode part))"
      using that by (simp add: conn_inv_def)
    ultimately show False
      by simp
  qed
  show ?thesis
  proof (cases "client_run fd envs inp c s")
    case None
    with run show ?thesis by (simp add: outcome_def)
  next
    case (Some q)
    obtain co inp' out s' where q: "q = (co, inp', out, s')"
      by (metis prod_cases4)
    with run Some obtain bs ds rs s1 where res: "as = bs @ ds" "served fd bs rs s s1" "out = concat (map reply_text rs)" "view s' = view s1"
      "\<forall>c'. co = Some c' \<longrightarrow> s' = s1 \<and> conn_inv ds (take k (resp_encode part)) inp' c'"
      by (auto simp: outcome_def)
    have "take (c_rlength c') (c_rbuffer c') @ inp' = requests ds @ take k (resp_encode part) \<and> (inp' = [] \<longrightarrow> ds = [])" if "co = Some c'" for c'
      using res(5) that all_served [of ds c'] by (auto simp: conn_inv_def)
    with res show ?thesis
      unfolding Some q option.case prod.case by (intro exI [of _ bs] exI [of _ ds] exI [of _ rs] exI [of _ s1]) simp
  qed
qed


definition cenv_demo :: "nat \<Rightarrow> client_env" where
  "cenv_demo n = \<lparr>ce_grow = Some (\<lambda>_. CHR ''x''), ce_recv = R_data n, ce_envs = (\<lambda>_ _. senv_demo), ce_flush = (0, None, True, True)\<rparr>"

lemma ping_answers: "\<exists>q. answer_request env fd (parsed_request [''PING''] rest) raw server_static = Some q"
proof -
  have "strncasecmp (''PING'' @ crlf @ rest) ''PING'' 4 = 0"
    by (simp add: strncasecmp_def numeral_eq_Suc toupper_def NUL_def)
  then have "named (parsed_request [''PING''] rest) ''PING''"
    by (simp add: named_def numeral_eq_Suc)
  moreover have "network_command fd (parsed_request [''PING''] rest) server_static = Some (False, server_static)"
    by (simp add: network_command_def server_static_def)
  ultimately show ?thesis
    by (simp add: answer_request_def ping_reply_def)
qed

theorem fragmentation_irrelevant_witness:
  "\<exists>co inp' out s' bs ds rs s1. client_run 5 [cenv_demo 3, cenv_demo 100] (requests [[''PING'']] @ take 1 (resp_encode [''GET'']))
      (the (client_start (Some (\<lambda>_. CHR ''x'')) True)) server_static = Some (co, inp', out, s') \<and>
    [[''PING'']] = bs @ ds \<and> served 5 bs rs server_static s1 \<and> out = concat (map reply_text rs)"
proof -
  let ?c = "the (client_start (Some (\<lambda>_. CHR ''x'')) True)"
  let ?run = "client_run 5 [cenv_demo 3, cenv_demo 100] (requests [[''PING'']] @ take 1 (resp_encode [''GET''])) ?c server_static"
  have start: "client_start (Some (\<lambda>_. CHR ''x'')) True = Some ?c"
    by (simp add: client_start_def)
  have ok: "\<forall>a\<in>set [[''GET''], [''PING'']]. sized a" "1 < length (resp_encode [''GET''])"
    "conn_roles server_static 5 \<noteq> CONN_MASTER" "\<forall>env\<in>set [cenv_demo 3, cenv_demo 100]. envs_ok [[''PING'']] env"
    by (simp_all add: sized_def resp_encode_def server_static_def envs_ok_def cenv_demo_def senv_demo_def vectors_ok_def)
  have single: "\<not> ([[''PING'']] = bs @ a # ds \<and> served 5 bs rs server_static s1 \<and> faults 5 a s1)" for bs a ds rs s1
    using ping_answers by (cases bs) (auto simp: faults_def elim!: served_NilE)
  note run = fragmentation_irrelevant [OF start ok refl]
  show ?thesis
  proof (cases ?run)
    case None
    then show ?thesis
      using run single unfolding None option.case by blast
  next
    case (Some q)
    obtain co inp' out s' where "q = (co, inp', out, s')"
      by (metis prod_cases4)
    then show ?thesis
      using run unfolding Some option.case prod.case by blast
  qed
qed

end
