(* ===== verification/Repl_Master.thy ===== *)
theory Repl_Master
  imports Conn_Ntyco Byte_Pipe
begin

text \<open>
  Replication on the master: the coroutine \<open>ntyco_master_repl_send_co\<close> of \<^verbatim>\<open>ntyco.c\<close>, which sends
  the backlog to the replica, and its interplay with the request loop, which fills the backlog.
  The backlog is a byte pipe; the theory shows that the replica is sent exactly the writing
  commands, in order and unchanged.
\<close>

section \<open>Sending\<close>

text \<open>
  The inner loop: \<open>ks\<close> are the states of the socket at the successive calls of \<open>send\<close> (at the end
  of the list the loop is about to make the next call). The result is what was sent, whether the
  replica's socket is still good, and the backlog.
\<close>

fun send_nodes :: "nat \<Rightarrow> socket list \<Rightarrow> repl_backlog \<Rightarrow> bytes \<times> bool \<times> repl_backlog" where
  "send_nodes sent_count [] b = ([], True, b)"
| "send_nodes sent_count (k # ks) b =
     (if g_repl_backlog_count b > 0 \<and> sent_count < 100 then
        let head = g_repl_backlog_head b; node = g_repl_backlog b head
        in (case sock_send k node of
              (sent, again, out) \<Rightarrow>
                if sent > 0 then
                  if nat sent = length node then
                    (case send_nodes (Suc sent_count) ks
                        (b\<lparr>g_repl_backlog_head := (head + 1) mod REPL_BACKLOG_MAX,
                           g_repl_backlog_count := g_repl_backlog_count b - 1\<rparr>) of
                       (out', alive, b') \<Rightarrow> (out @ out', alive, b'))
                  else (out, True, b\<lparr>g_repl_backlog := (g_repl_backlog b)(head := drop (nat sent) node)\<rparr>)
                else if sent < 0 then ([], again, b)
                else send_nodes sent_count ks b)
      else ([], True, b))"

definition repl_send_round :: "socket list \<Rightarrow> kvs_server \<Rightarrow> bytes \<times> kvs_server" where
  "repl_send_round ks s =
     (if g_slave_fd s > 0 \<and> g_repl_backlog_count (g_backlog s) > 0 then
        (case send_nodes 0 ks (g_backlog s) of
           (out, alive, b) \<Rightarrow>
             (out, if alive then s\<lparr>g_backlog := b\<rparr>
                   else (ntyco_close_and_free_connection (g_slave_fd s) (s\<lparr>g_backlog := b\<rparr>))\<lparr>g_slave_fd := -1\<rparr>))
      else ([], s))"

section \<open>The backlog is a pipe\<close>

definition backlog_ok :: "repl_backlog \<Rightarrow> bool" where
  "backlog_ok b \<longleftrightarrow> g_repl_backlog_head b < REPL_BACKLOG_MAX \<and> g_repl_backlog_count b \<le> REPL_BACKLOG_MAX \<and>
     g_repl_backlog_tail b = (g_repl_backlog_head b + g_repl_backlog_count b) mod REPL_BACKLOG_MAX"

definition backlog_nodes :: "repl_backlog \<Rightarrow> bytes list" where
  "backlog_nodes b = map (\<lambda>i. g_repl_backlog b ((g_repl_backlog_head b + i) mod REPL_BACKLOG_MAX)) [0..<g_repl_backlog_count b]"

abbreviation backlog_bytes :: "repl_backlog \<Rightarrow> bytes" where
  "backlog_bytes b \<equiv> concat (backlog_nodes b)"

lemma max_pos: "0 < REPL_BACKLOG_MAX"
  by (simp add: REPL_BACKLOG_MAX_def)

lemma nodes_cong:
  assumes "g_repl_backlog_head b' = g_repl_backlog_head b" and "g_repl_backlog_count b' = n"
    and "\<And>i. i < n \<Longrightarrow> g_repl_backlog b' ((g_repl_backlog_head b + i) mod REPL_BACKLOG_MAX) =
      g_repl_backlog b ((g_repl_backlog_head b + i) mod REPL_BACKLOG_MAX)"
  shows "backlog_nodes b' = map (\<lambda>i. g_repl_backlog b ((g_repl_backlog_head b + i) mod REPL_BACKLOG_MAX)) [0..<n]"
  using assms by (simp add: backlog_nodes_def)

lemma backlog_push_ok:
  assumes "backlog_ok b"
  shows "backlog_ok (backlog_push d b)"
    and "backlog_nodes (backlog_push d b) = backlog_nodes b @ (if g_repl_backlog_count b < REPL_BACKLOG_MAX then [d] else [])"
proof -
  let ?h = "g_repl_backlog_head b" and ?c = "g_repl_backlog_count b" and ?M = REPL_BACKLOG_MAX
  have other: "(?h + i) mod ?M \<noteq> (?h + ?c) mod ?M" if "i < ?c" "?c < ?M" for i
  proof
    assume "(?h + i) mod ?M = (?h + ?c) mod ?M"
    then have "?M dvd ?c - i"
      using mod_eq_dvd_iff_nat [of "?h + i" "?h + ?c" ?M] that by auto
    then show False
      using that by (auto dest: dvd_imp_le)
  qed
  show "backlog_ok (backlog_push d b)"
    using assms by (auto simp: backlog_ok_def backlog_push_def mod_Suc_eq)
  show "backlog_nodes (backlog_push d b) = backlog_nodes b @ (if ?c < ?M then [d] else [])"
    using assms other by (auto simp: backlog_nodes_def backlog_push_def backlog_ok_def)
qed

text \<open>The first node.\<close>

lemma nodes_first:
  assumes "g_repl_backlog_count b > 0" and "backlog_ok b"
  shows "backlog_nodes b = g_repl_backlog b (g_repl_backlog_head b) #
    backlog_nodes (b\<lparr>g_repl_backlog_head := (g_repl_backlog_head b + 1) mod REPL_BACKLOG_MAX,
      g_repl_backlog_count := g_repl_backlog_count b - 1\<rparr>)"
proof -
  obtain n where n: "g_repl_backlog_count b = Suc n"
    using assms(1) by (cases "g_repl_backlog_count b") simp_all
  have "[0..<Suc n] = 0 # map Suc [0..<n]"
    by (simp add: upt_conv_Cons map_Suc_upt del: upt_Suc)
  then show ?thesis
    using assms(2) by (simp add: backlog_nodes_def n backlog_ok_def mod_add_left_eq del: upt_Suc)
qed

lemma backlog_pop_ok:
  assumes "g_repl_backlog_count b > 0" and "backlog_ok b"
  shows "backlog_ok (b\<lparr>g_repl_backlog_head := (g_repl_backlog_head b + 1) mod REPL_BACKLOG_MAX,
      g_repl_backlog_count := g_repl_backlog_count b - 1\<rparr>)"
proof -
  obtain n where "g_repl_backlog_count b = Suc n"
    using assms(1) by (cases "g_repl_backlog_count b") simp_all
  then show ?thesis
    using assms(2) max_pos by (simp add: backlog_ok_def mod_add_left_eq)
qed

lemma node_cut:
  assumes "g_repl_backlog_count b > 0" and "backlog_ok b" and "x = g_repl_backlog b (g_repl_backlog_head b)"
  shows "backlog_ok (b\<lparr>g_repl_backlog := (g_repl_backlog b)(g_repl_backlog_head b := y)\<rparr>)"
    and "backlog_nodes (b\<lparr>g_repl_backlog := (g_repl_backlog b)(g_repl_backlog_head b := y)\<rparr>) = y # tl (backlog_nodes b)"
proof -
  let ?h = "g_repl_backlog_head b" and ?c = "g_repl_backlog_count b" and ?M = REPL_BACKLOG_MAX
  have other: "(?h + i) mod ?M \<noteq> ?h" if "0 < i" "i < ?c" for i
  proof
    assume "(?h + i) mod ?M = ?h"
    then have "?M dvd i"
      using assms(2) mod_eq_dvd_iff_nat [of ?h "?h + i" ?M] by (auto simp: backlog_ok_def)
    then show False
      using that assms(2) by (auto simp: backlog_ok_def dest: dvd_imp_le)
  qed
  show "backlog_ok (b\<lparr>g_repl_backlog := (g_repl_backlog b)(?h := y)\<rparr>)"
    using assms(2) by (simp add: backlog_ok_def)
  show "backlog_nodes (b\<lparr>g_repl_backlog := (g_repl_backlog b)(?h := y)\<rparr>) = y # tl (backlog_nodes b)"
    using assms(1,2) other other [of "Suc j" for j]
    by (rule_tac nth_equalityI) (auto simp: backlog_nodes_def backlog_ok_def nth_Cons nth_tl split: nat.split)
qed

lemma send_nodes_ok:
  assumes "backlog_ok b" and "send_nodes n ks b = (out, alive, b')"
  shows "backlog_ok b' \<and> backlog_bytes b = out @ backlog_bytes b' \<and> g_repl_backlog_count b' \<le> g_repl_backlog_count b"
  using assms
proof (induction ks arbitrary: n b out)
  case (Cons k ks)
  let ?h = "g_repl_backlog_head b" and ?x = "g_repl_backlog b (g_repl_backlog_head b)"
  show ?case
  proof (cases "g_repl_backlog_count b > 0 \<and> n < 100")
    case True
    note first = nodes_first [OF _ Cons.prems(1)] backlog_pop_ok [OF _ Cons.prems(1)] node_cut [OF _ Cons.prems(1) refl]
    obtain sent again taken where send: "sock_send k ?x = (sent, again, taken)"
      by (metis prod_cases3)
    consider "sent > 0" "nat sent = length ?x" | "sent > 0" "nat sent \<noteq> length ?x" | "sent < 0" | "sent = 0"
      by linarith
    then show ?thesis
    proof cases
      case 1
      have "taken = ?x"
        using sock_send_pos [OF send 1(1)] 1(2) by simp
      then show ?thesis
        using Cons.IH [OF first(2)] Cons.prems(2) True send 1 first(1)
        by (fastforce simp: Let_def split: prod.splits)
    next
      case 2
      have "taken = take (nat sent) ?x"
        using sock_send_pos [OF send 2(1)] by simp
      then show ?thesis
        using Cons.prems(2) True send 2 first(1,3,4) by (auto simp: Let_def)
    next
      case 3
      then show ?thesis
        using Cons.prems True send by (auto simp: Let_def)
    next
      case 4
      then show ?thesis
        using Cons.IH [OF Cons.prems(1), of n] Cons.prems True send by (auto simp: Let_def)
    qed
  qed (use Cons.prems in auto)
qed auto


definition backlog_put :: "unit \<Rightarrow> bytes \<Rightarrow> repl_backlog \<Rightarrow> repl_backlog option" where
  "backlog_put u d b = Some (backlog_push d b)"

definition backlog_takes :: "unit \<Rightarrow> bytes \<Rightarrow> repl_backlog \<Rightarrow> bool" where
  "backlog_takes u d b \<longleftrightarrow> g_repl_backlog_count b < REPL_BACKLOG_MAX"

definition backlog_get :: "socket list \<Rightarrow> repl_backlog \<Rightarrow> bytes \<times> repl_backlog" where
  "backlog_get ks b = (case send_nodes 0 ks b of (out, alive, b') \<Rightarrow> (out, b'))"

interpretation bkl: byte_pipe backlog_ok backlog_bytes backlog_put backlog_takes backlog_get
proof
  fix b :: repl_backlog and u d
  assume "backlog_ok b"
  then show "\<exists>b'. backlog_put u d b = Some b' \<and> backlog_ok b' \<and> backlog_bytes b' = backlog_bytes b @ (if backlog_takes u d b then d else [])"
    using backlog_push_ok [of b d] by (simp add: backlog_put_def backlog_takes_def)
next
  fix b b' :: repl_backlog and ks out
  assume "backlog_ok b" and "backlog_get ks b = (out, b')"
  then show "backlog_ok b' \<and> backlog_bytes b = out @ backlog_bytes b'"
    using send_nodes_ok [of b 0 ks out _ b'] by (auto simp: backlog_get_def split: prod.splits)
qed

section \<open>The master\<close>

text \<open>The part of the state that decides about replication.\<close>

definition repl_state :: "kvs_server \<Rightarrow> repl_backlog \<times> bool \<times> int \<times> bool" where
  "repl_state s = (g_backlog s, g_repl_backlog_enabled s, g_slave_fd s, g_sync_file_done s)"

lemma run_proc_repl:
  assumes "run_proc p env req s = Some (r, s')" and "p \<noteq> P_sys_sync" and "p \<noteq> P_sys_sync_done"
  shows "repl_state s' = repl_state s"
  using assms unfolding repl_state_def
  by (cases p)
    (auto simp: array_defs rbtree_defs hash_defs skip_defs context_defs index_defs system_defs
      with_key_def with_key_value_def Let_def split: if_splits prod.splits option.splits)

lemma sync_names: "\<forall>c\<in>set g_cmd_table. (cproc c = P_sys_sync \<longrightarrow> cname c = ''SYNC'') \<and> (cproc c = P_sys_sync_done \<longrightarrow> cname c = ''SYNC_DONE'')"
  by code_simp

text \<open>Commands that control the synchronisation.\<close>

definition sync_command :: "bytes list \<Rightarrow> bool" where
  "sync_command a \<longleftrightarrow> cmd_name a \<in> {''SYNC'', ''SYNC_DONE'', ''RDMA_CONNECT''}"

lemma execute_repl:
  assumes "kvs_execute_batch env (request_command (parsed_request a rest)) (parsed_request a rest) s = Some (r, s')"
    and "\<not> sync_command a"
  shows "repl_state s' = repl_state s \<and> modes s' = modes s"
proof (cases "request_command (parsed_request a rest)")
  case None
  then show ?thesis
    using assms(1) by (simp add: kvs_execute_batch_def)
next
  case (Some c)
  then have "c \<in> set g_cmd_table" "cname c = cmd_name a"
    by (auto simp: request_command_parsed dest!: find_SomeD)
  then have "cproc c \<noteq> P_sys_sync" "cproc c \<noteq> P_sys_sync_done"
    using sync_names assms(2) by (auto simp: sync_command_def)
  then show ?thesis
    using assms(1) Some run_proc_repl execute_settings [OF assms(1)] by (auto simp: kvs_execute_batch_def settings_def split: if_splits)
qed

lemma network_quiet:
  assumes "\<not> sync_command a"
  shows "network_command fd (parsed_request a rest) s = Some (False, s)"
proof -
  have "\<not> named (parsed_request a rest) n" if "n \<in> {''RDMA_CONNECT'', ''SYNC''}" for n
  proof -
    have "NUL \<notin> set n \<and> map toupper n = n \<and> n \<noteq> []"
      using that by (elim insertE emptyE) (hypsubst, code_simp)+
    then show ?thesis
      using assms that by (subst named_parsed) (auto simp: sync_command_def)
  qed
  then show ?thesis
    by (simp add: network_command_def)
qed

text \<open>One request: a writing command is appended to the backlog, the others leave it alone.\<close>

lemma answer_repl:
  assumes "answer_request env fd (parsed_request a rest) (resp_encode a) s = Some (r, s')" and "\<not> sync_command a"
    and "replicating s" and "backlog_ok (g_backlog s)"
    and "g_repl_backlog_count (g_backlog s) + length (logged [a]) \<le> REPL_BACKLOG_MAX"
  shows "replicating s' \<and> backlog_ok (g_backlog s') \<and> backlog_bytes (g_backlog s') = backlog_bytes (g_backlog s) @ requests (logged [a]) \<and>
    g_repl_backlog_count (g_backlog s') = g_repl_backlog_count (g_backlog s) + length (logged [a])"
proof (cases "cmd_name a \<in> set write_names")
  case True
  then obtain s2 where s2: "log_and_replicate (se_aof env) (se_backlog env) (resp_encode a) s = Some s2"
    and ex: "repl_state s' = repl_state s2" "modes s' = modes s2"
    using assms(1) execute_repl [OF _ assms(2)] by (fastforce simp: answer_write split: option.splits)
  have room: "g_repl_backlog_count (g_backlog s) < REPL_BACKLOG_MAX"
    using assms(5) True by simp
  have "g_backlog s2 = backlog_push (resp_encode a) (g_backlog s)" "replicating s2"
    using s2 assms(3) room by (auto simp: log_and_replicate_def replicating_def Let_def split: option.splits if_splits)
  moreover have "replicating s' = replicating s2" "g_backlog s' = g_backlog s2"
    using ex by (simp_all add: repl_state_def replicating_def modes_def)
  moreover have "g_repl_backlog_count (backlog_push (resp_encode a) (g_backlog s)) = g_repl_backlog_count (g_backlog s) + 1"
    using room by (simp add: backlog_push_def)
  ultimately show ?thesis
    using backlog_push_ok [OF assms(4), of "resp_encode a"] room True by simp
next
  case False
  have "\<not> request_writes (parsed_request a rest)"
    using False by (simp add: request_writes_parsed)
  then have "repl_state s' = repl_state s \<and> modes s' = modes s"
    using assms(1) execute_repl [OF _ assms(2)] network_quiet [OF assms(2)] by (auto simp: answer_request_def split: if_splits)
  then show ?thesis
    using assms(3,4) False by (simp add: repl_state_def replicating_def modes_def)
qed


text \<open>
  A run of the master: requests of any connection are answered and the send coroutine is
  activated, in any order. The relation collects what was sent to the replica.
\<close>

datatype master_step = M_answer int "bytes list" | M_send "socket list"

inductive master_run :: "master_step list \<Rightarrow> bytes \<Rightarrow> kvs_server \<Rightarrow> kvs_server \<Rightarrow> bool" where
  run_Nil: "master_run [] [] s s"
| run_answer: "answer_request env fd (parsed_request a rest) (resp_encode a) s = Some (r, s1) \<Longrightarrow> master_run xs out s1 s' \<Longrightarrow>
    master_run (M_answer fd a # xs) out s s'"
| run_send: "repl_send_round ks s = (now, s1) \<Longrightarrow> master_run xs out s1 s' \<Longrightarrow> master_run (M_send ks # xs) (now @ out) s s'"

fun answered :: "master_step list \<Rightarrow> bytes list list" where
  "answered [] = []"
| "answered (M_answer fd a # xs) = a # answered xs"
| "answered (M_send ks # xs) = answered xs"

lemma logged_Cons: "logged (a # as) = logged [a] @ logged as"
  by simp

lemma send_nodes_alive: "Broken \<notin> set ks \<Longrightarrow> fst (snd (send_nodes n ks b))"
proof (induction ks arbitrary: n b)
  case (Cons k ks)
  then show ?case
    by (cases k) (auto simp: Let_def case_prod_unfold)
qed simp

lemma send_round_repl:
  assumes "repl_send_round ks s = (out, s')" and "Broken \<notin> set ks" and "replicating s" and "backlog_ok (g_backlog s)"
  shows "replicating s' \<and> backlog_ok (g_backlog s') \<and> backlog_bytes (g_backlog s) = out @ backlog_bytes (g_backlog s') \<and>
    g_repl_backlog_count (g_backlog s') \<le> g_repl_backlog_count (g_backlog s)"
proof -
  obtain out1 alive b where send: "send_nodes 0 ks (g_backlog s) = (out1, alive, b)"
    by (metis prod_cases3)
  then have alive
    using send_nodes_alive [OF assms(2), of 0 "g_backlog s"] by simp
  then show ?thesis
    using assms(1,3,4) send send_nodes_ok [OF assms(4) send]
    by (auto simp: repl_send_round_def replicating_def split: if_splits)
qed

lemma master_run_ok:
  assumes "master_run xs out s s'" and "replicating s" and "backlog_ok (g_backlog s)"
    and "\<forall>a\<in>set (answered xs). \<not> sync_command a" and "\<forall>ks. M_send ks \<in> set xs \<longrightarrow> Broken \<notin> set ks"
    and "g_repl_backlog_count (g_backlog s) + length (logged (answered xs)) \<le> REPL_BACKLOG_MAX"
  shows "replicating s' \<and> backlog_ok (g_backlog s') \<and>
    out @ backlog_bytes (g_backlog s') = backlog_bytes (g_backlog s) @ requests (logged (answered xs))"
  using assms
proof (induction rule: master_run.induct)
  case (run_answer env fd a rest s r s1 xs out s')
  have room: "g_repl_backlog_count (g_backlog s) + length (logged [a]) + length (logged (answered xs)) \<le> REPL_BACKLOG_MAX"
    using run_answer.prems(5) by (subst (asm) answered.simps, subst (asm) logged_Cons) simp
  have one: "replicating s1" "backlog_ok (g_backlog s1)" "backlog_bytes (g_backlog s1) = backlog_bytes (g_backlog s) @ requests (logged [a])"
    "g_repl_backlog_count (g_backlog s1) = g_repl_backlog_count (g_backlog s) + length (logged [a])"
    using answer_repl [OF run_answer.hyps(1) _ run_answer.prems(1,2)] run_answer.prems(3) room by auto
  then have "replicating s' \<and> backlog_ok (g_backlog s') \<and>
    out @ backlog_bytes (g_backlog s') = backlog_bytes (g_backlog s1) @ requests (logged (answered xs))"
    using run_answer.prems(3,4) room by (intro run_answer.IH) auto
  then show ?case
    using one(3) by (simp only: answered.simps logged_Cons [of a "answered xs"] requests_simps append_assoc)
next
  case (run_send ks s now s1 xs out s')
  have one: "replicating s1" "backlog_ok (g_backlog s1)" "backlog_bytes (g_backlog s) = now @ backlog_bytes (g_backlog s1)"
    "g_repl_backlog_count (g_backlog s1) \<le> g_repl_backlog_count (g_backlog s)"
    using send_round_repl [OF run_send.hyps(1) _ run_send.prems(1,2)] run_send.prems(4) by auto
  have "replicating s' \<and> backlog_ok (g_backlog s') \<and>
    out @ backlog_bytes (g_backlog s') = backlog_bytes (g_backlog s1) @ requests (logged (answered xs))"
    using one run_send.prems(3-5) by (intro run_send.IH) auto
  then show ?case
    using one(3) by simp
qed simp

text \<open>
  C34. The replica is sent the log: while a replica is attached, whatever requests are answered and
  whenever the send coroutine runs in between, with sockets that take everything, something or
  nothing, what the replica has been sent followed by the backlog is the former backlog followed
  by the original bytes of the writing commands, in order and complete. The hypotheses are that
  the backlog's 100000 slots suffice, that no socket error occurs and that none of the requests is
  a synchronisation command.
\<close>

theorem replica_gets_writes:
  assumes "master_run xs out s s'" and "replicating s" and "backlog_ok (g_backlog s)"
    and "\<forall>a\<in>set (answered xs). \<not> sync_command a" and "\<forall>ks. M_send ks \<in> set xs \<longrightarrow> Broken \<notin> set ks"
    and "g_repl_backlog_count (g_backlog s) + length (logged (answered xs)) \<le> REPL_BACKLOG_MAX"
  shows "out @ backlog_bytes (g_backlog s') = backlog_bytes (g_backlog s) @ requests (logged (answered xs))"
  using master_run_ok [OF assms] by blast

definition master_demo :: kvs_server where
  "master_demo = server_wal\<lparr>g_enable_repl_master := True, g_slave_fd := 9, g_repl_backlog_enabled := True\<rparr>"

lemma master_demo_ok: "replicating master_demo" "backlog_ok (g_backlog master_demo)" "backlog_nodes (g_backlog master_demo) = []"
  "g_repl_backlog_count (g_backlog master_demo) = 0"
  by (simp_all add: master_demo_def server_wal_def server_demo_def create_engines_def server_static_def replicating_def
      backlog_static_def backlog_ok_def backlog_nodes_def REPL_BACKLOG_MAX_def)

lemma master_demo_answers:
  "\<exists>r s1. answer_request senv_demo 5 (parsed_request sset_demo []) (resp_encode sset_demo) master_demo = Some (r, s1)"
proof -
  have aof: "g_aof master_demo = g_aof server_wal" "logging_on master_demo"
    by (simp_all add: master_demo_def logging_on_def)
  have "\<exists>a. kvs_persistence_write [] (resp_encode sset_demo) (g_aof master_demo) = Some a"
    unfolding aof using server_wal_ok(9) sset_demo_length(1)
    by (simp add: kvs_persistence_write_def aof_make_room.simps [of "[]"] AOF_BUF_SIZE_def)
  then have "\<exists>s2. log_and_replicate [] True (resp_encode sset_demo) master_demo = Some s2 \<and> global_skip s2 = global_skip server_wal \<and>
    g_enable_ttl s2 = g_enable_ttl server_wal"
    using aof(2) by (auto simp: log_and_replicate_def Let_def master_demo_def)
  then obtain s2 where s2: "log_and_replicate [] True (resp_encode sset_demo) master_demo = Some s2" "global_skip s2 = global_skip server_wal"
    "g_enable_ttl s2 = g_enable_ttl server_wal"
    by blast
  then obtain s' where "kvs_execute_batch env_demo (request_command (parsed_request sset_demo [])) (parsed_request sset_demo []) s2 =
      Some (rep KVS_RESP_OK, s')"
    using sset_demo_executes [of s2 "[]"] server_wal_ok(1,3) by auto
  then show ?thesis
    using s2(1) sset_demo_name by (simp add: answer_write senv_demo_def)
qed

theorem replica_gets_writes_witness:
  "\<exists>out s'. master_run [M_answer 5 sset_demo, M_send [Room 3, Room 100]] out master_demo s' \<and>
    out @ backlog_bytes (g_backlog s') = resp_encode sset_demo"
proof -
  obtain r s1 where s1: "answer_request senv_demo 5 (parsed_request sset_demo []) (resp_encode sset_demo) master_demo = Some (r, s1)"
    using master_demo_answers by blast
  obtain now s2 where s2: "repl_send_round [Room 3, Room 100] s1 = (now, s2)"
    by (cases "repl_send_round [Room 3, Room 100] s1")
  let ?xs = "[M_answer 5 sset_demo, M_send [Room 3, Room 100]]"
  have run: "master_run ?xs (now @ []) master_demo s2"
    by (intro run_answer [OF s1] run_send [OF s2] run_Nil)
  have "\<forall>a\<in>set (answered ?xs). \<not> sync_command a" "logged (answered ?xs) = [sset_demo]"
    using sset_demo_name by (simp_all add: sync_command_def)
  moreover have "\<forall>ks. M_send ks \<in> set ?xs \<longrightarrow> Broken \<notin> set ks"
    by auto
  ultimately have "(now @ []) @ backlog_bytes (g_backlog s2) = resp_encode sset_demo"
    using replica_gets_writes [OF run master_demo_ok(1,2)] master_demo_ok(3,4) by (simp add: REPL_BACKLOG_MAX_def)
  with run show ?thesis by blast
qed

end
