(* ===== verification/Server_Config.thy ===== *)
theory Server_Config
  imports Kvs_Libc
begin

text \<open>
  The configuration file (\<^verbatim>\<open>config.c\<close>): reading lines with \<open>fgets\<close> into a buffer of 256 bytes,
  splitting them with \<open>sscanf("%63s %63s")\<close>, and the values of the keys. The theory gives the
  value of every field for an arbitrary file: the last line that sets the key decides, and the
  value is always one of the documented ones.
\<close>

record server_config =
  cfg_port :: int
  cfg_persistence :: int
  cfg_snapshot :: int
  cfg_expire :: int
  cfg_mempool :: int
  cfg_replication :: int
  cfg_transport :: int
  cfg_embedding :: int

definition parse_persistence :: "bytes \<Rightarrow> int" where
  "parse_persistence val = (if val = ''ON'' then 1 else 0)"

definition parse_onoff :: "bytes \<Rightarrow> int" where
  "parse_onoff val = (if val = ''ON'' then 1 else 0)"

definition parse_replication :: "bytes \<Rightarrow> int" where
  "parse_replication val = (if val = ''MASTER'' then 1 else if val = ''SLAVE'' then 2 else 0)"

definition parse_transport :: "bytes \<Rightarrow> int" where
  "parse_transport val = (if val = ''RDMA'' then 1 else if val = ''TCP'' then 2 else 0)"

section \<open>Reading\<close>

definition NL :: char where
  "NL = CHR 0x0A"

text \<open>\<open>fgets(line, 256, fp)\<close>: up to and including a newline, at most 255 bytes.\<close>

definition fgets_line :: "bytes \<Rightarrow> bytes" where
  "fgets_line xs = take 255 (takeWhile (\<lambda>c. c \<noteq> NL) xs @ take 1 (dropWhile (\<lambda>c. c \<noteq> NL) xs))"

lemma fgets_progress: "xs \<noteq> [] \<Longrightarrow> 0 < length (fgets_line xs)"
  by (cases xs) (auto simp: fgets_line_def)

function file_lines :: "bytes \<Rightarrow> bytes list" where
  "file_lines xs = (if xs = [] then [] else fgets_line xs # file_lines (drop (length (fgets_line xs)) xs))"
  by pat_completeness auto
termination
  by (relation "measure length") (use fgets_progress in auto)

declare file_lines.simps [simp del]

text \<open>\<open>%63s\<close>: white space is skipped, then up to 63 other bytes are read.\<close>

definition scan_token :: "bytes \<Rightarrow> (bytes \<times> bytes) option" where
  "scan_token s =
     (let s1 = dropWhile is_space s; t = take 63 (takeWhile (\<lambda>c. \<not> is_space c) s1)
      in if t = [] then None else Some (t, drop (length t) s1))"

text \<open>The two words of a line, if it is no comment and has them; a NUL byte ends the string.\<close>

definition config_words :: "bytes \<Rightarrow> (bytes \<times> bytes) option" where
  "config_words line =
     (if line ! 0 = CHR ''#'' \<or> line ! 0 = NL \<or> line ! 0 = CHR 0x0D then None
      else case scan_token (takeWhile (\<lambda>c. c \<noteq> NUL) line) of
        None \<Rightarrow> None
      | Some (key, rest) \<Rightarrow> (case scan_token rest of None \<Rightarrow> None | Some (val, _) \<Rightarrow> Some (key, val)))"

fun config_set :: "bytes \<times> bytes \<Rightarrow> server_config \<Rightarrow> server_config" where
  "config_set (key, val) cfg =
     (let cfg = (if key = ''port'' then cfg\<lparr>cfg_port := atoi val\<rparr> else cfg);
          cfg = (if key = ''persistence'' then cfg\<lparr>cfg_persistence := parse_persistence val\<rparr> else cfg);
          cfg = (if key = ''snapshot'' then cfg\<lparr>cfg_snapshot := parse_onoff val\<rparr> else cfg);
          cfg = (if key = ''expire'' then cfg\<lparr>cfg_expire := parse_onoff val\<rparr> else cfg);
          cfg = (if key = ''mempool'' then cfg\<lparr>cfg_mempool := parse_onoff val\<rparr> else cfg);
          cfg = (if key = ''replication'' then cfg\<lparr>cfg_replication := parse_replication val\<rparr> else cfg);
          cfg = (if key = ''transport'' then cfg\<lparr>cfg_transport := parse_transport val\<rparr> else cfg)
      in if key = ''embedding'' then cfg\<lparr>cfg_embedding := parse_onoff val\<rparr> else cfg)"

definition config_line :: "bytes \<Rightarrow> server_config \<Rightarrow> server_config" where
  "config_line line cfg = (case config_words line of None \<Rightarrow> cfg | Some kv \<Rightarrow> config_set kv cfg)"

definition config_default :: server_config where
  "config_default = \<lparr>cfg_port = 2000, cfg_persistence = 0, cfg_snapshot = 0, cfg_expire = 0, cfg_mempool = 0,
     cfg_replication = 0, cfg_transport = 0, cfg_embedding = 1\<rparr>"

text \<open>\<open>None\<close>: the file cannot be opened.\<close>

definition load_config :: "bytes option \<Rightarrow> int \<times> server_config" where
  "load_config file =
     (case file of
        None \<Rightarrow> (-1, config_default)
      | Some f \<Rightarrow> (0, fold config_line (file_lines f) config_default))"

section \<open>Values\<close>

text \<open>The settings of a file in order, and the last value of a key.\<close>

definition config_settings :: "bytes \<Rightarrow> (bytes \<times> bytes) list" where
  "config_settings f = List.map_filter config_words (file_lines f)"

definition last_value :: "bytes \<Rightarrow> (bytes \<times> bytes) list \<Rightarrow> bytes option" where
  "last_value key kvs = map_of (rev kvs) key"

lemma last_value_snoc: "last_value key (kvs @ [(k, v)]) = (if k = key then Some v else last_value key kvs)"
  by (simp add: last_value_def)

definition value_or :: "(bytes \<Rightarrow> int) \<Rightarrow> int \<Rightarrow> bytes option \<Rightarrow> int" where
  "value_or parse d v = (case v of None \<Rightarrow> d | Some x \<Rightarrow> parse x)"

lemma fold_config_lines: "fold config_line ls cfg = fold config_set (List.map_filter config_words ls) cfg"
  by (induction ls arbitrary: cfg) (auto simp: config_line_def List.map_filter_def split: option.split)

text \<open>A conditional update as an update of one field.\<close>

lemma update_if:
  "(if b then c\<lparr>cfg_port := x\<rparr> else c) = c\<lparr>cfg_port := if b then x else cfg_port c\<rparr>"
  "(if b then c\<lparr>cfg_persistence := x\<rparr> else c) = c\<lparr>cfg_persistence := if b then x else cfg_persistence c\<rparr>"
  "(if b then c\<lparr>cfg_snapshot := x\<rparr> else c) = c\<lparr>cfg_snapshot := if b then x else cfg_snapshot c\<rparr>"
  "(if b then c\<lparr>cfg_expire := x\<rparr> else c) = c\<lparr>cfg_expire := if b then x else cfg_expire c\<rparr>"
  "(if b then c\<lparr>cfg_mempool := x\<rparr> else c) = c\<lparr>cfg_mempool := if b then x else cfg_mempool c\<rparr>"
  "(if b then c\<lparr>cfg_replication := x\<rparr> else c) = c\<lparr>cfg_replication := if b then x else cfg_replication c\<rparr>"
  "(if b then c\<lparr>cfg_transport := x\<rparr> else c) = c\<lparr>cfg_transport := if b then x else cfg_transport c\<rparr>"
  "(if b then c\<lparr>cfg_embedding := x\<rparr> else c) = c\<lparr>cfg_embedding := if b then x else cfg_embedding c\<rparr>"
  by simp_all

lemma config_set_fields:
  "cfg_port (config_set (k, v) c) = (if k = ''port'' then atoi v else cfg_port c)"
  "cfg_persistence (config_set (k, v) c) = (if k = ''persistence'' then parse_persistence v else cfg_persistence c)"
  "cfg_snapshot (config_set (k, v) c) = (if k = ''snapshot'' then parse_onoff v else cfg_snapshot c)"
  "cfg_expire (config_set (k, v) c) = (if k = ''expire'' then parse_onoff v else cfg_expire c)"
  "cfg_mempool (config_set (k, v) c) = (if k = ''mempool'' then parse_onoff v else cfg_mempool c)"
  "cfg_replication (config_set (k, v) c) = (if k = ''replication'' then parse_replication v else cfg_replication c)"
  "cfg_transport (config_set (k, v) c) = (if k = ''transport'' then parse_transport v else cfg_transport c)"
  "cfg_embedding (config_set (k, v) c) = (if k = ''embedding'' then parse_onoff v else cfg_embedding c)"
  unfolding config_set.simps Let_def update_if by simp_all

declare config_set.simps [simp del]

text \<open>The last setting of a key decides about its field.\<close>

lemma fold_field:
  assumes "\<And>k v c. f (config_set (k, v) c) = (if k = key then parse v else f c)"
  shows "f (fold config_set kvs c) = value_or parse (f c) (last_value key kvs)"
proof (induction kvs rule: rev_induct)
  case Nil
  then show ?case by (simp add: value_or_def last_value_def)
next
  case (snoc kv kvs)
  then show ?case by (cases kv) (simp add: assms last_value_snoc value_or_def)
qed

lemmas config_fields = fold_field [of cfg_port, OF config_set_fields(1)] fold_field [of cfg_persistence, OF config_set_fields(2)]
  fold_field [of cfg_snapshot, OF config_set_fields(3)] fold_field [of cfg_expire, OF config_set_fields(4)]
  fold_field [of cfg_mempool, OF config_set_fields(5)] fold_field [of cfg_replication, OF config_set_fields(6)]
  fold_field [of cfg_transport, OF config_set_fields(7)] fold_field [of cfg_embedding, OF config_set_fields(8)]

text \<open>The values the rest of the program expects.\<close>

definition config_ok :: "server_config \<Rightarrow> bool" where
  "config_ok cfg \<longleftrightarrow> - (2 ^ 31) \<le> cfg_port cfg \<and> cfg_port cfg < 2 ^ 31 \<and> cfg_persistence cfg \<in> {0, 1} \<and> cfg_snapshot cfg \<in> {0, 1} \<and>
     cfg_expire cfg \<in> {0, 1} \<and> cfg_mempool cfg \<in> {0, 1} \<and> cfg_replication cfg \<in> {0, 1, 2} \<and> cfg_transport cfg \<in> {0, 1, 2} \<and>
     cfg_embedding cfg \<in> {0, 1}"

lemma atoi_range: "- (2 ^ 31) \<le> atoi s \<and> atoi s < 2 ^ 31"
  unfolding atoi_def by (rule i32_bounds)

lemma value_or_in: "d \<in> A \<Longrightarrow> (\<And>x. parse x \<in> A) \<Longrightarrow> value_or parse d v \<in> A"
  by (simp add: value_or_def split: option.split)

lemma load_config_fields:
  "snd (load_config (Some f)) = fold config_set (config_settings f) config_default"
  by (simp add: load_config_def fold_config_lines config_settings_def)

lemma load_config_ok: "config_ok (snd (load_config file))"
proof -
  have parsers: "parse_persistence x \<in> {0, 1}" "parse_onoff x \<in> {0, 1}" "parse_replication x \<in> {0, 1, 2}" "parse_transport x \<in> {0, 1, 2}"
    for x
    by (simp_all add: parse_persistence_def parse_onoff_def parse_replication_def parse_transport_def)
  have all: "config_ok (fold config_set kvs config_default)" for kvs
    unfolding config_ok_def config_fields config_default_def server_config.simps
    using atoi_range by (intro conjI value_or_in parsers) (simp_all add: value_or_def split: option.split)
  show ?thesis
  proof (cases "file")
    case None
    with all [of "[]"] show ?thesis by (simp add: load_config_def)
  next
    case (Some f)
    with all show ?thesis by (simp add: load_config_fields)
  qed
qed

end
