(* ===== verification/Server_Main.thy ===== *)
theory Server_Main
  imports Snapshot Resp_Recover Server_Config
begin

text \<open>
  The start and the end of the server (\<^verbatim>\<open>server.c\<close>): \<open>main\<close> up to the network loop, \<open>init_kvengine\<close> and
  \<open>dest_kvengine\<close>. The theory composes the configuration, the memory pool, the engines, the snapshot
  and the replay of the log.
\<close>

section \<open>State\<close>

text \<open>
  The variables of \<open>main\<close> beyond those of \<open>kvs_server\<close>, and the snapshot file; \<open>g_aof\<close> has the
  contents of the log file.
\<close>

record server_process =
  g_enable_snapshot :: bool
  g_use_rdma_sync :: bool
  g_use_embedding :: int
  g_expire_running :: bool
  snapshot_file :: "bytes option"
  core :: kvs_server

text \<open>The assignments of \<open>main\<close>; \<open>g_enable_ttl\<close> and \<open>g_enable_mempool\<close> are used as truth values only.\<close>

definition apply_config :: "server_config \<Rightarrow> server_process \<Rightarrow> server_process" where
  "apply_config cfg p =
     p\<lparr>core := (core p)\<lparr>g_enable_persistence := cfg_persistence cfg = 1, g_enable_ttl := cfg_expire cfg \<noteq> 0,
          g_enable_mempool := cfg_mempool cfg \<noteq> 0, g_enable_repl_master := cfg_replication cfg = 1,
          g_enable_repl_slave := cfg_replication cfg = 2, g_use_tcp_sync := cfg_transport cfg = 2\<rparr>,
       g_enable_snapshot := cfg_snapshot cfg = 1, g_use_rdma_sync := cfg_transport cfg = 1,
       g_use_embedding := cfg_embedding cfg\<rparr>"

section \<open>Start\<close>

text \<open>
  What the start takes from outside: the outcomes of the pool's page allocations, of the creation
  of the engines, of the system calls of \<open>kvs_snapshot_load\<close>, \<open>kvs_persistence_init\<close> and
  \<open>kvs_persistence_recover\<close>, of \<open>pthread_create\<close> and of \<open>rdma_ring_init\<close>.
\<close>

record boot_env =
  b_pool :: "nat \<Rightarrow> bool"
  b_create :: alloc_env
  b_load :: load_io
  b_open :: bool
  b_stat :: bool
  b_ring :: bool
  b_bufs :: alloc_env
  b_sys :: "nat \<Rightarrow> bool"
  b_replay :: "nat \<Rightarrow> cmd_env \<times> alloc_env"
  b_thread :: bool
  b_rdma :: bool

definition repl_init :: "bool \<Rightarrow> kvs_server \<Rightarrow> int \<times> kvs_server" where
  "repl_init rdma s = (if rdma then (0, s\<lparr>g_rdma_ctx := True\<rparr>) else (-1, s\<lparr>g_rdma_ctx := False\<rparr>))"

definition init_persistence :: "boot_env \<Rightarrow> kvs_server \<Rightarrow> kvs_server option" where
  "init_persistence env s =
     kvs_persistence_recover (b_sys env) (b_replay env)
       (s\<lparr>g_aof := snd (kvs_persistence_init (b_open env) (b_stat env) (b_ring env) (b_bufs env) (g_aof s))\<rparr>)"

definition init_kvengine :: "boot_env \<Rightarrow> server_process \<Rightarrow> (int \<times> server_process) option" where
  "init_kvengine env p =
     (let s0 = core p;
          s1 = (if g_enable_mempool s0 then s0\<lparr>g_mempool := kvs_mempool_init (b_pool env) (g_mempool s0)\<rparr> else s0);
          s2 = create_engines (b_create env) s1;
          s3 = (if g_enable_snapshot p then snd (kvs_snapshot_load (b_load env) (snapshot_file p) s2) else s2)
      in case (if logging_on s3 then init_persistence env s3 else Some s3) of
           None \<Rightarrow> None
         | Some s4 \<Rightarrow>
             let p4 = p\<lparr>core := s4, g_expire_running := g_expire_running p \<or> g_enable_ttl s4\<rparr>
             in if g_enable_ttl s4 \<and> \<not> b_thread env then Some (-1, p4)
                else
                  let (r, s5) = (if g_use_rdma_sync p \<and> (g_enable_repl_master s4 \<or> g_enable_repl_slave s4)
                                 then repl_init (b_rdma env) s4 else (0, s4))
                  in if r \<noteq> 0 then Some (-1, p4\<lparr>core := s5\<rparr>)
                     else Some (0, p4\<lparr>core := s5\<lparr>global_vector_index := snd (keep_index_init (global_vector_index s5))\<rparr>\<rparr>))"

text \<open>The process before \<open>main\<close>, with the files it finds.\<close>

definition process_static :: "bytes option \<Rightarrow> bytes \<Rightarrow> server_process" where
  "process_static snap wal =
     \<lparr>g_enable_snapshot = False, g_use_rdma_sync = False, g_use_embedding = 0, g_expire_running = False,
      snapshot_file = snap, core = server_static\<lparr>g_aof := aof_static\<lparr>aof_file := wal\<rparr>\<rparr>\<rparr>"

text \<open>\<open>main\<close> up to the network loop: it ignores the results of \<open>load_config\<close> and \<open>init_kvengine\<close>; the result is the port and the state.\<close>

definition main_start :: "boot_env \<Rightarrow> bytes option \<Rightarrow> server_process \<Rightarrow> (int \<times> server_process) option" where
  "main_start env config_file p =
     (let cfg = snd (load_config config_file)
      in map_option (\<lambda>(r, p'). (cfg_port cfg, p')) (init_kvengine env (apply_config cfg p)))"

section \<open>End\<close>

text \<open>
  \<open>x_cqe\<close> to \<open>x_pwrite\<close> are the outcomes \<open>kvs_persistence_close\<close> meets, \<open>x_save\<close> and \<open>x_nows\<close> those of
  \<open>kvs_snapshot_save\<close>. On a replica the function joins the thread \<open>repl_slave_tid\<close> of
  \<^verbatim>\<open>server.c\<close>, a variable nothing assigns (the thread is in the static variable of \<^verbatim>\<open>repl.c\<close>): \<open>None\<close>.
\<close>

record exit_env =
  x_cqe :: "int option"
  x_sqe1 :: bool
  x_sqe2 :: bool
  x_waits :: "int option list"
  x_sqe3 :: bool
  x_final :: "int option"
  x_pwrite :: int
  x_save :: save_io
  x_nows :: "nat \<Rightarrow> int"

definition destroy_engines :: "kvs_server \<Rightarrow> kvs_server" where
  "destroy_engines s =
     s\<lparr>global_array := kvs_array_destroy (global_array s), global_rbtree := kvs_rbtree_destroy (global_rbtree s),
       global_hash := kvs_hash_destroy (global_hash s), global_hash1 := kvs_hash_destroy (global_hash1 s),
       global_hash2 := kvs_hash_destroy (global_hash2 s), global_hash3 := kvs_hash_destroy (global_hash3 s),
       global_hash4 := kvs_hash_destroy (global_hash4 s), global_skip := kvs_skip_destroy (global_skip s)\<rparr>"

definition dest_kvengine :: "exit_env \<Rightarrow> server_process \<Rightarrow> server_process option" where
  "dest_kvengine env p =
     (let s0 = core p;
          s1 = s0\<lparr>global_vector_index := keep_index_destroy (global_vector_index s0)\<rparr>;
          repl = g_use_rdma_sync p \<and> (g_enable_repl_master s1 \<or> g_enable_repl_slave s1)
      in if repl \<and> g_enable_repl_slave s1 then None
         else
           let s2 = (if repl then repl_destroy s1 else s1);
               p2 = p\<lparr>g_expire_running := (if g_enable_ttl s2 then False else g_expire_running p)\<rparr>
           in case (if logging_on s2 then kvs_persistence_close (x_cqe env) (x_sqe1 env) (x_sqe2 env)
                                         (x_waits env) (x_sqe3 env) (x_final env) (x_pwrite env) (g_aof s2) else Some (g_aof s2)) of
                None \<Rightarrow> None
              | Some a \<Rightarrow>
                  let s3 = s2\<lparr>g_aof := a\<rparr>
                  in case (if g_enable_snapshot p then kvs_snapshot_save (x_save env) (x_nows env) s3 (snapshot_file p)
                           else Some (0, snapshot_file p)) of
                       None \<Rightarrow> None
                     | Some (r, f) \<Rightarrow> Some (p2\<lparr>snapshot_file := f, core := destroy_engines s3\<rparr>))"

section \<open>The start keeps the engines well-formed\<close>

lemma snapshot_set_inv:
  assumes "server_inv s" and "k \<noteq> []"
  shows "server_inv (snd (snapshot_set env typ e k v s)) \<and> settings (snd (snapshot_set env typ e k v s)) = settings s"
proof -
  obtain ok tseed where env: "env = (ok, tseed)"
    by (cases env)
  have inv: "array_inv (global_array s)" "rbtree_inv (global_rbtree s)" "hash_inv (global_hash s)" "hash_inv (global_hash1 s)"
    "hash_inv (global_hash2 s)" "hash_inv (global_hash3 s)" "hash_inv (global_hash4 s)" "skip_inv (global_skip s)"
    using assms(1) by simp_all
  note effects = arr.set_invar [OF inv(1) assms(2)] rbe.set_invar [OF inv(2) TrueI] hsh.set_invar [OF inv(3) TrueI]
    hsh.set_invar [OF inv(4) TrueI] hsh.set_invar [OF inv(5) TrueI] hsh.set_invar [OF inv(6) TrueI]
    hsh.set_invar [OF inv(7) TrueI] ske.set_invar [OF inv(8) TrueI]
  show ?thesis
    using assms(1) unfolding snapshot_set_def env
    by (auto simp: effects split: prod.splits)
qed

text \<open>Whatever the file holds: a record has a key, so every step keeps the invariant.\<close>

lemma snapshot_read_key:
  assumes "snapshot_read data limit p = Some (typ, e, k, v, q)" and "limit \<le> length data"
  shows "k \<noteq> []"
  using assms by (auto simp: snapshot_read_def Let_def split: if_splits)

lemma snapshot_loop_inv:
  assumes "server_inv s" and "limit \<le> length data"
  shows "server_inv (snapshot_loop envs now data limit i p s) \<and> settings (snapshot_loop envs now data limit i p s) = settings s"
  using assms
proof (induction envs now data limit i p s rule: snapshot_loop.induct)
  case (1 envs now data limit i p s)
  show ?case
  proof (cases "snapshot_read data limit p")
    case None
    then show ?thesis
      using "1.prems" by (subst (1 2) snapshot_loop.simps) simp
  next
    case (Some x)
    obtain ty e k v q where x: "x = (ty, e, k, v, q)"
      by (metis prod_cases5)
    note step = snapshot_set_inv [OF "1.prems"(1) snapshot_read_key [OF Some [unfolded x] "1.prems"(2)], of "envs i" ty e v]
    have loop: "snapshot_loop envs now data limit i p s =
      (if e > 0 \<and> now > e then snapshot_loop envs now data limit i q s
       else snapshot_loop envs now data limit (Suc i) q (snd (snapshot_set (envs i) ty e k v s)))"
      using Some x by (subst snapshot_loop.simps) simp
    show ?thesis
      unfolding loop using "1.IH" [OF Some [unfolded x] refl refl refl refl] "1.prems" step by simp
  qed
qed

lemma snapshot_load_inv:
  assumes "server_inv s"
  shows "server_inv (snd (kvs_snapshot_load io f s)) \<and> settings (snd (kvs_snapshot_load io f s)) = settings s"
  using assms snapshot_loop_inv [OF assms] by (auto simp: kvs_snapshot_load_def Let_def split: option.split)

text \<open>A request of the log runs: its lengths are not negative.\<close>

lemma run_proc_total:
  assumes "\<forall>i. int i < argc req \<longrightarrow> 0 \<le> rargv_len req ! i"
  shows "run_proc p env req s \<noteq> None"
proof -
  have neg: "rargv_len req ! Suc 0 < 0 \<Longrightarrow> argc req < 2" "rargv_len req ! Suc 0 < 0 \<Longrightarrow> argc req < 3" "rargv_len req ! 2 < 0 \<Longrightarrow> argc req < 3"
    using assms [THEN spec, of 1] assms [THEN spec, of 2] by (auto simp: not_less [symmetric])
  show ?thesis
    by (cases p)
      (auto simp: array_defs rbtree_defs hash_defs skip_defs context_defs index_defs system_defs
        with_key_def with_key_value_def Let_def split: prod.split dest: neg)
qed

lemma execute_total: "kvs_execute_batch env (request_command (parsed_request a rest)) (parsed_request a rest) s \<noteq> None"
proof (cases "request_command (parsed_request a rest)")
  case (Some c)
  have "run_proc (cproc c) env (parsed_request a rest) s \<noteq> None"
    by (rule run_proc_total) (simp add: parsed_request_def)
  with Some show ?thesis by (simp add: kvs_execute_batch_def)
qed (simp add: kvs_execute_batch_def)

lemma execute_inv:
  assumes "kvs_execute_batch env (request_command (parsed_request a rest)) (parsed_request a rest) s = Some (x, s')"
    and "server_inv s" and "keyed a"
  shows "server_inv s' \<and> settings s' = settings s"
proof -
  have "server_inv s'"
  proof (cases "request_command (parsed_request a rest)")
    case (Some c)
    then have "handler_ok (cproc c) env (parsed_request a rest) s x s'"
      using assms by (intro proc_effect) (auto simp: keyed_def kvs_execute_batch_def)
    then show ?thesis by (simp add: handler_ok_def)
  qed (use assms in \<open>simp add: kvs_execute_batch_def\<close>)
  then show ?thesis
    using execute_settings [OF assms(1)] by blast
qed

lemma replay_total:
  assumes "\<forall>a\<in>set as. keyed a" and "server_inv s"
  shows "\<exists>rs s'. replay envs i as s = Some (rs, s') \<and> server_inv s' \<and> settings s' = settings s"
  using assms
proof (induction as arbitrary: i s)
  case (Cons a as)
  let ?req = "parsed_request a (requests as)"
  obtain x s1 where s1: "kvs_execute_batch (fst (envs i)) (request_command ?req) ?req s = Some (x, s1)"
    using execute_total by (metis not_None_eq surj_pair)
  note e = execute_inv [OF s1 Cons.prems(2)]
  obtain rs s' where "replay envs (Suc i) as s1 = Some (rs, s') \<and> server_inv s' \<and> settings s' = settings s1"
    using Cons.IH [of s1 "Suc i"] Cons.prems(1) e by auto
  with s1 e Cons.prems(1) show ?case by (auto simp: Let_def)
qed simp

text \<open>What the start preserves: the configured modes, and the bytes of the log.\<close>

definition frame :: "kvs_server \<Rightarrow> bytes \<times> bool \<times> bool \<times> bool \<times> bool \<times> bool" where
  "frame s = (aof_file (g_aof s), modes s)"

lemma settings_frame: "settings s' = settings s \<Longrightarrow> frame s' = frame s"
  by (simp add: settings_def frame_def)

lemma frame_logging: "frame s' = frame s \<Longrightarrow> logging_on s' = logging_on s"
  by (auto simp: frame_def modes_def logging_on_def)

lemma aof_upd: "server_inv (s\<lparr>g_aof := a\<rparr>) = server_inv s" "modes (s\<lparr>g_aof := a\<rparr>) = modes s"
  by (simp_all add: server_inv_def modes_def del: server_inv_stores)

lemma recover_inv:
  assumes "server_inv s" and "aof_file (g_aof s) = requests as" and "length (requests as) < 2 ^ 31"
    and "\<forall>a\<in>set as. sized a \<and> keyed a" and "\<And>i j. snd (envs i) j"
  shows "\<exists>s'. kvs_persistence_recover sys envs s = Some s' \<and> server_inv s' \<and> frame s' = frame s"
proof -
  let ?s = "s\<lparr>g_aof := (g_aof s)\<lparr>aof_open := True\<rparr>\<rparr>" and ?n = "length (requests as)"
  obtain rs s2 where s2: "replay envs 0 as ?s = Some (rs, s2)" "server_inv s2" "settings s2 = settings ?s"
    using replay_total [of as ?s envs 0] assms(1,4) by (auto simp: aof_upd)
  have "i32 (int ?n) = int ?n"
    using assms(3) by (intro i32_id) simp_all
  moreover have "recover_loop envs (requests as) ?n 0 0 ?s = Some (?n, s2)"
    using recover_loop_requests [of as envs 0 "requests as" ?n 0 ?s] assms(4,5) s2(1) by simp
  ultimately show ?thesis
    using assms(1,2) s2(2,3)
    by (auto simp: kvs_persistence_recover_def protocol_process_recover_def Let_def aof_upd frame_def settings_def)
qed

lemma create_engines_frame: "frame (create_engines ok s) = frame s"
  by (simp add: create_engines_def frame_def modes_def)

lemma init_kvengine_inv:
  assumes "b_create env = always_ok" and "aof_file (g_aof (core p)) = requests as" and "length (requests as) < 2 ^ 31"
    and "\<forall>a\<in>set as. sized a \<and> keyed a" and "\<And>i j. snd (b_replay env i) j"
  shows "\<exists>r p'. init_kvengine env p = Some (r, p') \<and> r \<in> {0, -1} \<and> server_inv (core p') \<and> frame (core p') = frame (core p) \<and>
    g_use_rdma_sync p' = g_use_rdma_sync p \<and> g_use_embedding p' = g_use_embedding p"
proof -
  define s1 where "s1 = (if g_enable_mempool (core p) then (core p)\<lparr>g_mempool := kvs_mempool_init (b_pool env) (g_mempool (core p))\<rparr> else core p)"
  define s3 where "s3 = (if g_enable_snapshot p then snd (kvs_snapshot_load (b_load env) (snapshot_file p) (create_engines (b_create env) s1))
    else create_engines (b_create env) s1)"
  have "server_inv (create_engines (b_create env) s1)" "frame (create_engines (b_create env) s1) = frame (core p)"
    using create_engines_inv [of s1] assms(1) by (simp_all add: create_engines_frame) (simp add: s1_def frame_def modes_def)
  note c = this
  note l = snapshot_load_inv [OF c(1), of "b_load env" "snapshot_file p"]
  have s3: "server_inv s3" "frame s3 = frame (core p)"
    unfolding s3_def using c l settings_frame [OF conjunct2 [OF l]] by simp_all
  have "\<exists>s4. (if logging_on s3 then init_persistence env s3 else Some s3) = Some s4 \<and> server_inv s4 \<and> frame s4 = frame (core p)"
  proof (cases "logging_on s3")
    case True
    let ?s = "s3\<lparr>g_aof := snd (kvs_persistence_init (b_open env) (b_stat env) (b_ring env) (b_bufs env) (g_aof s3))\<rparr>"
    have f: "frame ?s = frame s3"
      by (simp add: kvs_persistence_init_def Let_def frame_def modes_def)
    then have "aof_file (g_aof ?s) = requests as"
      using s3(2) assms(2) by (simp add: frame_def)
    then show ?thesis
      using recover_inv [of ?s as "b_replay env" "b_sys env"] assms(3-5) s3 f True by (simp add: init_persistence_def aof_upd)
  qed (use s3 in simp)
  then obtain s4 where s4: "(if logging_on s3 then init_persistence env s3 else Some s3) = Some s4"
    and inv: "server_inv s4" "frame s4 = frame (core p)"
    by blast
  have upd: "server_inv (s4\<lparr>g_rdma_ctx := b\<rparr>)" "frame (s4\<lparr>g_rdma_ctx := b\<rparr>) = frame s4"
    "frame (s4\<lparr>global_vector_index := vi\<rparr>) = frame s4" "frame (s4\<lparr>global_vector_index := vi, g_rdma_ctx := b\<rparr>) = frame s4"
    "frame (s4\<lparr>g_rdma_ctx := b, global_vector_index := vi\<rparr>) = frame s4" for b vi
    using inv(1) by (simp_all add: server_inv_def frame_def modes_def del: server_inv_stores)
  show ?thesis
    unfolding init_kvengine_def Let_def s1_def [symmetric] s3_def [symmetric] s4 option.case
    using inv upd by (simp add: repl_init_def)
qed

section \<open>Property\<close>


definition boot_demo :: boot_env where
  "boot_demo = \<lparr>b_pool = (\<lambda>_. True), b_create = always_ok, b_load = lio_demo, b_open = True, b_stat = True, b_ring = True,
     b_bufs = always_ok, b_sys = (\<lambda>_. True), b_replay = (\<lambda>_. (env_demo, always_ok)), b_thread = True, b_rdma = False\<rparr>"


end
