(* ===== verification/Repl_Sync.thy ===== *)
theory Repl_Sync
  imports Server_Main
begin

text \<open>
  The first synchronisation of a replica over TCP (\<^verbatim>\<open>repl.c\<close>): the master sends the size of its log
  file and the file by \<open>sendfile\<close>, the replica moves the bytes by \<open>splice\<close> through a pipe into its own log
  file, replays it and reports \<open>SYNC_DONE\<close>. Results of the system calls are lists of outcomes.
\<close>

section \<open>Master\<close>

definition be_bytes :: "nat \<Rightarrow> int \<Rightarrow> bytes" where
  "be_bytes n x = rev (le_bytes n x)"

definition be_int :: "bytes \<Rightarrow> int" where
  "be_int xs = le_int (rev xs)"

lemma length_be_bytes [simp]: "length (be_bytes n x) = n"
  by (simp add: be_bytes_def)

lemma be_int_be_bytes: "be_int (be_bytes n x) = x mod 256 ^ n"
  by (simp add: be_int_def be_bytes_def le_int_le_bytes)

text \<open>
  An outcome of \<open>sendfile\<close> or \<open>splice\<close>: up to \<open>n\<close> bytes are moved, the call is to be repeated (\<open>EAGAIN\<close>,
  \<open>EINTR\<close>), or it fails. A call that moves nothing returns 0.
\<close>

datatype move = Moved nat | Again | Failed

text \<open>
  The return value (\<open>None\<close>: the outcomes are used up and the loop is still running) and the bytes that
  have reached the socket.
\<close>

fun sendfile_loop :: "move list \<Rightarrow> bytes \<Rightarrow> nat \<Rightarrow> nat \<Rightarrow> int option \<times> bytes" where
  "sendfile_loop evs file offset rem =
     (if rem = 0 then (Some 0, [])
      else case evs of
        [] \<Rightarrow> (None, [])
      | Again # evs' \<Rightarrow> sendfile_loop evs' file offset rem
      | Failed # evs' \<Rightarrow> (Some (-1), [])
      | Moved n # evs' \<Rightarrow>
          let d = take (min n rem) (drop offset file)
          in if d = [] then (Some (-1), [])
             else map_prod id ((@) d) (sendfile_loop evs' file (offset + length d) (rem - length d)))"

declare sendfile_loop.simps [simp del]

text \<open>
  \<open>file = None\<close>: \<open>stat\<close> fails; \<open>opened\<close>: the outcome of \<open>open\<close>; \<open>hdr\<close>: how many of the eight bytes of the
  header \<open>send\<close> accepts (a negative result is 0 bytes).
\<close>

definition repl_sync_log_via_tcp ::
  "nat \<Rightarrow> bool \<Rightarrow> move list \<Rightarrow> bytes option \<Rightarrow> kvs_server \<Rightarrow> int option \<times> bytes" where
  "repl_sync_log_via_tcp hdr opened evs file s =
     (if g_slave_fd s < 0 then (Some (-1), [])
      else case file of
        None \<Rightarrow> (Some (if hdr < 8 then -1 else 0), take hdr (be_bytes 8 0))
      | Some f \<Rightarrow>
          if f = [] then (Some (if hdr < 8 then -1 else 0), take hdr (be_bytes 8 0))
          else if \<not> opened then (Some (-1), [])
          else if hdr < 8 then (Some (-1), take hdr (be_bytes 8 (int (length f))))
          else map_prod id ((@) (be_bytes 8 (int (length f)))) (sendfile_loop evs f 0 (length f)))"

section \<open>Replica\<close>

text \<open>
  The receiving loops: \<open>inp\<close> are the bytes on the socket, \<open>chunk\<close> is \<open>n_spliced\<close> and \<open>pipe\<close> what of it is
  still in the pipe. The result is whether the loop has ended, \<open>remaining\<close>, the input left and the bytes
  written to the file.
\<close>

fun splice_loop :: "move list \<Rightarrow> bytes \<Rightarrow> nat \<Rightarrow> bytes \<Rightarrow> nat \<Rightarrow> bool \<times> nat \<times> bytes \<times> bytes" where
  "splice_loop evs inp chunk pipe rem =
     (if pipe \<noteq> [] then
        (case evs of
           [] \<Rightarrow> (False, rem, inp, [])
         | Again # evs' \<Rightarrow> splice_loop evs' inp chunk pipe rem
         | Failed # evs' \<Rightarrow> (True, rem, inp, [])
         | Moved n # evs' \<Rightarrow>
             let w = take n pipe
             in if w = [] then (True, rem, inp, [])
                else
                  let pipe' = drop (length w) pipe;
                      rem' = (if pipe' = [] then rem - chunk else rem)
                  in map_prod id (map_prod id (map_prod id ((@) w))) (splice_loop evs' inp chunk pipe' rem'))
      else if rem = 0 then (True, 0, inp, [])
      else
        (case evs of
           [] \<Rightarrow> (False, rem, inp, [])
         | Again # evs' \<Rightarrow> splice_loop evs' inp chunk pipe rem
         | Failed # evs' \<Rightarrow> (True, rem, inp, [])
         | Moved n # evs' \<Rightarrow>
             let d = take (min n rem) inp
             in if d = [] then (True, rem, inp, [])
                else splice_loop evs' (drop (length d) inp) (length d) d rem))"

declare splice_loop.simps [simp del]

text \<open>
  \<open>y_header\<close>: how many bytes \<open>recv(MSG_WAITALL)\<close> returns; \<open>y_open\<close>, \<open>y_pipe\<close>: the outcomes of \<open>open\<close>, which
  truncates the file, and \<open>pipe\<close>; \<open>y_moves\<close>: those of \<open>splice\<close>; \<open>y_sys\<close> and \<open>y_replay\<close>: those of the replay.
\<close>

record sync_env =
  y_header :: nat
  y_open :: bool
  y_pipe :: bool
  y_moves :: "move list"
  y_sys :: "nat \<Rightarrow> bool"
  y_replay :: "nat \<Rightarrow> cmd_env \<times> alloc_env"

text \<open>
  The result of the thread: \<open>sr_ended\<close> whether it has ended, the input left on the socket, the bytes it has
  sent (the \<open>SYNC_DONE\<close> request or nothing) and the server; \<open>None\<close>: a fault in the replay.
\<close>

definition sync_done_request :: bytes where
  "sync_done_request = resp_encode [''SYNC_DONE'']"

definition put_log :: "bytes \<Rightarrow> kvs_server \<Rightarrow> kvs_server" where
  "put_log f s = s\<lparr>g_aof := (g_aof s)\<lparr>aof_file := f\<rparr>\<rparr>"

definition tcp_sendfile_recv_thread ::
  "sync_env \<Rightarrow> bytes \<Rightarrow> kvs_server \<Rightarrow> (bool \<times> bytes \<times> bytes \<times> kvs_server) option" where
  "tcp_sendfile_recv_thread env inp s =
     (let h = take (min 8 (y_header env)) inp; inp1 = drop (length h) inp
      in if length h \<noteq> 8 then Some (True, inp1, [], s)
         else
           let file_size = nat (be_int h)
           in if file_size = 0 then Some (True, inp1, [], if y_open env then put_log [] s else s)
              else if \<not> y_open env then Some (True, inp1, [], s)
              else if \<not> y_pipe env then Some (True, inp1, [], put_log [] s)
              else case splice_loop (y_moves env) inp1 0 [] file_size of
                (ended, rem, inp2, out) \<Rightarrow>
                  let s1 = put_log out s
                  in if \<not> ended then Some (False, inp2, [], s1)
                     else if rem = 0 then
                       map_option (\<lambda>s2. (True, inp2, sync_done_request, s2)) (kvs_persistence_recover (y_sys env) (y_replay env) s1)
                     else Some (True, inp2, [], s1))"

section \<open>The loops\<close>

text \<open>Calls that always make progress, and their number.\<close>

definition steady :: "move list \<Rightarrow> bool" where
  "steady evs \<longleftrightarrow> Failed \<notin> set evs \<and> Moved 0 \<notin> set evs"

fun moves :: "move list \<Rightarrow> nat" where
  "moves [] = 0"
| "moves (Moved n # evs) = Suc (moves evs)"
| "moves (_ # evs) = moves evs"

lemma steady_Cons [simp]: "steady (ev # evs) \<longleftrightarrow> ev \<noteq> Failed \<and> ev \<noteq> Moved 0 \<and> steady evs" "steady []"
  by (auto simp: steady_def)

lemma sendfile_steps:
  "sendfile_loop evs f offset 0 = (Some 0, [])"
  "0 < rem \<Longrightarrow> sendfile_loop [] f offset rem = (None, [])"
  "0 < rem \<Longrightarrow> sendfile_loop (Again # evs) f offset rem = sendfile_loop evs f offset rem"
  "0 < rem \<Longrightarrow> sendfile_loop (Failed # evs) f offset rem = (Some (-1), [])"
  by (subst sendfile_loop.simps, simp)+

lemma sendfile_moved:
  assumes "0 < rem" and "offset + rem \<le> length f"
  shows "sendfile_loop (Moved n # evs) f offset rem =
    (if n = 0 then (Some (-1), [])
     else map_prod id ((@) (take (min n rem) (drop offset f))) (sendfile_loop evs f (offset + min n rem) (rem - min n rem)))"
proof -
  have "length (take (min n rem) (drop offset f)) = min n rem" "take (min n rem) (drop offset f) = [] \<longleftrightarrow> n = 0"
    using assms by auto
  with assms(1) show ?thesis
    by (subst sendfile_loop.simps) (simp add: Let_def del: length_take take_eq_Nil)
qed

text \<open>Whatever happens, a prefix is sent; 0 is returned exactly when it is everything.\<close>

lemma sendfile_prefix:
  assumes "offset + rem \<le> length f"
  shows "\<exists>k\<le>rem. snd (sendfile_loop evs f offset rem) = take k (drop offset f) \<and> (fst (sendfile_loop evs f offset rem) = Some 0 \<longleftrightarrow> k = rem)"
  using assms
proof (induction evs arbitrary: offset rem)
  case Nil
  then show ?case
    by (cases "rem = 0") (auto simp: sendfile_steps)
next
  case (Cons ev evs)
  show ?case
  proof (cases "rem = 0 \<or> (\<forall>n. ev \<noteq> Moved n) \<or> ev = Moved 0")
    case True
    with Cons show ?thesis
      by (cases ev; cases "rem = 0") (auto simp: sendfile_steps sendfile_moved)
  next
    case False
    then obtain n where n: "ev = Moved n" "0 < n" "0 < rem"
      by auto
    let ?m = "min n rem"
    obtain k where k: "k \<le> rem - ?m" "snd (sendfile_loop evs f (offset + ?m) (rem - ?m)) = take k (drop (offset + ?m) f)"
      "fst (sendfile_loop evs f (offset + ?m) (rem - ?m)) = Some 0 \<longleftrightarrow> k = rem - ?m"
      using Cons.IH [of "offset + ?m" "rem - ?m"] Cons.prems by auto
    show ?thesis
      using k n Cons.prems by (intro exI [of _ "?m + k"]) (auto simp: sendfile_steps sendfile_moved take_add add.commute [of offset])
  qed
qed

text \<open>With enough progress everything is sent.\<close>

lemma sendfile_completes:
  assumes "offset + rem \<le> length f" and "steady evs" and "rem \<le> moves evs"
  shows "sendfile_loop evs f offset rem = (Some 0, take rem (drop offset f))"
  using assms
proof (induction evs arbitrary: offset rem)
  case Nil
  then show ?case by (simp add: sendfile_steps)
next
  case (Cons ev evs)
  show ?case
  proof (cases "rem = 0 \<or> ev = Again")
    case True
    with Cons show ?thesis by (cases "rem = 0") (auto simp: sendfile_steps)
  next
    case False
    then obtain n where n: "ev = Moved n" "0 < n" "0 < rem"
      using Cons.prems(2) by (cases ev) auto
    let ?m = "min n rem"
    have "sendfile_loop evs f (offset + ?m) (rem - ?m) = (Some 0, take (rem - ?m) (drop (offset + ?m) f))"
      using Cons.prems n by (intro Cons.IH) auto
    moreover have "take ?m (drop offset f) @ take (rem - ?m) (drop (offset + ?m) f) = take rem (drop offset f)"
      using take_add [of ?m "rem - ?m" "drop offset f"] by (simp add: add.commute)
    ultimately show ?thesis
      using n Cons.prems(1) by (simp add: sendfile_moved)
  qed
qed

text \<open>
  The receiver: \<open>todo\<close> is what the file still lacks, the bytes in the pipe and then those to be taken from the socket.
\<close>

definition unspliced :: "nat \<Rightarrow> bytes \<Rightarrow> nat \<Rightarrow> nat" where
  "unspliced chunk pipe rem = (if pipe = [] then rem else rem - chunk)"

definition pipe_ok :: "nat \<Rightarrow> bytes \<Rightarrow> nat \<Rightarrow> bool" where
  "pipe_ok chunk pipe rem \<longleftrightarrow> (pipe \<noteq> [] \<longrightarrow> length pipe \<le> chunk \<and> chunk \<le> rem)"

lemma splice_steps:
  "splice_loop evs inp chunk [] 0 = (True, 0, inp, [])"
  "pipe \<noteq> [] \<or> 0 < rem \<Longrightarrow> splice_loop [] inp chunk pipe rem = (False, rem, inp, [])"
  "pipe \<noteq> [] \<or> 0 < rem \<Longrightarrow> splice_loop (Again # evs) inp chunk pipe rem = splice_loop evs inp chunk pipe rem"
  "pipe \<noteq> [] \<or> 0 < rem \<Longrightarrow> splice_loop (Failed # evs) inp chunk pipe rem = (True, rem, inp, [])"
  by (subst splice_loop.simps, force)+

lemma drop_length_take: "drop (length (take n xs)) xs = drop n xs"
  by (cases "n \<le> length xs") simp_all

lemma splice_out:
  assumes "pipe \<noteq> []"
  shows "splice_loop (Moved n # evs) inp chunk pipe rem =
    (if n = 0 then (True, rem, inp, [])
     else map_prod id (map_prod id (map_prod id ((@) (take n pipe))))
       (splice_loop evs inp chunk (drop n pipe) (if length pipe \<le> n then rem - chunk else rem)))"
  using assms drop_length_take [of n pipe] by (subst splice_loop.simps) (simp add: Let_def)

lemma splice_in:
  assumes "0 < rem"
  shows "splice_loop (Moved n # evs) inp chunk [] rem =
    (if n = 0 \<or> inp = [] then (True, rem, inp, [])
     else splice_loop evs (drop (min n rem) inp) (length (take (min n rem) inp)) (take (min n rem) inp) rem)"
proof -
  have "min n rem = 0 \<longleftrightarrow> n = 0"
    using assms by auto
  with assms show ?thesis
    using drop_length_take [of "min n rem" inp] by (subst splice_loop.simps) (simp add: Let_def)
qed

lemma pipe_ok_rem: "pipe_ok chunk pipe rem \<Longrightarrow> pipe \<noteq> [] \<Longrightarrow> 0 < rem"
  by (cases pipe) (auto simp: pipe_ok_def)

lemma split_take:
  assumes "m \<le> r"
  shows "take m xs @ take (r - length (take m xs)) (drop m xs) = take r xs"
proof (cases "m \<le> length xs")
  case True
  have "take r xs = take m xs @ take (r - m) (drop m xs)"
    using take_add [of m "r - m" xs] assms by simp
  with True show ?thesis by (simp add: min.absorb2)
qed (use assms in simp)

lemma split_drop:
  assumes "m \<le> r"
  shows "r - length (take m xs) \<le> length (drop m xs) \<longrightarrow> r \<le> length xs \<and> drop (r - length (take m xs)) (drop m xs) = drop r xs"
  using assms by (cases "m \<le> length xs") (auto simp: min.absorb2)

text \<open>What has been written is a prefix of what the file lacks; the loop ends with nothing remaining exactly when it is everything.\<close>

lemma splice_prefix:
  assumes "pipe_ok chunk pipe rem" and "splice_loop evs inp chunk pipe rem = (ended, rem', inp', out)"
  shows "\<exists>k. out = take k (pipe @ take (unspliced chunk pipe rem) inp) \<and>
    (ended \<and> rem' = 0 \<longrightarrow> unspliced chunk pipe rem \<le> length inp \<and> out = pipe @ take (unspliced chunk pipe rem) inp \<and>
      inp' = drop (unspliced chunk pipe rem) inp)"
  using assms
proof (induction evs arbitrary: inp chunk pipe rem out)
  case Nil
  then show ?case
    by (cases "pipe = [] \<and> rem = 0") (auto simp: splice_steps unspliced_def intro: exI [of _ 0])
next
  case (Cons ev evs)
  consider (idle) "pipe = []" "rem = 0" | (again) "ev = Again" "pipe \<noteq> [] \<or> 0 < rem" | (failed) "ev = Failed" "pipe \<noteq> [] \<or> 0 < rem"
    | (out) n where "ev = Moved n" "pipe \<noteq> []" | (inn) n where "ev = Moved n" "pipe = []" "0 < rem"
    by (cases ev) auto
  then show ?case
  proof cases
    case failed
    then show ?thesis
      using Cons.prems pipe_ok_rem [OF Cons.prems(1)] by (auto simp: splice_steps intro: exI [of _ 0])
  next
    case out
    let ?u = "unspliced chunk pipe rem" and ?rem = "if length pipe \<le> n then rem - chunk else rem"
    show ?thesis
    proof (cases "n = 0")
      case True
      then show ?thesis
        using out Cons.prems pipe_ok_rem [OF Cons.prems(1) out(2)] by (auto simp: splice_out intro: exI [of _ 0])
    next
      case False
      obtain o' where o': "splice_loop evs inp chunk (drop n pipe) ?rem = (ended, rem', inp', o')" "out = take n pipe @ o'"
        using Cons.prems(2) False by (cases "splice_loop evs inp chunk (drop n pipe) ?rem") (auto simp: out splice_out)
      have ok: "pipe_ok chunk (drop n pipe) ?rem" and u: "unspliced chunk (drop n pipe) ?rem = ?u"
        using Cons.prems(1) out(2) by (auto simp: pipe_ok_def unspliced_def)
      obtain k where k: "o' = take k (drop n pipe @ take ?u inp)"
        "ended \<and> rem' = 0 \<longrightarrow> ?u \<le> length inp \<and> o' = drop n pipe @ take ?u inp \<and> inp' = drop ?u inp"
        using Cons.IH [OF ok o'(1)] unfolding u by blast
      have "take n pipe @ take k (drop n pipe @ take ?u inp) = take (length (take n pipe) + k) (take n pipe @ drop n pipe @ take ?u inp)"
        by (metis append_eq_conv_conj take_add)
      then have "out = take (length (take n pipe) + k) (pipe @ take ?u inp)"
        unfolding o'(2) k(1) by (metis append_assoc append_take_drop_id)
      moreover have "out = pipe @ take ?u inp" if "o' = drop n pipe @ take ?u inp"
        unfolding o'(2) that by (metis append_assoc append_take_drop_id)
      ultimately show ?thesis
        using k(2) by blast
    qed
  next
    case inn
    let ?m = "min n rem"
    show ?thesis
    proof (cases "n = 0 \<or> inp = []")
      case True
      with inn Cons.prems show ?thesis
        by (auto simp: splice_in intro: exI [of _ 0])
    next
      case False
      let ?d = "take ?m inp"
      have rec: "splice_loop evs (drop ?m inp) (length ?d) ?d rem = (ended, rem', inp', out)"
        using Cons.prems(2) False by (simp add: inn splice_in)
      have d: "pipe_ok (length ?d) ?d rem" "unspliced (length ?d) ?d rem = rem - length ?d"
        using False inn(3) by (auto simp: pipe_ok_def unspliced_def)
      have all: "?d @ take (rem - length ?d) (drop ?m inp) = take rem inp"
        and rest: "rem - length ?d \<le> length (drop ?m inp) \<longrightarrow> rem \<le> length inp \<and> drop (rem - length ?d) (drop ?m inp) = drop rem inp"
        by (rule split_take, simp, rule split_drop, simp)
      have "unspliced chunk pipe rem = rem"
        using inn by (simp add: unspliced_def)
      with Cons.IH [OF d(1) rec] show ?thesis
        unfolding d(2) all using inn(2) rest by auto
    qed
  qed (use Cons in \<open>auto simp: splice_steps unspliced_def pipe_ok_def intro: exI [of _ 0]\<close>)
qed

text \<open>With enough progress and input the file is completed.\<close>

lemma splice_completes:
  assumes "pipe_ok chunk pipe rem" and "steady evs" and "unspliced chunk pipe rem \<le> length inp"
    and "2 * unspliced chunk pipe rem + length pipe \<le> moves evs"
  shows "\<exists>inp' out. splice_loop evs inp chunk pipe rem = (True, 0, inp', out)"
  using assms
proof (induction evs arbitrary: inp chunk pipe rem)
  case Nil
  then show ?case by (auto simp: unspliced_def splice_steps split: if_splits)
next
  case (Cons ev evs)
  consider (idle) "pipe = []" "rem = 0" | (again) "ev = Again" "pipe \<noteq> [] \<or> 0 < rem"
    | (out) n where "ev = Moved n" "0 < n" "pipe \<noteq> []" | (inn) n where "ev = Moved n" "0 < n" "pipe = []" "0 < rem"
    using Cons.prems(2) by (cases ev) auto
  then show ?case
  proof cases
    case out
    let ?rem = "if length pipe \<le> n then rem - chunk else rem"
    have u: "unspliced chunk (drop n pipe) ?rem = unspliced chunk pipe rem"
      using out(3) by (simp add: unspliced_def)
    have less: "length (drop n pipe) < length pipe"
      using out by (cases pipe) auto
    then have "2 * unspliced chunk pipe rem + length (drop n pipe) \<le> moves evs"
      using Cons.prems(4) unfolding out(1) moves.simps by linarith
    then have "\<exists>inp' o'. splice_loop evs inp chunk (drop n pipe) ?rem = (True, 0, inp', o')"
      using Cons.prems(1-3) out by (intro Cons.IH; (unfold u)?) (auto simp: pipe_ok_def)
    then show ?thesis
      using out by (auto simp: splice_out)
  next
    case inn
    let ?m = "min n rem"
    have m: "length (take ?m inp) = ?m" "0 < ?m"
      using Cons.prems(3) inn by (auto simp: unspliced_def)
    then have u: "unspliced ?m (take ?m inp) rem = rem - ?m" "take ?m inp \<noteq> []"
      by (auto simp: unspliced_def)
    have "\<exists>inp' o'. splice_loop evs (drop ?m inp) ?m (take ?m inp) rem = (True, 0, inp', o')"
      by (rule Cons.IH; (unfold u)?; use Cons.prems inn m in \<open>auto simp: pipe_ok_def unspliced_def\<close>)
    then show ?thesis
      using inn u(2) m by (auto simp: splice_in)
  qed (use Cons in \<open>auto simp: splice_steps\<close>)
qed

section \<open>The transfer\<close>

text \<open>What the master puts on the socket is a prefix of header and file; it reports success exactly when it is all of it.\<close>

definition sync_stream :: "bytes \<Rightarrow> bytes" where
  "sync_stream f = be_bytes 8 (int (length f)) @ f"

lemma sync_stream_parts: "take 8 (sync_stream f) = be_bytes 8 (int (length f))" "drop 8 (sync_stream f) = f" "length (sync_stream f) = 8 + length f"
  by (simp_all add: sync_stream_def)

lemma master_sends:
  assumes "repl_sync_log_via_tcp hdr opened evs (Some f) m = (r, sent)"
  shows "\<exists>j\<le>8 + length f. sent = take j (sync_stream f) \<and> (r = Some 0 \<longleftrightarrow> j = 8 + length f)"
proof (cases "g_slave_fd m < 0 \<or> f = [] \<or> \<not> opened \<or> hdr < 8")
  case True
  then show ?thesis
    using assms by (intro exI [of _ "if g_slave_fd m < 0 \<or> f \<noteq> [] \<and> \<not> opened then 0 else min hdr 8"])
      (auto simp: repl_sync_log_via_tcp_def sync_stream_def split: if_splits)
next
  case False
  obtain r' out where loop: "sendfile_loop evs f 0 (length f) = (r', out)"
    by fastforce
  obtain k where "k \<le> length f" "out = take k f" "r' = Some 0 \<longleftrightarrow> k = length f"
    using sendfile_prefix [of 0 "length f" f evs] by (auto simp: loop)
  with loop show ?thesis
    using assms False by (intro exI [of _ "8 + k"]) (auto simp: repl_sync_log_via_tcp_def sync_stream_def split: prod.splits)
qed

lemma master_completes:
  assumes "0 \<le> g_slave_fd m" and "8 \<le> hdr" and "opened" and "steady evs" and "length f \<le> moves evs"
  shows "repl_sync_log_via_tcp hdr opened evs (Some f) m = (Some 0, sync_stream f)"
  using assms sendfile_completes [of 0 "length f" f evs] by (auto simp: repl_sync_log_via_tcp_def sync_stream_def)

lemma put_log_simps [simp]:
  "server_inv (put_log f s) = server_inv s" "aof_file (g_aof (put_log f s)) = f" "view (put_log f s) = view s"
  by (simp_all add: put_log_def aof_upd view_def del: view_sel)

text \<open>What the replica does with a stream that starts with a part of it.\<close>

lemma replica_receives:
  assumes "inp = take j (sync_stream f) @ x" and "j < 8 + length f \<longrightarrow> x = []" and "j \<le> 8 + length f" and "f = requests as" and "length f < 2 ^ 31"
    and "\<forall>a\<in>set as. sized a \<and> keyed a" and "\<And>i j. snd (y_replay env i) j" and "server_inv t"
  shows "\<exists>ended inp' reply t'. tcp_sendfile_recv_thread env inp t = Some (ended, inp', reply, t') \<and> server_inv t' \<and>
    (aof_file (g_aof t') = aof_file (g_aof t) \<or> (\<exists>k. aof_file (g_aof t') = take k f)) \<and>
    (reply \<noteq> [] \<longrightarrow> reply = sync_done_request \<and> j = 8 + length f \<and> inp' = x \<and> aof_file (g_aof t') = f)"
proof (cases "length (take (min 8 (y_header env)) inp) = 8")
  case False
  then show ?thesis
    using assms(8) by (auto simp: tcp_sendfile_recv_thread_def Let_def)
next
  case True
  then have h: "take (min 8 (y_header env)) inp = take 8 inp" "8 \<le> length inp"
    by (auto simp: min_def split: if_splits)
  have "8 \<le> j"
    using h(2) assms(1-3) by (cases "j < 8 + length f") (auto simp: sync_stream_parts)
  then have inp: "take 8 inp = be_bytes 8 (int (length f))" "drop 8 inp = take (j - 8) f @ x"
    using assms(1,3) by (auto simp: sync_stream_def)
  have size: "nat (be_int (take 8 inp)) = length f"
    using assms(5) by (simp add: inp be_int_be_bytes)
  show ?thesis
  proof (cases "f = [] \<or> \<not> y_open env \<or> \<not> y_pipe env")
    case True
    then have "\<exists>inp' t'. tcp_sendfile_recv_thread env inp t = Some (True, inp', [], t') \<and> (t' = t \<or> t' = put_log [] t)"
      using h size by (auto simp: tcp_sendfile_recv_thread_def Let_def)
    moreover have "take 0 f = []"
      by simp
    ultimately show ?thesis
      using assms(8) put_log_simps(1,2) by metis
  next
    case False
    obtain ended rem' inp2 out where loop: "splice_loop (y_moves env) (drop 8 inp) 0 [] (length f) = (ended, rem', inp2, out)"
      by (metis prod_cases4)
    have split: "take (length f) (drop 8 inp) = take (j - 8) f \<and>
      (length f \<le> length (drop 8 inp) \<longrightarrow> j = 8 + length f \<and> drop (length f) (drop 8 inp) = x)"
    proof (cases "j = 8 + length f")
      case True
      then show ?thesis unfolding inp(2) by simp
    next
      case False
      then have "x = []" "j - 8 < length f"
        using assms(2,3) \<open>8 \<le> j\<close> by auto
      then show ?thesis unfolding inp(2) by simp
    qed
    have out: "\<exists>k. out = take k f" "ended \<and> rem' = 0 \<longrightarrow> j = 8 + length f \<and> inp2 = x \<and> out = f"
      using splice_prefix [OF _ loop] split unfolding pipe_ok_def unspliced_def by auto
    have t: "tcp_sendfile_recv_thread env inp t =
      (if \<not> ended then Some (False, inp2, [], put_log out t)
       else if rem' = 0 then map_option (\<lambda>s2. (True, inp2, sync_done_request, s2)) (kvs_persistence_recover (y_sys env) (y_replay env) (put_log out t))
       else Some (True, inp2, [], put_log out t))"
      using False h True size loop by (simp add: tcp_sendfile_recv_thread_def Let_def)
    show ?thesis
    proof (cases "ended \<and> rem' = 0")
      case True
      obtain t' where t': "kvs_persistence_recover (y_sys env) (y_replay env) (put_log f t) = Some t'" "server_inv t'" "frame t' = frame (put_log f t)"
        using recover_inv [of "put_log f t" as "y_replay env" "y_sys env"] assms(4-8) by auto
      moreover have "\<exists>k. f = take k f"
        by (rule exI [of _ "length f"]) simp
      ultimately show ?thesis
        using True t out(2) by (auto simp: frame_def)
    next
      case False
      then show ?thesis
        using t out(1) assms(8) by auto
    qed
  qed
qed

text \<open>No system call fails and enough of them make progress.\<close>

definition transfer_works :: "nat \<Rightarrow> bool \<Rightarrow> move list \<Rightarrow> sync_env \<Rightarrow> nat \<Rightarrow> bool" where
  "transfer_works hdr opened evs env n \<longleftrightarrow> 8 \<le> hdr \<and> opened \<and> steady evs \<and> n \<le> moves evs \<and> 8 \<le> y_header env \<and> y_open env \<and>
     y_pipe env \<and> steady (y_moves env) \<and> 2 * n \<le> moves (y_moves env) \<and> y_sys env = (\<lambda>_. True)"

lemma requests_Nil: "requests as = [] \<longleftrightarrow> as = []"
  by (cases as) (simp_all add: resp_encode_def)

lemma replica_replays:
  assumes "8 \<le> y_header env" and "y_open env" and "y_pipe env" and "steady (y_moves env)" and "2 * length f \<le> moves (y_moves env)"
    and "y_sys env = (\<lambda>_. True)" and "f = requests as" and "as \<noteq> []" and "length f < 2 ^ 31" and "\<forall>a\<in>set as. sized a \<and> keyed a"
    and "\<And>i j. snd (y_replay env i) j" and "server_inv t"
  shows "\<exists>t' rs t1. tcp_sendfile_recv_thread env (sync_stream f @ x) t = Some (True, x, sync_done_request, t') \<and>
    replay (y_replay env) 0 as ((put_log f t)\<lparr>g_aof := (g_aof (put_log f t))\<lparr>aof_open := True\<rparr>\<rparr>) = Some (rs, t1) \<and> view t' = view t1"
proof -
  have "f \<noteq> []"
    using assms(7,8) by (simp add: requests_Nil)
  obtain inp2 out where loop: "splice_loop (y_moves env) (f @ x) 0 [] (length f) = (True, 0, inp2, out)"
    using splice_completes [of 0 "[]" "length f" "y_moves env" "f @ x"] assms(4,5) by (auto simp: pipe_ok_def unspliced_def)
  then have out: "inp2 = x" "out = f"
    using splice_prefix [OF _ loop] by (auto simp: pipe_ok_def unspliced_def)
  let ?t = "(put_log f t)\<lparr>g_aof := (g_aof (put_log f t))\<lparr>aof_open := True\<rparr>\<rparr>"
  obtain rs t1 where t1: "replay (y_replay env) 0 as ?t = Some (rs, t1)"
    using replay_total [of as ?t "y_replay env" 0] assms(10,12) by (auto simp: aof_upd)
  obtain t' where t': "kvs_persistence_recover (\<lambda>_. True) (y_replay env) (put_log f t) = Some t'" "view t' = view t1"
    using recover_replays [of "put_log f t" as "y_replay env" rs t1] assms(7,9-11) t1 by auto
  have size: "nat (be_int (be_bytes 8 (int (length f)))) = length f"
    using assms(9) by (simp add: be_int_be_bytes)
  have "tcp_sendfile_recv_thread env (sync_stream f @ x) t = Some (True, x, sync_done_request, t')"
    using assms(1-3,6) \<open>f \<noteq> []\<close> size loop out t'(1) by (simp add: tcp_sendfile_recv_thread_def sync_stream_def Let_def)
  with t1 t'(2) show ?thesis by blast
qed

section \<open>Property\<close>


definition sync_demo :: sync_env where
  "sync_demo = \<lparr>y_header = 8, y_open = True, y_pipe = True, y_moves = replicate 200 (Moved 1), y_sys = (\<lambda>_. True),
     y_replay = (\<lambda>_. (env_demo, always_ok))\<rparr>"

lemma byte_moves: "steady (replicate n (Moved 1))" "moves (replicate n (Moved 1)) = n"
  by (induction n) simp_all

lemma sset_demo_transfer: "transfer_works 8 True (replicate 100 (Moved 1)) sync_demo (length (requests [sset_demo]))"
  using sset_demo_length(1) by (simp add: transfer_works_def sync_demo_def byte_moves del: One_nat_def)


end
