(* ===== verification/Rdma_Sync.thy ===== *)
theory Rdma_Sync
  imports Repl_Sync
begin

text \<open>
  The first synchronisation over RDMA (\<^verbatim>\<open>repl.c\<close>): \<open>repl_sync_log_via_rdma\<close> of the master and
  \<open>pure_rdma_repl_slave_thread\<close> of the replica as two programs that run concurrently on the replica's
  registered buffer and the immediate values in transit. A write with immediate puts its payload at
  the start of the buffer and delivers the value; values arrive in order.
\<close>

section \<open>State\<close>

definition RDMA_CHUNK_SIZE :: nat where
  "RDMA_CHUNK_SIZE = 32 * 1024 * 1024"

datatype master_pc = M_header | M_header_ack | M_chunk | M_chunk_ack nat | M_return int

datatype slave_pc = S_header | S_chunk | S_write nat | S_return bool

text \<open>
  \<open>S_return True\<close>: the replica has reported \<open>SYNC_DONE\<close>. \<open>s_log\<close> is its log file, \<open>ring\<close> its registered buffer,
  \<open>to_slave\<close> and \<open>to_master\<close> are the immediate values in transit.
\<close>

record rdma_sync =
  mpc :: master_pc
  m_offset :: nat
  m_left :: nat
  spc :: slave_pc
  s_size :: nat
  s_received :: nat
  s_log :: bytes
  ring :: bytes
  to_slave :: "nat list"
  to_master :: "nat list"

section \<open>Steps\<close>

text \<open>
  The master with the log \<open>f\<close>, up to the next call on the link; \<open>ok\<close> is the outcome of that call. The result
  of waiting for an acknowledgement is ignored, so a failed wait continues without it. \<open>None\<close>: the
  master has returned or is blocked.
\<close>

definition await_ack :: "bool \<Rightarrow> rdma_sync \<Rightarrow> rdma_sync option" where
  "await_ack ok x = (if \<not> ok then Some x else case to_master x of [] \<Rightarrow> None | a # as \<Rightarrow> Some (x\<lparr>to_master := as\<rparr>))"

definition repl_sync_log_via_rdma :: "bytes \<Rightarrow> bool \<Rightarrow> rdma_sync \<Rightarrow> rdma_sync option" where
  "repl_sync_log_via_rdma f ok x =
     (case mpc x of
        M_header \<Rightarrow>
          Some (if ok then x\<lparr>mpc := M_header_ack, to_slave := to_slave x @ [length f mod 2 ^ 32]\<rparr> else x\<lparr>mpc := M_return (-1)\<rparr>)
      | M_header_ack \<Rightarrow>
          map_option (\<lambda>x1. if f = [] then x1\<lparr>mpc := M_return 0\<rparr> else x1\<lparr>mpc := M_chunk\<rparr>) (await_ack ok x)
      | M_chunk \<Rightarrow>
          if m_left x = 0 then Some (x\<lparr>mpc := M_return 0\<rparr>)
          else
            let chunk = min (m_left x) RDMA_CHUNK_SIZE
            in Some (if ok then x\<lparr>mpc := M_chunk_ack chunk, ring := take chunk (drop (m_offset x) f) @ drop chunk (ring x),
                         to_slave := to_slave x @ [chunk]\<rparr>
                     else x\<lparr>mpc := M_return (-2)\<rparr>)
      | M_chunk_ack chunk \<Rightarrow>
          map_option (\<lambda>x1. x1\<lparr>mpc := M_chunk, m_offset := m_offset x + chunk, m_left := m_left x - chunk\<rparr>) (await_ack ok x)
      | M_return r \<Rightarrow> None)"

text \<open>
  The replica: \<open>sl_recv\<close> is the outcome of waiting for a value, \<open>sl_open\<close> of opening and truncating the
  file, \<open>sl_write\<close> how many bytes \<open>write\<close> accepts, \<open>sl_ack\<close> the outcome of sending an
  acknowledgement, which is ignored.
\<close>

record slave_env =
  sl_recv :: bool
  sl_open :: bool
  sl_write :: nat
  sl_ack :: bool

definition send_ack :: "slave_env \<Rightarrow> rdma_sync \<Rightarrow> rdma_sync" where
  "send_ack env x = (if sl_ack env then x\<lparr>to_master := to_master x @ [1]\<rparr> else x)"

definition pure_rdma_repl_slave_thread :: "slave_env \<Rightarrow> rdma_sync \<Rightarrow> rdma_sync option" where
  "pure_rdma_repl_slave_thread env x =
     (case spc x of
        S_header \<Rightarrow>
          if \<not> sl_recv env then Some (x\<lparr>spc := S_return False\<rparr>)
          else (case to_slave x of
            [] \<Rightarrow> None
          | n # ns \<Rightarrow>
              let x1 = x\<lparr>to_slave := ns, s_size := n\<rparr>
              in if n = 0 then
                   Some (send_ack env (x1\<lparr>spc := S_return True, s_log := if sl_open env then [] else s_log x1\<rparr>))
                 else if \<not> sl_open env then Some (x1\<lparr>spc := S_return False\<rparr>)
                 else Some (send_ack env (x1\<lparr>spc := S_chunk, s_received := 0, s_log := []\<rparr>)))
      | S_chunk \<Rightarrow>
          if s_received x < s_size x then
            if \<not> sl_recv env then Some (x\<lparr>spc := S_return False\<rparr>)
            else (case to_slave x of
              [] \<Rightarrow> None
            | c # cs \<Rightarrow> Some (x\<lparr>to_slave := cs, spc := if c = 0 then S_return False else S_write c\<rparr>))
          else Some (x\<lparr>spc := S_return True\<rparr>)
      | S_write c \<Rightarrow>
          let w = min c (sl_write env); x1 = x\<lparr>s_log := s_log x @ take w (ring x)\<rparr>
          in if w < c then Some (x1\<lparr>spc := S_return False\<rparr>)
             else Some (send_ack env (x1\<lparr>spc := S_chunk, s_received := s_received x + c\<rparr>))
      | S_return b \<Rightarrow> None)"

text \<open>After its return the replica replays a log that is not empty.\<close>

definition rdma_slave_recover :: "(nat \<Rightarrow> bool) \<Rightarrow> (nat \<Rightarrow> cmd_env \<times> alloc_env) \<Rightarrow> rdma_sync \<Rightarrow> kvs_server \<Rightarrow> kvs_server option" where
  "rdma_slave_recover sys envs x s =
     (let s1 = put_log (s_log x) s
      in if spc x = S_return True \<and> s_size x > 0 then kvs_persistence_recover sys envs s1 else Some s1)"

definition rdma_start :: "bytes \<Rightarrow> bytes \<Rightarrow> bytes \<Rightarrow> rdma_sync" where
  "rdma_start f old buf = \<lparr>mpc = M_header, m_offset = 0, m_left = length f, spc = S_header, s_size = 0, s_received = 0,
     s_log = old, ring = buf, to_slave = [], to_master = []\<rparr>"

section \<open>Runs\<close>

text \<open>
  The interleavings; \<open>clean\<close> ones have no failure. The runs considered have no failed wait of the
  master: since it is ignored, the master would overwrite a chunk that the replica has not read.
\<close>

definition works :: "slave_env \<Rightarrow> bool" where
  "works env \<longleftrightarrow> sl_recv env \<and> sl_open env \<and> RDMA_CHUNK_SIZE \<le> sl_write env \<and> sl_ack env"

definition waiting :: "master_pc \<Rightarrow> bool" where
  "waiting p \<longleftrightarrow> p = M_header_ack \<or> (\<exists>c. p = M_chunk_ack c)"

inductive rdma_step :: "bytes \<Rightarrow> bool \<Rightarrow> rdma_sync \<Rightarrow> rdma_sync \<Rightarrow> bool" for f where
  master: "repl_sync_log_via_rdma f True x = Some x' \<Longrightarrow> rdma_step f clean x x'"
| master_fails: "repl_sync_log_via_rdma f False x = Some x' \<Longrightarrow> \<not> waiting (mpc x) \<Longrightarrow> rdma_step f False x x'"
| slave: "pure_rdma_repl_slave_thread env x = Some x' \<Longrightarrow> (clean \<longrightarrow> works env) \<Longrightarrow> rdma_step f clean x x'"

inductive rdma_run :: "bytes \<Rightarrow> bool \<Rightarrow> rdma_sync \<Rightarrow> rdma_sync \<Rightarrow> bool" for f clean where
  run_refl: "rdma_run f clean x x"
| run_step: "rdma_run f clean x y \<Longrightarrow> rdma_step f clean y z \<Longrightarrow> rdma_run f clean x z"

section \<open>Invariant\<close>

definition m_sent :: "rdma_sync \<Rightarrow> nat" where
  "m_sent x = (case mpc x of M_chunk_ack c \<Rightarrow> m_offset x + c | _ \<Rightarrow> m_offset x)"

text \<open>The chunk in transit is in the ring.\<close>

definition in_ring :: "bytes \<Rightarrow> nat \<Rightarrow> rdma_sync \<Rightarrow> bool" where
  "in_ring f c x \<longleftrightarrow> mpc x = M_chunk_ack c \<and> s_received x = m_offset x \<and> take c (ring x) = take c (drop (m_offset x) f)"

definition master_ok :: "bytes \<Rightarrow> rdma_sync \<Rightarrow> bool" where
  "master_ok f x \<longleftrightarrow> m_offset x + m_left x = length f \<and>
     (case mpc x of
        M_header \<Rightarrow> m_offset x = 0 \<and> to_slave x = [] \<and> to_master x = []
      | M_header_ack \<Rightarrow> m_offset x = 0
      | M_chunk \<Rightarrow> f \<noteq> [] \<and> to_slave x = [] \<and> to_master x = []
      | M_chunk_ack c \<Rightarrow> 0 < c \<and> c \<le> m_left x \<and> c \<le> RDMA_CHUNK_SIZE \<and> f \<noteq> []
      | M_return r \<Rightarrow> to_slave x = [] \<and> to_master x = [] \<and> (r = 0 \<longrightarrow> m_left x = 0))"

definition slave_ok :: "bytes \<Rightarrow> bytes \<Rightarrow> rdma_sync \<Rightarrow> bool" where
  "slave_ok f old x \<longleftrightarrow>
     (case spc x of
        S_header \<Rightarrow> s_log x = old \<and> to_master x = [] \<and>
          (mpc x = M_header \<or> mpc x = M_header_ack \<and> to_slave x = [length f] \<or> (\<exists>r. mpc x = M_return r \<and> r \<noteq> 0))
      | S_chunk \<Rightarrow> mpc x \<noteq> M_header \<and> s_size x = length f \<and> f \<noteq> [] \<and> s_log x = take (s_received x) f \<and>
          (to_slave x = [] \<and> s_received x = m_sent x \<or> (\<exists>c. to_slave x = [c] \<and> to_master x = [] \<and> in_ring f c x))
      | S_write c \<Rightarrow> s_size x = length f \<and> f \<noteq> [] \<and> s_log x = take (s_received x) f \<and> to_slave x = [] \<and> to_master x = [] \<and> in_ring f c x
      | S_return True \<Rightarrow> mpc x \<noteq> M_header \<and> to_slave x = [] \<and> m_sent x = length f \<and> (s_log x = f \<or> f = [] \<and> s_log x = old)
      | S_return False \<Rightarrow> s_log x = old \<or> (\<exists>k. s_log x = take k f))"

definition link_ok :: "rdma_sync \<Rightarrow> bool" where
  "link_ok x \<longleftrightarrow> length (to_slave x) + length (to_master x) \<le> 1"

definition rdma_inv :: "bytes \<Rightarrow> bytes \<Rightarrow> rdma_sync \<Rightarrow> bool" where
  "rdma_inv f old x \<longleftrightarrow> master_ok f x \<and> slave_ok f old x \<and> link_ok x"

lemmas rdma_inv_defs = rdma_inv_def master_ok_def slave_ok_def link_ok_def in_ring_def m_sent_def

lemma await_ack_cases:
  assumes "await_ack True x = Some x1" and "link_ok x"
  shows "x1 = x\<lparr>to_master := []\<rparr> \<and> to_master x \<noteq> [] \<and> to_slave x = []"
  using assms by (cases "to_master x") (auto simp: await_ack_def link_ok_def)

lemma master_keeps:
  assumes "rdma_inv f old x" and "repl_sync_log_via_rdma f ok x = Some x'" and "waiting (mpc x) \<longrightarrow> ok" and "length f < 2 ^ 32"
  shows "rdma_inv f old x'"
proof (cases "mpc x")
  case M_header
  have size: "length f mod 2 ^ 32 = length f"
    using assms(4) by simp
  have x': "x' = (if ok then x\<lparr>mpc := M_header_ack, to_slave := to_slave x @ [length f]\<rparr> else x\<lparr>mpc := M_return (-1)\<rparr>)"
    using assms(2) M_header by (simp only: repl_sync_log_via_rdma_def master_pc.case option.inject size)
  show ?thesis
    using assms(1) M_header unfolding x' rdma_inv_defs by (cases "spc x") (auto split: bool.splits)
next
  case M_header_ack
  with assms(2,3) obtain x1 where "await_ack True x = Some x1" "x' = (if f = [] then x1\<lparr>mpc := M_return 0\<rparr> else x1\<lparr>mpc := M_chunk\<rparr>)"
    by (auto simp: repl_sync_log_via_rdma_def waiting_def)
  with assms(1) await_ack_cases [of x x1] M_header_ack show ?thesis
    by (auto simp: rdma_inv_defs split: slave_pc.splits bool.splits)
next
  case M_chunk
  define c where "c = min (m_left x) RDMA_CHUNK_SIZE"
  show ?thesis
  proof (cases "m_left x = 0 \<or> \<not> ok")
    case True
    with assms(1,2) M_chunk show ?thesis
      by (auto simp: repl_sync_log_via_rdma_def rdma_inv_defs Let_def split: slave_pc.splits bool.splits if_splits)
  next
    case False
    then have x': "x' = x\<lparr>mpc := M_chunk_ack c, ring := take c (drop (m_offset x) f) @ drop c (ring x), to_slave := to_slave x @ [c]\<rparr>"
      using assms(2) M_chunk by (simp add: repl_sync_log_via_rdma_def Let_def c_def)
    have c: "0 < c" "c \<le> m_left x" "c \<le> RDMA_CHUNK_SIZE" "m_offset x + m_left x = length f"
      using False assms(1) by (auto simp: c_def RDMA_CHUNK_SIZE_def rdma_inv_def master_ok_def)
    show ?thesis
      using assms(1) M_chunk c unfolding x' rdma_inv_defs by (cases "spc x") (auto split: bool.splits)
  qed
next
  case (M_chunk_ack c)
  with assms(2,3) obtain x1 where "await_ack True x = Some x1" "x' = x1\<lparr>mpc := M_chunk, m_offset := m_offset x + c, m_left := m_left x - c\<rparr>"
    by (auto simp: repl_sync_log_via_rdma_def waiting_def)
  with assms(1) await_ack_cases [of x x1] M_chunk_ack show ?thesis
    by (auto simp: rdma_inv_defs split: slave_pc.splits bool.splits)
next
  case (M_return r)
  with assms(2) show ?thesis by (simp add: repl_sync_log_via_rdma_def)
qed

lemma send_ack_simps [simp]:
  "mpc (send_ack env x) = mpc x" "m_offset (send_ack env x) = m_offset x" "m_left (send_ack env x) = m_left x"
  "spc (send_ack env x) = spc x" "s_size (send_ack env x) = s_size x" "s_received (send_ack env x) = s_received x"
  "s_log (send_ack env x) = s_log x" "ring (send_ack env x) = ring x" "to_slave (send_ack env x) = to_slave x"
  by (simp_all add: send_ack_def)

lemma to_master_send_ack: "to_master (send_ack env x) = to_master x @ (if sl_ack env then [1] else [])"
  by (simp add: send_ack_def)

lemma slave_keeps:
  assumes "rdma_inv f old x" and "pure_rdma_repl_slave_thread env x = Some x'" and "length f < 2 ^ 32"
  shows "rdma_inv f old x'"
proof (cases "spc x")
  case S_header
  with assms show ?thesis
    by (auto simp: pure_rdma_repl_slave_thread_def rdma_inv_defs Let_def to_master_send_ack split: list.splits if_splits master_pc.splits)
next
  case S_chunk
  with assms show ?thesis
    by (auto simp: pure_rdma_repl_slave_thread_def rdma_inv_defs Let_def to_master_send_ack split: list.splits if_splits master_pc.splits)
next
  case (S_write c)
  then have "take c (ring x) = take c (drop (m_offset x) f)"
    using assms(1) by (simp add: rdma_inv_def slave_ok_def in_ring_def)
  then have part: "take (m_offset x) f @ take w (ring x) = take (m_offset x + w) f" if "w \<le> c" for w
    using that by (metis min.absorb1 take_add take_take)
  have "s_log x = take (m_offset x) f" "s_received x = m_offset x"
    using assms(1) S_write by (simp_all add: rdma_inv_def slave_ok_def in_ring_def)
  then have x': "x' = (if min c (sl_write env) < c then x\<lparr>s_log := take (m_offset x + min c (sl_write env)) f, spc := S_return False\<rparr>
      else send_ack env (x\<lparr>s_log := take (m_offset x + c) f, spc := S_chunk, s_received := m_offset x + c\<rparr>))"
    using assms(2) S_write part [of "min c (sl_write env)"]
    by (auto simp: pure_rdma_repl_slave_thread_def Let_def min_def split: if_splits)
  show ?thesis
    using assms(1) S_write unfolding x' by (auto simp: rdma_inv_defs to_master_send_ack split: if_splits)
next
  case (S_return b)
  with assms(2) show ?thesis by (simp add: pure_rdma_repl_slave_thread_def)
qed

lemma step_keeps: "rdma_step f clean x x' \<Longrightarrow> rdma_inv f old x \<Longrightarrow> length f < 2 ^ 32 \<Longrightarrow> rdma_inv f old x'"
  by (induction rule: rdma_step.induct) (blast intro: master_keeps slave_keeps)+

lemma start_ok: "rdma_inv f old (rdma_start f old buf)"
  by (simp add: rdma_start_def rdma_inv_defs)

lemma run_keeps:
  assumes "rdma_run f clean x y" and "rdma_inv f old x" and "length f < 2 ^ 32"
  shows "rdma_inv f old y"
  using assms by (induction rule: rdma_run.induct) (auto intro: step_keeps)

lemma inv_log:
  assumes "rdma_inv f old x"
  shows "s_log x = old \<or> (\<exists>k. s_log x = take k f)"
proof -
  have "\<exists>k. f = take k f"
    by (rule exI [of _ "length f"]) simp
  then show ?thesis
    using assms by (cases "spc x") (auto simp: rdma_inv_def slave_ok_def split: bool.splits)
qed

section \<open>Termination\<close>

text \<open>Every step of a run makes the work left smaller.\<close>

definition master_work :: "rdma_sync \<Rightarrow> nat" where
  "master_work x = (case mpc x of M_header \<Rightarrow> 2 * m_left x + 3 | M_header_ack \<Rightarrow> 2 * m_left x + 2 | M_chunk \<Rightarrow> 2 * m_left x + 1
     | M_chunk_ack c \<Rightarrow> 2 * m_left x | M_return r \<Rightarrow> 0)"

definition slave_work :: "bytes \<Rightarrow> rdma_sync \<Rightarrow> nat" where
  "slave_work f x = (case spc x of S_header \<Rightarrow> 2 * length f + 2 | S_chunk \<Rightarrow> 2 * (s_size x - s_received x) + 1
     | S_write c \<Rightarrow> 2 * (s_size x - s_received x) | S_return b \<Rightarrow> 0)"

definition rdma_work :: "bytes \<Rightarrow> rdma_sync \<Rightarrow> nat" where
  "rdma_work f x = master_work x + slave_work f x"

lemma master_progress:
  assumes "repl_sync_log_via_rdma f ok x = Some x'" and "master_ok f x"
  shows "master_work x' < master_work x \<and> slave_work f x' = slave_work f x"
proof (cases "mpc x")
  case (M_chunk_ack c)
  then show ?thesis
    using assms by (auto simp: repl_sync_log_via_rdma_def await_ack_def master_work_def slave_work_def master_ok_def cong: slave_pc.case_cong master_pc.case_cong split: if_splits list.splits)
qed (use assms in \<open>auto simp: repl_sync_log_via_rdma_def await_ack_def master_work_def slave_work_def Let_def cong: slave_pc.case_cong master_pc.case_cong split: if_splits list.splits\<close>)

lemma slave_progress:
  assumes "pure_rdma_repl_slave_thread env x = Some x'" and "rdma_inv f old x"
  shows "slave_work f x' < slave_work f x \<and> master_work x' = master_work x"
proof (cases "spc x")
  case (S_write c)
  then have "0 < c" "s_received x + c \<le> s_size x"
    using assms(2) by (auto simp: rdma_inv_defs)
  with S_write assms(1) show ?thesis
    by (auto simp: pure_rdma_repl_slave_thread_def master_work_def slave_work_def Let_def cong: master_pc.case_cong split: if_splits)
next
  case S_header
  then show ?thesis
    using assms by (auto simp: pure_rdma_repl_slave_thread_def master_work_def slave_work_def rdma_inv_defs Let_def cong: slave_pc.case_cong master_pc.case_cong split: if_splits list.splits)
qed (use assms(1) in \<open>auto simp: pure_rdma_repl_slave_thread_def master_work_def slave_work_def Let_def cong: slave_pc.case_cong master_pc.case_cong split: if_splits list.splits\<close>)

lemma step_progress:
  assumes "rdma_step f clean x y" and "rdma_inv f old x"
  shows "rdma_work f y < rdma_work f x"
  using assms master_progress [of f _ x y] slave_progress [of _ x y f old]
  by (induction rule: rdma_step.induct) (fastforce simp: rdma_work_def rdma_inv_def)+

section \<open>Runs without failures\<close>

definition clean_ok :: "bytes \<Rightarrow> rdma_sync \<Rightarrow> bool" where
  "clean_ok f x \<longleftrightarrow> spc x \<noteq> S_return False \<and> (spc x = S_return True \<longrightarrow> s_log x = f) \<and> (\<forall>r. mpc x = M_return r \<longrightarrow> r = 0) \<and>
     (waiting (mpc x) \<longrightarrow> to_slave x \<noteq> [] \<or> to_master x \<noteq> [] \<or> (\<exists>c. spc x = S_write c))"

definition finished :: "rdma_sync \<Rightarrow> bool" where
  "finished x \<longleftrightarrow> mpc x = M_return 0 \<and> spc x = S_return True"

lemma master_clean:
  assumes "repl_sync_log_via_rdma f True x = Some x'" and "clean_ok f x"
  shows "clean_ok f x'"
  using assms
  by (cases "mpc x") (auto simp: repl_sync_log_via_rdma_def await_ack_def clean_ok_def waiting_def Let_def split: list.splits if_splits)

lemma slave_clean:
  assumes "pure_rdma_repl_slave_thread env x = Some x'" and "works env" and "clean_ok f x" and "rdma_inv f old x"
  shows "clean_ok f x'"
proof (cases "spc x")
  case S_header
  then show ?thesis
    using assms by (auto simp: pure_rdma_repl_slave_thread_def clean_ok_def works_def to_master_send_ack rdma_inv_defs waiting_def Let_def
      split: list.splits if_splits)
next
  case S_chunk
  then show ?thesis
    using assms by (auto simp: pure_rdma_repl_slave_thread_def clean_ok_def works_def rdma_inv_defs waiting_def split: list.splits if_splits)
next
  case (S_write c)
  then have "c \<le> RDMA_CHUNK_SIZE"
    using assms(4) by (auto simp: rdma_inv_defs)
  with S_write show ?thesis
    using assms(1-3) by (auto simp: pure_rdma_repl_slave_thread_def clean_ok_def works_def to_master_send_ack Let_def split: if_splits)
next
  case (S_return b)
  then show ?thesis
    using assms(1) by (simp add: pure_rdma_repl_slave_thread_def)
qed

lemma step_clean:
  assumes "rdma_step f clean x y" and "clean" and "clean_ok f x" and "rdma_inv f old x"
  shows "clean_ok f y"
  using assms by (induction rule: rdma_step.induct) (blast intro: master_clean slave_clean)+

lemma run_clean:
  assumes "rdma_run f True x y" and "clean_ok f x" and "rdma_inv f old x" and "length f < 2 ^ 32"
  shows "clean_ok f y"
  using assms
proof (induction rule: rdma_run.induct)
  case (run_step x y z)
  then show ?case
    using step_clean [OF run_step.hyps(2)] run_keeps [OF run_step.hyps(1)] by blast
qed

text \<open>One of the two programs can always go on.\<close>

definition env_works :: slave_env where
  "env_works = \<lparr>sl_recv = True, sl_open = True, sl_write = RDMA_CHUNK_SIZE, sl_ack = True\<rparr>"

lemma no_deadlock:
  assumes "rdma_inv f old x" and "clean_ok f x" and "\<not> finished x"
  shows "\<exists>y. rdma_step f True x y"
proof -
  have "(\<exists>y. repl_sync_log_via_rdma f True x = Some y) \<or> (\<exists>y. pure_rdma_repl_slave_thread env_works x = Some y)"
  proof (cases "mpc x")
    case (M_return r)
    with assms show ?thesis
      by (cases "spc x") (auto simp: rdma_inv_defs clean_ok_def finished_def pure_rdma_repl_slave_thread_def)
  next
    case M_header_ack
    with assms show ?thesis
      by (cases "spc x")
        (auto simp: rdma_inv_defs clean_ok_def waiting_def repl_sync_log_via_rdma_def await_ack_def pure_rdma_repl_slave_thread_def
          env_works_def Let_def neq_Nil_conv split: bool.splits)
  next
    case (M_chunk_ack c)
    with assms show ?thesis
      by (cases "spc x")
        (auto simp: rdma_inv_defs clean_ok_def waiting_def repl_sync_log_via_rdma_def await_ack_def pure_rdma_repl_slave_thread_def
          env_works_def Let_def neq_Nil_conv split: bool.splits)
  qed (auto simp: repl_sync_log_via_rdma_def Let_def)
  moreover have "works env_works"
    by (simp add: works_def env_works_def)
  ultimately show ?thesis
    by (blast intro: rdma_step.intros)
qed

lemma run_front: "rdma_run f clean y z \<Longrightarrow> rdma_step f clean x y \<Longrightarrow> rdma_run f clean x z"
  by (induction rule: rdma_run.induct) (blast intro: rdma_run.intros)+

lemma clean_run_finishes:
  assumes "rdma_inv f old x" and "clean_ok f x" and "length f < 2 ^ 32"
  shows "\<exists>y. rdma_run f True x y \<and> finished y \<and> s_log y = f"
  using assms
proof (induction "rdma_work f x" arbitrary: x rule: less_induct)
  case less
  show ?case
  proof (cases "finished x")
    case True
    with less.prems(2) show ?thesis
      by (auto simp: finished_def clean_ok_def intro: run_refl)
  next
    case False
    obtain y where y: "rdma_step f True x y"
      using no_deadlock [OF less.prems(1,2) False] by blast
    then have "\<exists>z. rdma_run f True y z \<and> finished z \<and> s_log z = f"
      using less.hyps [of y] step_progress step_keeps step_clean less.prems by blast
    with y show ?thesis
      using run_front by blast
  qed
qed

section \<open>Property\<close>

text \<open>
  C37. The synchronisation over RDMA copies the log and ends: in every interleaving of master and replica, with
  failures of posting, receiving, opening, writing and acknowledging at any point, the replica's log is its old one or a
  prefix of the master's, and when the replica has reported success it is the master's log (an empty one
  possibly not truncated). Every step reduces the work left, so no run is infinite, and a run
  without failures can always go on until both sides have returned successfully with the log
  copied. The hypothesis is that the log has less than 4 GB; the waits of the master do not fail.
\<close>

theorem rdma_sync_copies_log:
  assumes "rdma_run f clean (rdma_start f old buf) x" and "length f < 2 ^ 32"
  shows "(s_log x = old \<or> (\<exists>k. s_log x = take k f)) \<and> (spc x = S_return True \<longrightarrow> s_log x = f \<or> f = [] \<and> s_log x = old) \<and>
    (\<forall>y. rdma_step f clean x y \<longrightarrow> rdma_work f y < rdma_work f x) \<and>
    (clean \<longrightarrow> (\<exists>y. rdma_run f True x y \<and> finished y \<and> s_log y = f))"
proof -
  note inv = run_keeps [OF assms(1) start_ok assms(2)]
  have "spc x = S_return True \<longrightarrow> s_log x = f \<or> f = [] \<and> s_log x = old"
    using inv by (auto simp: rdma_inv_def slave_ok_def)
  moreover have "\<exists>y. rdma_run f True x y \<and> finished y \<and> s_log y = f" if "clean"
  proof (rule clean_run_finishes [OF inv _ assms(2)])
    have "clean_ok f (rdma_start f old buf)"
      by (simp add: clean_ok_def rdma_start_def waiting_def)
    then show "clean_ok f x"
      using run_clean [OF _ _ start_ok assms(2)] assms(1) that by simp
  qed
  ultimately show ?thesis
    using inv_log [OF inv] step_progress [OF _ inv] by blast
qed

theorem rdma_sync_copies_log_witness:
  "\<exists>y. rdma_run ''ab'' True (rdma_start ''ab'' ''old'' ''xxxx'') y \<and> finished y \<and> s_log y = ''ab''"
proof -
  have "rdma_run ''ab'' True (rdma_start ''ab'' ''old'' ''xxxx'') (rdma_start ''ab'' ''old'' ''xxxx'')"
    by (rule run_refl)
  from rdma_sync_copies_log [OF this] show ?thesis by simp
qed

text \<open>The replica's data after the replay.\<close>

lemma rdma_slave_recovers:
  assumes "spc x = S_return True" and "s_log x = requests as" and "length (requests as) < 2 ^ 31"
    and "\<forall>a\<in>set as. sized a \<and> keyed a" and "\<And>i j. snd (envs i) j" and "server_inv s"
  shows "\<exists>s'. rdma_slave_recover sys envs x s = Some s' \<and> server_inv s' \<and> aof_file (g_aof s') = requests as"
  using recover_inv [of "put_log (s_log x) s" as envs sys] assms by (auto simp: rdma_slave_recover_def frame_def Let_def)

end
