(* ===== verification/Rdma_Connect.thy ===== *)
theory Rdma_Connect
  imports Rdma_Sync Byte_Pipe
begin

text \<open>
  The handshake that connects the queue pairs of master and replica (\<^verbatim>\<open>repl.c\<close>): the replica sends
  \<open>RDMA_CONNECT\<close> with its memory key, address, queue pair and GID in text form, the master reads them and
  answers with its own in \<open>RDMA_CONNECT_ACK\<close>, the replica reads those and asks for the log. Shown is
  that each side configures its queue pair with exactly the other's values when the acknowledgement
  arrives in one piece, and that the replica gives up silently when it does not.
\<close>

section \<open>Values in text form\<close>

record ring_meta =
  rm_rkey :: "32 word"
  rm_va :: "64 word"
  rm_qpn :: "32 word"
  rm_gid :: bytes

text \<open>\<open>strtoul\<close> and \<open>strtoull\<close> with base 10: saturated at the largest value, a negative number is taken modulo \<open>2^64\<close>.\<close>

definition strtoull :: "bytes \<Rightarrow> nat" where
  "strtoull s =
     (case dropWhile is_space s of
        [] \<Rightarrow> 0
      | c # cs \<Rightarrow>
          if c = CHR ''-'' then
            let v = digits_value 0 cs in if v \<ge> 2 ^ 64 then 2 ^ 64 - 1 else (2 ^ 64 - v) mod 2 ^ 64
          else min (2 ^ 64 - 1) (digits_value 0 (if c = CHR ''+'' then cs else c # cs)))"

definition hex_digit :: "nat \<Rightarrow> char" where
  "hex_digit d = (if d < 10 then digit d else char_of (87 + d))"

definition print_hex2 :: "char \<Rightarrow> bytes" where
  "print_hex2 c = [hex_digit (of_char c div 16), hex_digit (of_char c mod 16)]"

definition hex_value :: "char \<Rightarrow> nat option" where
  "hex_value c =
     (let n = of_char c :: nat
      in if 48 \<le> n \<and> n \<le> 57 then Some (n - 48)
         else if 97 \<le> n \<and> n \<le> 102 then Some (n - 87)
         else if 65 \<le> n \<and> n \<le> 70 then Some (n - 55)
         else None)"

text \<open>
  \<open>sscanf(s, "%02x", &b)\<close> and the low byte of \<open>b\<close>: at most two characters, of which the first may be a sign; \<open>None\<close>
  when nothing is converted (a mere \<open>0x\<close> included), which leaves \<open>b\<close> without a value.
\<close>

definition scan_hex2 :: "bytes \<Rightarrow> char option" where
  "scan_hex2 s =
     (case dropWhile is_space s of
        [] \<Rightarrow> None
      | [c] \<Rightarrow> map_option char_of (hex_value c)
      | c # d # _ \<Rightarrow>
          (case (hex_value c, hex_value d) of
             (Some x, Some y) \<Rightarrow> Some (char_of (16 * x + y))
           | (Some x, None) \<Rightarrow> if c = CHR ''0'' \<and> d \<in> {CHR ''x'', CHR ''X''} then None else Some (char_of x)
           | (None, Some y) \<Rightarrow> if c = CHR ''+'' then Some (char_of y) else if c = CHR ''-'' then Some (char_of ((256 - y) mod 256)) else None
           | (None, None) \<Rightarrow> None))"

fun scan_gid :: "nat \<Rightarrow> bytes \<Rightarrow> bytes option" where
  "scan_gid 0 s = Some []"
| "scan_gid (Suc n) s = (case scan_hex2 s of None \<Rightarrow> None | Some b \<Rightarrow> map_option ((#) b) (scan_gid n (drop 2 s)))"

definition scan_meta :: "bytes \<Rightarrow> bytes \<Rightarrow> bytes \<Rightarrow> bytes \<Rightarrow> ring_meta option" where
  "scan_meta k va qpn gid =
     map_option (\<lambda>g. \<lparr>rm_rkey = of_nat (strtoull k), rm_va = of_nat (strtoull va), rm_qpn = of_nat (strtoull qpn), rm_gid = g\<rparr>)
       (scan_gid 16 gid)"

definition meta_args :: "ring_meta \<Rightarrow> bytes list" where
  "meta_args m = [dec (unat (rm_rkey m)), dec (unat (rm_va m)), dec (unat (rm_qpn m)), concat (map print_hex2 (rm_gid m))]"

text \<open>The \<open>sprintf\<close> of both commands; the name with its length is part of the format.\<close>

definition rdma_command :: "bytes \<Rightarrow> bytes \<Rightarrow> ring_meta \<Rightarrow> bytes" where
  "rdma_command n name m =
     ''*5'' @ crlf @ CHR ''$'' # n @ crlf @ name @ crlf @ concat (map (\<lambda>a. CHR ''$'' # dec (length a) @ crlf @ a @ crlf) (meta_args m))"

definition sync_cmd :: "ring_meta \<Rightarrow> bytes" where
  "sync_cmd m = rdma_command ''12'' ''RDMA_CONNECT'' m"

definition ack_cmd :: "ring_meta \<Rightarrow> bytes" where
  "ack_cmd m = rdma_command ''16'' ''RDMA_CONNECT_ACK'' m"

text \<open>
  \<open>get_rocev2_ipv4_gid\<close> on the results of \<open>ibv_query_gid\<close> (\<open>None\<close>: an error): the first GID that maps an IPv4 address; without
  one both sides use GID 0.
\<close>

fun rocev2_search :: "(nat \<Rightarrow> bytes option) \<Rightarrow> nat list \<Rightarrow> bytes option" where
  "rocev2_search query [] = None"
| "rocev2_search query (i # is) =
     (case query i of
        None \<Rightarrow> None
      | Some tg \<Rightarrow>
          if tg = replicate 16 NUL then rocev2_search query is
          else if tg ! 10 = CHR 0xff \<and> tg ! 11 = CHR 0xff then Some tg
          else rocev2_search query is)"

definition get_rocev2_ipv4_gid :: "(nat \<Rightarrow> bytes option) \<Rightarrow> bytes option" where
  "get_rocev2_ipv4_gid query = rocev2_search query [0..<16]"

definition own_gid :: "(nat \<Rightarrow> bytes option) \<Rightarrow> bytes" where
  "own_gid query =
     (case get_rocev2_ipv4_gid query of
        Some g \<Rightarrow> g
      | None \<Rightarrow> (case query 0 of Some g \<Rightarrow> g | None \<Rightarrow> replicate 16 NUL))"

section \<open>Sending and receiving\<close>

text \<open>The loop that sends all of \<open>data\<close>: the bytes sent and whether they are all; \<open>None\<close> if the outcomes are used up.\<close>

fun send_all :: "socket list \<Rightarrow> bytes \<Rightarrow> (bytes \<times> bool) option" where
  "send_all ks [] = Some ([], True)"
| "send_all [] data = None"
| "send_all (k # ks) data =
     (case sock_send k data of
        (sent, again, out) \<Rightarrow>
          if sent \<le> 0 then Some ([], False) else map_option (\<lambda>(out', ok). (out @ out', ok)) (send_all ks (drop (nat sent) data)))"

fun strstr :: "bytes \<Rightarrow> bytes \<Rightarrow> bool" where
  "strstr [] needle \<longleftrightarrow> needle = []"
| "strstr (c # cs) needle \<longleftrightarrow> take (length needle) (c # cs) = needle \<or> strstr cs needle"

text \<open>
  The receiving loop of the replica on what \<open>recv\<close> delivers (nothing: closed or an error), into a buffer of 512 bytes: it stops
  as soon as there is an end of line. \<open>None\<close>: it still waits.
\<close>

fun recv_ack :: "bytes list \<Rightarrow> bytes \<Rightarrow> bytes option" where
  "recv_ack ds acc =
     (if length acc < 511 then
        (case ds of
           [] \<Rightarrow> None
         | d # ds' \<Rightarrow>
             let got = take (511 - length acc) d
             in if got = [] then Some acc
                else if strstr (cstr (acc @ got)) crlf then Some (acc @ got)
                else recv_ack ds' (acc @ got))
      else Some acc)"

declare recv_ack.simps [simp del]

abbreviation line_end :: "char \<Rightarrow> bool" where
  "line_end c \<equiv> c \<in> {CR, LF}"

text \<open>The tokens of \<open>strtok(s, "\r\n")\<close>.\<close>

function tokens :: "bytes \<Rightarrow> bytes list" where
  "tokens s =
     (case dropWhile line_end s of
        [] \<Rightarrow> []
      | c # cs \<Rightarrow> (c # takeWhile (\<lambda>x. \<not> line_end x) cs) # tokens (dropWhile (\<lambda>x. \<not> line_end x) cs))"
  by pat_completeness auto
termination
proof (relation "measure length")
  fix s c cs
  assume "dropWhile line_end s = c # cs"
  then have "length (dropWhile (\<lambda>x. \<not> line_end x) cs) < length (dropWhile line_end s)"
    by (simp add: le_imp_less_Suc length_dropWhile_le)
  also have "\<dots> \<le> length s"
    by (rule length_dropWhile_le)
  finally show "(dropWhile (\<lambda>x. \<not> line_end x) cs, s) \<in> measure length"
    by simp
qed simp

declare tokens.simps [simp del]

section \<open>Both sides\<close>

text \<open>
  The master: the values it configures its queue pair with and the part of the acknowledgement sent. \<open>None\<close>: a value or an argument is
  missing, or the send does not return. A failed configuration is only reported on the console.
\<close>

definition slave_meta :: "resp_request \<Rightarrow> ring_meta option" where
  "slave_meta req =
     (if argc req < 5 then None else scan_meta (rargv req ! 1) (rargv req ! 2) (rargv req ! 3) (rargv req ! 4))"

definition connect_answer :: "ring_meta \<Rightarrow> socket list \<Rightarrow> resp_request \<Rightarrow> (ring_meta \<times> bytes) option" where
  "connect_answer own outs req =
     (case slave_meta req of
        None \<Rightarrow> None
      | Some remote \<Rightarrow> map_option (\<lambda>(out, ok). (remote, out)) (send_all outs (ack_cmd own)))"

record connect_env =
  ce_fd :: int
  ce_connect :: bool
  ce_buffer :: bool
  ce_send :: "socket list"
  ce_recv :: "bytes list"
  ce_configure :: "ring_meta \<Rightarrow> bool"
  ce_sync :: socket

text \<open>
  The replica, with its own values (\<open>None\<close>: the RDMA context does not exist): the return value, the bytes sent and the values
  the queue pair was configured with. \<open>None\<close>: a pointer is NULL or a value missing, or a call does not return.
\<close>

definition master_meta :: "bytes \<Rightarrow> ring_meta option option" where
  "master_meta ack =
     (if ack = [] \<or> \<not> strstr (cstr ack) ''RDMA_CONNECT_ACK'' then Some None
      else
        let lines = take 16 (tokens (cstr ack))
        in if length lines < 11 then Some None
           else map_option Some (scan_meta (lines ! 4) (lines ! 6) (lines ! 8) (lines ! 10)))"

definition repl_connect_to_master :: "ring_meta option \<Rightarrow> connect_env \<Rightarrow> (int \<times> bytes \<times> ring_meta option) option" where
  "repl_connect_to_master own env =
     (if ce_fd env < 0 \<or> \<not> ce_connect env then Some (-1, [], None)
      else
        (case own of
           None \<Rightarrow> None
         | Some m \<Rightarrow>
             if \<not> ce_buffer env then None
             else
               (case send_all (ce_send env) (sync_cmd m) of
                  None \<Rightarrow> None
                | Some (out, ok) \<Rightarrow>
                    if \<not> ok then Some (-1, out, None)
                    else
                      (case recv_ack (ce_recv env) [] of
                         None \<Rightarrow> None
                       | Some ack \<Rightarrow>
                           (case master_meta ack of
                              None \<Rightarrow> None
                            | Some None \<Rightarrow> Some (ce_fd env, out, None)
                            | Some (Some remote) \<Rightarrow>
                                if \<not> ce_configure env remote then Some (-1, out, None)
                                else Some (ce_fd env, out @ snd (snd (sock_send (ce_sync env) (resp_encode [''SYNC'']))), Some remote))))))"

section \<open>Reading what was printed\<close>

lemma strtoull_dec:
  assumes "n < 2 ^ 64" and "rest = [] \<or> \<not> is_digit (hd rest)"
  shows "strtoull (dec n @ rest) = n"
proof -
  obtain c cs where c: "dec n = c # cs"
    by (cases "dec n") auto
  then have "\<not> is_space c \<and> c \<noteq> CHR ''-'' \<and> c \<noteq> CHR ''+''"
    using dec_all_digits [of c n] by (intro not_space_digit) simp
  moreover have "digits_value 0 (dec n @ rest) = n"
    using dec_all_digits [of _ n] digits_value_stop [OF assms(2)] by (simp add: digits_value_append digits_value_dec)
  ultimately show ?thesis
    using assms(1) by (simp add: strtoull_def c)
qed

lemma hex_digit_value:
  assumes "d < 16"
  shows "hex_value (hex_digit d) = Some d \<and> \<not> is_space (hex_digit d) \<and> hex_digit d \<notin> {CR, LF, NUL}"
proof -
  have "(of_char (hex_digit d) :: nat) = (if d < 10 then 48 + d else 87 + d)"
    using assms by (simp add: hex_digit_def digit_def)
  then show ?thesis
    using assms by (auto simp: hex_value_def is_space_def NUL_def split: if_splits)
qed

lemma scan_print_hex2: "scan_hex2 (print_hex2 c @ rest) = Some c"
proof -
  have "(of_char c :: nat) div 16 < 16" "(of_char c :: nat) mod 16 < 16"
    using nat_of_char_less_256 [of c] by (auto intro: less_mult_imp_div_less)
  then show ?thesis
    using hex_digit_value by (simp add: scan_hex2_def print_hex2_def)
qed

lemma length_print_hex2: "length (print_hex2 c) = 2"
  by (simp add: print_hex2_def)

lemma scan_gid_printed: "scan_gid (length g) (concat (map print_hex2 g) @ rest) = Some g"
proof (induction g)
  case (Cons c g)
  then show ?case
    using scan_print_hex2 [of c "concat (map print_hex2 g) @ rest"] length_print_hex2 by simp
qed simp

lemma unat_small: "unat (v :: 32 word) < 2 ^ 32" "unat (w :: 64 word) < 2 ^ 64"
proof -
  have "unat v < 2 ^ LENGTH(32)" "unat w < 2 ^ LENGTH(64)"
    by (rule unsigned_less)+
  then show "unat v < 2 ^ 32" "unat w < 2 ^ 64"
    by simp_all
qed

lemma scan_meta_printed:
  assumes "length (rm_gid m) = 16" and "meta_args m = [a, b, c, d]" and "\<forall>r\<in>{ra, rb, rc}. r = [] \<or> \<not> is_digit (hd r)"
  shows "scan_meta (a @ ra) (b @ rb) (c @ rc) (d @ rd) = Some m"
proof -
  have small: "unat (rm_rkey m) < 2 ^ 64" "unat (rm_va m) < 2 ^ 64" "unat (rm_qpn m) < 2 ^ 64"
    using unat_small(1) [of "rm_rkey m"] unat_small(2) [of "rm_va m"] unat_small(1) [of "rm_qpn m"] by simp_all
  have "strtoull (a @ ra) = unat (rm_rkey m)" "strtoull (b @ rb) = unat (rm_va m)" "strtoull (c @ rc) = unat (rm_qpn m)"
    using assms(2,3) strtoull_dec [OF small(1), of ra] strtoull_dec [OF small(2), of rb] strtoull_dec [OF small(3), of rc]
    by (simp_all add: meta_args_def)
  then show ?thesis
    using assms(1,2) scan_gid_printed [of "rm_gid m" rd] by (simp add: scan_meta_def meta_args_def)
qed

section \<open>The commands\<close>

definition ack_lines :: "bytes \<Rightarrow> bytes \<Rightarrow> ring_meta \<Rightarrow> bytes list" where
  "ack_lines n name m = ''*5'' # (CHR ''$'' # n) # name # concat (map (\<lambda>a. [CHR ''$'' # dec (length a), a]) (meta_args m))"

lemma rdma_command_lines: "rdma_command n name m = concat (map (\<lambda>l. l @ crlf) (ack_lines n name m))"
  by (simp add: rdma_command_def ack_lines_def meta_args_def)

definition text_byte :: "char \<Rightarrow> bool" where
  "text_byte c \<longleftrightarrow> c \<notin> {CR, LF, NUL}"

lemma dec_clean: "c \<in> set (dec n) \<Longrightarrow> text_byte c"
  using dec_all_digits [of c n] by (auto simp: text_byte_def is_digit_def NUL_def)

lemma hex_clean: "c \<in> set (concat (map print_hex2 g)) \<Longrightarrow> text_byte c"
proof -
  have "of_char x div 16 < (16 :: nat)" "of_char x mod 16 < (16 :: nat)" for x :: char
    using nat_of_char_less_256 [of x] by (auto intro: less_mult_imp_div_less)
  moreover assume "c \<in> set (concat (map print_hex2 g))"
  ultimately obtain d where "c = hex_digit d" "d < 16"
    by (auto simp: print_hex2_def)
  then show "text_byte c"
    using hex_digit_value [of d] by (simp add: text_byte_def)
qed

lemma meta_args_clean:
  assumes "a \<in> set (meta_args m)" and "c \<in> set a"
  shows "text_byte c"
proof -
  consider n where "a = dec n" | "a = concat (map print_hex2 (rm_gid m))"
    using assms(1) unfolding meta_args_def list.set insert_iff by blast
  then show ?thesis
  proof cases
    case 1
    then show ?thesis using dec_clean assms(2) by metis
  next
    case 2
    then show ?thesis using hex_clean assms(2) by metis
  qed
qed

lemma meta_args_long:
  assumes "a \<in> set (meta_args m)" and "length (rm_gid m) = 16"
  shows "a \<noteq> [] \<and> length a \<le> 32"
proof -
  have w: "length (dec (unat v)) \<le> 10" "length (dec (unat w)) \<le> 20" for v :: "32 word" and w :: "64 word"
    using unat_small(1) [of v] unat_small(2) [of w] by (simp_all add: dec_length)
  have g: "length (concat (map print_hex2 (rm_gid m))) = 32"
  proof -
    have "length (concat (map print_hex2 g)) = 2 * length g" for g
      by (induction g) (simp_all add: length_print_hex2)
    then show ?thesis using assms(2) by simp
  qed
  consider "a = dec (unat (rm_rkey m))" | "a = dec (unat (rm_va m))" | "a = dec (unat (rm_qpn m))" | "a = concat (map print_hex2 (rm_gid m))"
    using assms(1) by (auto simp: meta_args_def)
  then show ?thesis
  proof cases
    case 1
    then show ?thesis using w(1) [of "rm_rkey m"] by simp
  next
    case 2
    then show ?thesis using w(2) [of "rm_va m"] by simp
  next
    case 3
    then show ?thesis using w(1) [of "rm_qpn m"] by simp
  next
    case 4
    have "a \<noteq> []"
      unfolding 4 using g by (metis list.size(3) zero_neq_numeral)
    then show ?thesis using g 4 by simp
  qed
qed

lemma lines_clean:
  assumes "length (rm_gid m) = 16" and "l \<in> set (ack_lines n name m)" and "\<forall>c\<in>set n \<union> set name. text_byte c" and "name \<noteq> []"
  shows "l \<noteq> [] \<and> (\<forall>c\<in>set l. text_byte c)"
proof -
  have dollar: "text_byte CHR ''$''" "text_byte CHR ''*''" "text_byte CHR ''5''"
    by code_simp+
  consider "l \<in> {''*5'', CHR ''$'' # n, name}" | a where "a \<in> set (meta_args m)" "l = CHR ''$'' # dec (length a)" | "l \<in> set (meta_args m)"
    using assms(2) by (auto simp: ack_lines_def)
  then show ?thesis
  proof cases
    case 1
    then show ?thesis using assms(3,4) dollar by auto
  next
    case 2
    then show ?thesis using dec_clean dollar by auto
  next
    case 3
    then show ?thesis using meta_args_clean [OF 3] meta_args_long [OF 3 assms(1)] by blast
  qed
qed

lemma tokens_line:
  assumes "l \<noteq> []" and "\<forall>c\<in>set l. \<not> line_end c"
  shows "tokens (l @ crlf @ rest) = l # tokens rest"
proof -
  obtain c cs where l: "l = c # cs"
    using assms(1) by (cases l) auto
  have "tokens (crlf @ rest) = tokens rest"
    by (subst (1 2) tokens.simps) simp
  then show ?thesis
    using assms(2) unfolding l by (subst tokens.simps) (simp add: takeWhile_append2 dropWhile_append2)
qed

lemma tokens_lines:
  "\<forall>l\<in>set ls. l \<noteq> [] \<and> (\<forall>c\<in>set l. \<not> line_end c) \<Longrightarrow> tokens (concat (map (\<lambda>l. l @ crlf) ls)) = ls"
proof (induction ls)
  case Nil
  show ?case by (subst tokens.simps) simp
next
  case (Cons l ls)
  then show ?case using tokens_line [of l "concat (map (\<lambda>l. l @ crlf) ls)"] by simp
qed

lemma strstr_found: "strstr (pre @ needle @ suf) needle"
proof (induction pre)
  case Nil
  show ?case
  proof (cases "needle @ suf")
    case (Cons c cs)
    then have "take (length needle) (c # cs) = needle"
      by (metis append_eq_conv_conj)
    then show ?thesis
      using Cons by simp
  qed simp
qed simp

lemma length_lines:
  assumes "\<forall>l\<in>set ls. length l \<le> k"
  shows "length (concat (map (\<lambda>l. l @ crlf) ls)) \<le> (k + 2) * length ls"
  using assms by (induction ls) (auto simp: algebra_simps)

lemma command_short:
  assumes "length (rm_gid m) = 16" and "length n \<le> 2" and "length name \<le> 16"
  shows "length (rdma_command n name m) < 400"
proof -
  have "length l \<le> 32" if l: "l \<in> set (ack_lines n name m)" for l
  proof -
    consider "l \<in> {''*5'', CHR ''$'' # n, name}" | a where "a \<in> set (meta_args m)" "l = CHR ''$'' # dec (length a)" | "l \<in> set (meta_args m)"
      using l by (auto simp: ack_lines_def)
    then show ?thesis
    proof cases
      case (2 a)
      then have "length (dec (length a)) \<le> 2"
        using meta_args_long [OF 2(1) assms(1)] by (intro dec_length) simp_all
      with 2 show ?thesis by simp
    qed (use assms meta_args_long [OF _ assms(1)] in auto)
  qed
  then show ?thesis
    using length_lines [of "ack_lines n name m" 32] by (simp add: rdma_command_lines) (simp add: ack_lines_def meta_args_def)
qed

lemma command_cstr:
  assumes "length (rm_gid m) = 16" and "\<forall>c\<in>set n \<union> set name. text_byte c" and "name \<noteq> []"
  shows "cstr (rdma_command n name m) = rdma_command n name m"
proof -
  have "c \<noteq> NUL" if "c \<in> set (rdma_command n name m)" for c
  proof -
    have "(\<exists>l\<in>set (ack_lines n name m). c \<in> set l) \<or> c = CR \<or> c = LF"
      using that by (auto simp: rdma_command_lines split: if_splits)
    moreover have "CR \<noteq> NUL" "LF \<noteq> NUL"
      by code_simp+
    ultimately show ?thesis
      using lines_clean [OF assms(1) _ assms(2,3)] by (auto simp: text_byte_def)
  qed
  then show ?thesis
    by (simp add: cstr_def)
qed

lemma ack_name_clean: "\<forall>c\<in>set ''16'' \<union> set ''RDMA_CONNECT_ACK''. text_byte c"
  by code_simp

lemma master_meta_ack:
  assumes "length (rm_gid m) = 16"
  shows "master_meta (ack_cmd m) = Some (Some m)"
proof -
  let ?ls = "ack_lines ''16'' ''RDMA_CONNECT_ACK'' m"
  have plain: "cstr (ack_cmd m) = ack_cmd m"
    unfolding ack_cmd_def by (rule command_cstr [OF assms ack_name_clean]) simp
  have "tokens (ack_cmd m) = ?ls"
    unfolding ack_cmd_def rdma_command_lines
    using lines_clean [OF assms _ ack_name_clean] by (intro tokens_lines) (auto simp: text_byte_def)
  moreover have "strstr (ack_cmd m) ''RDMA_CONNECT_ACK''"
    using strstr_found [of "''*5'' @ crlf @ ''$16'' @ crlf" "''RDMA_CONNECT_ACK''"] by (simp add: ack_cmd_def rdma_command_def)
  moreover have "scan_meta (?ls ! 4) (?ls ! 6) (?ls ! 8) (?ls ! 10) = Some m"
    using scan_meta_printed [OF assms, of _ _ _ _ "[]" "[]" "[]" "[]"] by (simp add: ack_lines_def meta_args_def)
  ultimately show ?thesis
    using plain by (simp add: master_meta_def) (simp add: ack_lines_def meta_args_def ack_cmd_def rdma_command_def)
qed

lemma send_all_complete: "send_all ks data = Some (out, True) \<Longrightarrow> out = data"
proof (induction ks data arbitrary: out rule: send_all.induct)
  case (3 k ks d ds)
  obtain sent again out1 where send: "sock_send k (d # ds) = (sent, again, out1)"
    by (metis prod.exhaust)
  with "3.prems" obtain out2 where "sent > 0" "send_all ks (drop (nat sent) (d # ds)) = Some (out2, True)" "out = out1 @ out2"
    by (auto split: if_splits)
  then show ?case
    using "3.IH" [OF send [symmetric] refl, of out2] sock_send_pos [OF send] by simp
qed simp_all

lemma sync_cmd_encode: "sync_cmd m = resp_encode (''RDMA_CONNECT'' # meta_args m)"
proof -
  have "dec 5 = ''5''" "dec 12 = ''12''"
    by code_simp+
  then show ?thesis
    by (simp add: sync_cmd_def rdma_command_def resp_encode_def resp_arg_def print_int_def meta_args_def)
qed

text \<open>What the master reads from the request the replica sent, whatever bytes follow it.\<close>

lemma slave_meta_request:
  assumes "length (rm_gid m) = 16"
  shows "slave_meta (parsed_request (''RDMA_CONNECT'' # meta_args m) rest) = Some m"
proof -
  have "\<not> is_digit CR"
    by code_simp
  then show ?thesis
    using scan_meta_printed [OF assms, of _ _ _ _ "CR # r1" "CR # r2" "CR # r3" "CR # r4" for r1 r2 r3 r4]
    by (simp add: slave_meta_def parsed_request_def meta_args_def)
qed

lemma recv_ack_whole:
  assumes "length d < 511" and "strstr (cstr d) crlf" and "d \<noteq> []"
  shows "recv_ack (d # ds) [] = Some d"
  using assms by (subst recv_ack.simps) simp

lemma ack_line:
  assumes "length (rm_gid m) = 16"
  shows "strstr (cstr (ack_cmd m)) crlf"
proof -
  have "cstr (ack_cmd m) = ack_cmd m"
    unfolding ack_cmd_def by (rule command_cstr [OF assms ack_name_clean]) simp
  then show ?thesis
    using strstr_found [of "''*5''" crlf] by (simp add: ack_cmd_def rdma_command_def)
qed

section \<open>A cut acknowledgement\<close>

text \<open>
  The replica stops receiving at the first end of line: when the first piece ends after the first line, it neither
  configures its queue pair nor asks for the log, but returns the connection as if it had.
\<close>

lemma cut_ack_ignored:
  assumes "ce_fd env \<ge> 0" and "ce_connect env" and "ce_buffer env" and "send_all (ce_send env) (sync_cmd m) = Some (out, True)"
    and "ce_recv env = take 4 (ack_cmd master) # ds"
  shows "repl_connect_to_master (Some m) env = Some (ce_fd env, out, None)"
proof -
  have piece: "take 4 (ack_cmd master) = ''*5'' @ crlf"
    by (simp add: ack_cmd_def rdma_command_def)
  have "cstr (''*5'' @ crlf) = ''*5'' @ crlf" "\<not> strstr (''*5'' @ crlf) ''RDMA_CONNECT_ACK''" "strstr (''*5'' @ crlf) crlf"
    by code_simp+
  then show ?thesis
    using assms recv_ack_whole [of "''*5'' @ crlf" ds] unfolding piece by (simp add: repl_connect_to_master_def master_meta_def)
qed

section \<open>Property\<close>

text \<open>
  C39. The handshake exchanges the connection data faithfully: when the replica's command is sent completely
  and the master's acknowledgement is sent completely and received in one piece, the master configures
  its queue pair with exactly the replica's key, address, queue pair number and GID, the replica with exactly the
  master's, and the replica then asks for the log. Both commands fit the buffers of 512 bytes.
\<close>

theorem rdma_handshake:
  assumes "length (rm_gid slave) = 16" and "length (rm_gid master) = 16"
    and "ce_fd env \<ge> 0" and "ce_connect env" and "ce_buffer env" and "send_all (ce_send env) (sync_cmd slave) = Some (out, True)"
    and "send_all outs (ack_cmd master) = Some (ack, True)" and "ce_recv env = ack # ds"
    and "ce_configure env master" and "ce_sync env = Room n" and "n \<ge> 14"
  shows "(\<exists>req. resp_unpack_no_modify always_ok (out @ rest) (length out) = Some req \<and> named req ''RDMA_CONNECT'' \<and>
      connect_answer master outs req = Some (slave, ack)) \<and>
    repl_connect_to_master (Some slave) env = Some (ce_fd env, out @ resp_encode [''SYNC''], Some master) \<and>
    length out < 512 \<and> length ack < 512"
proof -
  let ?args = "''RDMA_CONNECT'' # meta_args slave"
  have out: "out = resp_encode ?args" and ack: "ack = ack_cmd master"
    using send_all_complete assms(6,7) sync_cmd_encode by auto
  have small: "length out < 400" "length ack < 400"
    using command_short [OF assms(1), of "''12''" "''RDMA_CONNECT''"] command_short [OF assms(2), of "''16''" "''RDMA_CONNECT_ACK''"]
    by (simp_all add: out ack ack_cmd_def flip: sync_cmd_encode) (simp add: sync_cmd_def)
  have "length ?args < 2 ^ 31" "\<forall>a\<in>set ?args. length a < 2 ^ 31" "\<not> int (length ?args) > RESP_STATIC_ARGC"
    using meta_args_long [OF _ assms(1)] by (fastforce simp: meta_args_def RESP_STATIC_ARGC_def)+
  then have req: "resp_unpack_no_modify always_ok (out @ rest) (length out) = Some (parsed_request ?args rest)"
    unfolding out by (intro resp_unpack_encoded) auto
  have "named (parsed_request ?args rest) ''RDMA_CONNECT''"
    by (simp add: named_def parsed_request_def strncasecmp_def)
  moreover have "connect_answer master outs (parsed_request ?args rest) = Some (slave, ack)"
    using slave_meta_request [OF assms(1)] assms(7) by (simp add: connect_answer_def)
  moreover have "recv_ack (ce_recv env) [] = Some ack"
    unfolding assms(8) using small(2) ack_line [OF assms(2)] by (intro recv_ack_whole) (auto simp: ack cstr_def)
  moreover have "length (resp_encode [''SYNC'']) = 14"
    by code_simp
  ultimately show ?thesis
    using small req assms(3-6,9-11) master_meta_ack [OF assms(2)] by (auto simp: repl_connect_to_master_def ack)
qed

text \<open>A witness with a replica and a master whose GID maps an IPv4 address.\<close>

definition meta_demo :: "32 word \<Rightarrow> ring_meta" where
  "meta_demo k = \<lparr>rm_rkey = k, rm_va = 140737488355328, rm_qpn = 17,
     rm_gid = own_gid (\<lambda>i. Some (if i = 0 then replicate 16 NUL else replicate 10 NUL @ [CHR 0xff, CHR 0xff] @ ''WXYZ''))\<rparr>"

definition connect_demo :: connect_env where
  "connect_demo = \<lparr>ce_fd = 7, ce_connect = True, ce_buffer = True, ce_send = [Room 100, Room 400], ce_recv = [ack_cmd (meta_demo 9)],
     ce_configure = (\<lambda>_. True), ce_sync = Room 100\<rparr>"

lemma send_all_rooms:
  assumes "length data \<le> b" and "0 < a" and "0 < b"
  shows "send_all [Room a, Room b] data = Some (data, True)"
proof (cases data)
  case (Cons c cs)
  show ?thesis
  proof (cases "drop a data")
    case Nil
    then show ?thesis using Cons assms by (auto simp: min_def)
  next
    case (Cons d ds)
    then have "length data > a"
      by (metis drop_all list.distinct(1) not_le)
    moreover have "length (d # ds) \<le> b"
      unfolding Cons [symmetric] using assms(1) by simp
    moreover have "take a data @ (d # ds) = data"
      unfolding Cons [symmetric] by simp
    ultimately show ?thesis
      using assms \<open>data = c # cs\<close> Cons by (auto simp: min_def)
  qed
qed simp

theorem rdma_handshake_witness:
  "repl_connect_to_master (Some (meta_demo 5)) connect_demo =
    Some (7, sync_cmd (meta_demo 5) @ resp_encode [''SYNC''], Some (meta_demo 9))"
proof -
  have gid: "length (rm_gid (meta_demo k)) = 16" for k
    unfolding meta_demo_def ring_meta.simps by code_simp
  have short: "length (sync_cmd (meta_demo 5)) \<le> 400" "length (ack_cmd (meta_demo 9)) \<le> 400"
    using command_short [OF gid [of 5], of "''12''" "''RDMA_CONNECT''"] command_short [OF gid [of 9], of "''16''" "''RDMA_CONNECT_ACK''"]
    by (simp_all add: sync_cmd_def ack_cmd_def)
  show ?thesis
    using rdma_handshake [OF gid [of 5] gid [of 9], of connect_demo "sync_cmd (meta_demo 5)" "[Room 100, Room 400]" "ack_cmd (meta_demo 9)" "[]" 100 "[]"]
      send_all_rooms [OF short(1), of 100] send_all_rooms [OF short(2), of 100]
    by (simp add: connect_demo_def)
qed

end
