(* ===== verification/Ai_Vector.thy ===== *)
theory Ai_Vector
  imports Ai_Index "HOL-Library.Word"
begin

unbundle bit_operations_syntax

text \<open>
  The vectors of the semantic cache (\<^verbatim>\<open>ai_chat.c\<close>): \<open>ai_text_to_vector\<close> in both modes and
  \<open>ai_cosine_similarity\<close>, scalar and with vector instructions. The HTTP client and the JSON parser are
  parameters; float and double values are real numbers without rounding. Shown are that both
  variants of the similarity agree, its range, and that a kept text is matched by itself.
\<close>

section \<open>Pseudo vectors\<close>

definition fnv_step :: "32 word \<Rightarrow> char \<Rightarrow> 32 word" where
  "fnv_step h c = (h XOR of_char c) * 16777619"

definition fnv_hash :: "bytes \<Rightarrow> 32 word" where
  "fnv_hash text = foldl fnv_step 2166136261 text"

definition lcg :: "32 word \<Rightarrow> 32 word" where
  "lcg h = h * 1103515245 + 12345"

definition lcg_value :: "32 word \<Rightarrow> real" where
  "lcg_value h = real (unat (drop_bit 8 h AND 0xFFFF)) / 65536 - 1 / 2"

fun pseudo_vector :: "nat \<Rightarrow> 32 word \<Rightarrow> real list" where
  "pseudo_vector 0 h = []"
| "pseudo_vector (Suc n) h = lcg_value (lcg h) # pseudo_vector n (lcg h)"

definition square_sum :: "real list \<Rightarrow> real" where
  "square_sum v = foldl (\<lambda>s x. s + x * x) 0 v"

definition l2_normalize :: "real list \<Rightarrow> real list option" where
  "l2_normalize v = (let norm = sqrt (square_sum v) in if norm < 1 / 10 ^ 12 then None else Some (map (\<lambda>x. x / norm) v))"

section \<open>The embedding service\<close>

text \<open>The functions of libcurl and cJSON the code calls; \<open>sv_perform\<close> gives whether the transfer succeeded, the HTTP code and the chunks received.\<close>

record 'j embed_service =
  sv_init :: bool
  sv_body :: "bytes \<Rightarrow> bytes option"
  sv_perform :: "bytes \<Rightarrow> bool \<times> int \<times> bytes list"
  sv_parse :: "bytes \<Rightarrow> 'j option"
  sv_item :: "'j \<Rightarrow> bytes \<Rightarrow> 'j option"
  sv_is_number :: "'j \<Rightarrow> bool"
  sv_int :: "'j \<Rightarrow> int"
  sv_double :: "'j \<Rightarrow> real"
  sv_is_array :: "'j \<Rightarrow> bool"
  sv_size :: "'j \<Rightarrow> int"
  sv_nth :: "'j \<Rightarrow> nat \<Rightarrow> 'j option"

text \<open>
  The response buffer, \<open>None\<close> for the NULL pointer; \<open>m n\<close>: the \<open>realloc\<close> to \<open>n\<close> bytes succeeds. A callback that returns
  less than it was given aborts the transfer.
\<close>

definition embedding_write_callback :: "(nat \<Rightarrow> bool) \<Rightarrow> bytes \<Rightarrow> bytes option \<Rightarrow> nat \<times> bytes option" where
  "embedding_write_callback m contents buffer =
     (let old = (case buffer of None \<Rightarrow> [] | Some d \<Rightarrow> d)
      in if m (length old + length contents + 1) then (length contents, Some (old @ contents)) else (0, buffer))"

fun receive_body :: "(nat \<Rightarrow> bool) \<Rightarrow> bytes list \<Rightarrow> bytes option \<Rightarrow> bool \<times> bytes option" where
  "receive_body m [] buffer = (True, buffer)"
| "receive_body m (x # xs) buffer =
     (case embedding_write_callback m x buffer of
        (n, buffer') \<Rightarrow> if n = length x then receive_body m xs buffer' else (False, buffer'))"

fun read_items :: "'j embed_service \<Rightarrow> 'j \<Rightarrow> nat list \<Rightarrow> real list option" where
  "read_items sv arr [] = Some []"
| "read_items sv arr (i # is) =
     (case sv_nth sv arr i of
        None \<Rightarrow> None
      | Some item \<Rightarrow> if \<not> sv_is_number sv item then None else map_option ((#) (sv_double sv item)) (read_items sv arr is))"

definition read_embedding :: "'j embed_service \<Rightarrow> nat \<Rightarrow> 'j \<Rightarrow> real list option" where
  "read_embedding sv d json =
     (case sv_item sv json ''dimension'' of
        None \<Rightarrow> None
      | Some dimension \<Rightarrow>
          if \<not> sv_is_number sv dimension \<or> sv_int sv dimension \<noteq> int d then None
          else case sv_item sv json ''embedding'' of
            None \<Rightarrow> None
          | Some embedding \<Rightarrow>
              if \<not> sv_is_array sv embedding \<or> sv_size sv embedding \<noteq> int d then None
              else read_items sv embedding [0..<d])"

definition embed_request :: "'j embed_service \<Rightarrow> (nat \<Rightarrow> bool) \<Rightarrow> bytes \<Rightarrow> nat \<Rightarrow> real list option" where
  "embed_request sv m text d =
     (if \<not> sv_init sv then None
      else case sv_body sv text of
        None \<Rightarrow> None
      | Some body \<Rightarrow>
          (case sv_perform sv body of
             (sent, code, chunks) \<Rightarrow>
               (case receive_body m chunks None of
                  (received, response) \<Rightarrow>
                    if \<not> sent \<or> \<not> received \<or> code < 200 \<or> code \<ge> 300 then None
                    else case response of
                      None \<Rightarrow> None
                    | Some data \<Rightarrow> (case sv_parse sv (cstr data) of None \<Rightarrow> None | Some json \<Rightarrow> read_embedding sv d json))))"

definition ai_text_to_vector :: "bool \<Rightarrow> 'j embed_service \<Rightarrow> (nat \<Rightarrow> bool) \<Rightarrow> nat \<Rightarrow> bytes \<Rightarrow> real list option" where
  "ai_text_to_vector use_embedding sv m d text =
     (if d = 0 then None
      else if \<not> use_embedding then l2_normalize (pseudo_vector d (fnv_hash text))
      else embed_request sv m text d)"

section \<open>Similarity\<close>

definition dot_loop :: "real list \<Rightarrow> real list \<Rightarrow> real \<Rightarrow> real" where
  "dot_loop a b s = foldl (\<lambda>s (x, y). s + x * y) s (zip a b)"

definition cosine_of :: "real \<Rightarrow> real \<Rightarrow> real \<Rightarrow> real" where
  "cosine_of dot na nb = (if na < 1 / 10 ^ 12 \<or> nb < 1 / 10 ^ 12 then -1 else dot / (sqrt na * sqrt nb))"

definition cosine_scalar :: "real list \<Rightarrow> real list \<Rightarrow> real" where
  "cosine_scalar a b = cosine_of (dot_loop a b 0) (dot_loop a a 0) (dot_loop b b 0)"

text \<open>Eight lanes; \<open>fmadd\<close> is \<open>_mm256_fmadd_ps\<close>.\<close>

definition fmadd :: "real list \<Rightarrow> real list \<Rightarrow> real list \<Rightarrow> real list" where
  "fmadd x y z = map (\<lambda>((p, q), r). p * q + r) (zip (zip x y) z)"

function avx_loop :: "real list \<Rightarrow> real list \<Rightarrow> real list \<times> real list \<times> real list \<Rightarrow> (real list \<times> real list \<times> real list) \<times> real list \<times> real list" where
  "avx_loop a b acc =
     (if 8 \<le> length a then
        (case acc of (vdot, va2, vb2) \<Rightarrow>
           let va = take 8 a; vb = take 8 b
           in avx_loop (drop 8 a) (drop 8 b) (fmadd va vb vdot, fmadd va va va2, fmadd vb vb vb2))
      else (acc, a, b))"
  by pat_completeness auto
termination
  by (relation "measure (\<lambda>(a, b, acc). length a)") auto

declare avx_loop.simps [simp del]

definition cosine_avx2 :: "real list \<Rightarrow> real list \<Rightarrow> real" where
  "cosine_avx2 a b =
     (let zero = replicate 8 0
      in case avx_loop a b (zero, zero, zero) of
        ((vdot, va2, vb2), a', b') \<Rightarrow>
          cosine_of (dot_loop a' b' (foldl (+) 0 vdot)) (dot_loop a' a' (foldl (+) 0 va2)) (dot_loop b' b' (foldl (+) 0 vb2)))"

definition ai_cosine_similarity :: "bool \<Rightarrow> real list \<Rightarrow> real list \<Rightarrow> real" where
  "ai_cosine_similarity has_avx2 a b = (if a = [] then -1 else if has_avx2 then cosine_avx2 a b else cosine_scalar a b)"

section \<open>Lemmas\<close>

lemma dot_loop_sum: "dot_loop a b s = s + (\<Sum>(x, y)\<leftarrow>zip a b. x * y)"
proof -
  have "foldl (\<lambda>s (x, y). s + x * y) s ps = s + (\<Sum>(x, y)\<leftarrow>ps. x * y)" for ps :: "(real \<times> real) list"
    by (induction ps arbitrary: s) auto
  then show ?thesis by (simp add: dot_loop_def)
qed

lemma foldl_plus: "foldl (+) s xs = s + sum_list xs" for s :: real
  by (induction xs arbitrary: s) (simp_all add: algebra_simps)

abbreviation dot :: "real list \<Rightarrow> real list \<Rightarrow> real" where
  "dot a b \<equiv> \<Sum>(x, y)\<leftarrow>zip a b. x * y"

lemma dot_Cons: "dot (x # a) (y # b) = x * y + dot a b"
  by simp

lemma dot_split: "dot (take n a) (take n b) + dot (drop n a) (drop n b) = dot a b"
proof -
  have "zip a b = zip (take n a) (take n b) @ zip (drop n a) (drop n b)"
    by (metis append_take_drop_id take_zip drop_zip)
  then show ?thesis by simp
qed

lemma fmadd_sum:
  assumes "length x = length y" and "length y = length z"
  shows "sum_list (fmadd x y z) = sum_list z + dot x y" "length (fmadd x y z) = length z"
  using assms by (induction x y z rule: list_induct3) (auto simp: fmadd_def)

text \<open>The lanes together hold the sums of the part already read.\<close>

lemma avx_loop_sums:
  assumes "length a = length b" and "length vdot = 8" and "length va2 = 8" and "length vb2 = 8"
    and "avx_loop a b (vdot, va2, vb2) = ((vdot', va2', vb2'), a', b')"
  shows "sum_list vdot' + dot a' b' = sum_list vdot + dot a b \<and> sum_list va2' + dot a' a' = sum_list va2 + dot a a \<and>
    sum_list vb2' + dot b' b' = sum_list vb2 + dot b b"
  using assms
proof (induction a arbitrary: b vdot va2 vb2 rule: length_induct)
  case (1 a)
  show ?case
  proof (cases "8 \<le> length a")
    case False
    with "1.prems"(5) show ?thesis
      by (simp add: avx_loop.simps [of a])
  next
    case True
    let ?x = "take 8 a" and ?y = "take 8 b"
    have len: "length ?x = 8" "length ?y = 8"
      using True "1.prems"(1) by simp_all
    note sums = fmadd_sum [of ?x ?y vdot] fmadd_sum [of ?x ?x va2] fmadd_sum [of ?y ?y vb2]
    have "avx_loop (drop 8 a) (drop 8 b) (fmadd ?x ?y vdot, fmadd ?x ?x va2, fmadd ?y ?y vb2) = ((vdot', va2', vb2'), a', b')"
      using "1.prems"(5) True by (simp add: avx_loop.simps [of a] Let_def)
    then have "sum_list vdot' + dot a' b' = sum_list (fmadd ?x ?y vdot) + dot (drop 8 a) (drop 8 b) \<and>
      sum_list va2' + dot a' a' = sum_list (fmadd ?x ?x va2) + dot (drop 8 a) (drop 8 a) \<and>
      sum_list vb2' + dot b' b' = sum_list (fmadd ?y ?y vb2) + dot (drop 8 b) (drop 8 b)"
      using True "1.prems"(1-4) sums len by (intro "1.IH" [rule_format]) simp_all
    then show ?thesis
      using sums len "1.prems"(2-4) dot_split [of 8 a b] dot_split [of 8 a a] dot_split [of 8 b b] by simp
  qed
qed

lemma avx2_is_scalar:
  assumes "length a = length b"
  shows "cosine_avx2 a b = cosine_scalar a b"
proof -
  obtain vdot va2 vb2 a' b' where loop: "avx_loop a b (replicate 8 0, replicate 8 0, replicate 8 0) = ((vdot, va2, vb2), a', b')"
    by (metis prod.exhaust)
  from avx_loop_sums [OF assms _ _ _ loop] show ?thesis
    using loop by (simp add: cosine_avx2_def cosine_scalar_def dot_loop_sum foldl_plus Let_def sum_list_replicate)
qed

text \<open>The similarity lies between -1 and 1 and is 1 for a vector and itself.\<close>

lemma dot_nonneg: "0 \<le> dot a a"
  by (induction a) simp_all

lemma dot_linear:
  assumes "length a = length b"
  shows "dot (map2 (\<lambda>x y. c * x - d * y) a b) (map2 (\<lambda>x y. c * x - d * y) a b) = c\<^sup>2 * dot a a - 2 * c * d * dot a b + d\<^sup>2 * dot b b"
  using assms by (induction a b rule: list_induct2) (simp_all add: algebra_simps power2_eq_square)

lemma cauchy_schwarz:
  assumes "length a = length b" and "0 < dot b b"
  shows "(dot a b)\<^sup>2 \<le> dot a a * dot b b"
proof -
  have "0 \<le> (dot b b)\<^sup>2 * dot a a - 2 * dot b b * dot a b * dot a b + (dot a b)\<^sup>2 * dot b b"
    using dot_linear [OF assms(1), of "dot b b" "dot a b"] dot_nonneg by metis
  also have "\<dots> = dot b b * (dot a a * dot b b - (dot a b)\<^sup>2)"
    by (simp add: algebra_simps power2_eq_square)
  finally show ?thesis
    using assms(2) by (simp add: zero_le_mult_iff)
qed

lemma similarity_range:
  assumes "length a = length b"
  shows "\<bar>ai_cosine_similarity avx a b\<bar> \<le> 1"
proof -
  have "\<bar>cosine_scalar a b\<bar> \<le> 1"
  proof (cases "dot a a < 1 / 10 ^ 12 \<or> dot b b < 1 / 10 ^ 12")
    case False
    then have pos: "0 < dot a a" "0 < dot b b"
      by (simp_all add: not_less)
    have "\<bar>dot a b\<bar> \<le> sqrt (dot a a * dot b b)"
      using cauchy_schwarz [OF assms pos(2)] by (simp add: real_le_rsqrt)
    with False pos show ?thesis
      by (simp add: cosine_scalar_def cosine_of_def dot_loop_sum real_sqrt_mult abs_divide)
  qed (simp add: cosine_scalar_def cosine_of_def dot_loop_sum)
  then show ?thesis
    using avx2_is_scalar [OF assms] by (simp add: ai_cosine_similarity_def)
qed

lemma self_similarity:
  assumes "1 / 10 ^ 12 \<le> dot a a"
  shows "ai_cosine_similarity avx a a = 1"
proof -
  have "0 < dot a a" "a \<noteq> []"
    using assms by (auto intro: less_le_trans [OF _ assms])
  then show ?thesis
    using assms avx2_is_scalar [of a a] by (simp add: ai_cosine_similarity_def cosine_scalar_def cosine_of_def dot_loop_sum)
qed

section \<open>A kept text is matched by itself\<close>

lemma square_sum_dot: "square_sum v = dot v v"
proof -
  have "foldl (\<lambda>s x. s + x * x) s v = s + dot v v" for s
    by (induction v arbitrary: s) (simp_all add: algebra_simps)
  then show ?thesis by (simp add: square_sum_def)
qed

lemma normalized_dot:
  assumes "l2_normalize v = Some w"
  shows "dot w w = 1 \<and> length w = length v"
proof -
  let ?n = "sqrt (dot v v)"
  have n: "1 / 10 ^ 12 \<le> ?n" and w: "w = map (\<lambda>x. x / ?n) v"
    using assms by (auto simp: l2_normalize_def Let_def square_sum_dot split: if_splits)
  have "0 < ?n"
    using n by (rule less_le_trans [rotated]) simp
  moreover have "dot (map (\<lambda>x. x / c) v) (map (\<lambda>x. x / c) v) = dot v v / c\<^sup>2" for c
    by (induction v) (simp_all add: power2_eq_square add_divide_distrib)
  ultimately show ?thesis
    using w by simp
qed

lemma best_match_exists: "scored f idx \<noteq> {} \<or> best \<noteq> None \<Longrightarrow> best_match f idx best \<noteq> None"
  by (induction f idx best rule: best_match.induct)
    (auto simp: scored_Cons Let_def scored_def [of _ "[]"] split: if_splits option.splits)

lemma perfect_match_found:
  assumes "(k, 1) \<in> scored f idx"
  shows "\<exists>k' s. best_match f idx None = Some (k', s) \<and> 0.9999 \<le> s"
proof -
  obtain k' s where best: "best_match f idx None = Some (k', s)"
    using best_match_exists [of f idx None] assms by auto
  then have "s \<ge> 0.9999 \<or> (\<forall>(k', s')\<in>scored f idx. s' \<le> s)"
    using best_match_best [OF best] by blast
  then have "0.9999 \<le> s"
    using assms by fastforce
  with best show ?thesis by blast
qed

text \<open>
  With the embedding service disabled: a KEEP that finds room in the index is found by a MATCH with the same
  text, at any threshold up to 0.9999, by itself or by an almost equal entry.
\<close>

lemma kept_text_matches:
  fixes sv :: "'j embed_service" and m :: "nat \<Rightarrow> bool"
  defines "vec \<equiv> ai_text_to_vector False sv m MATCH_VECTOR_DIM"
  assumes "vec (cstr key) = Some v" and "length idx < MAX_VECTOR_INDEX" and "threshold \<le> 0.9999"
  shows "\<exists>idx' k s. keep_build_index vec True idx key = (0, idx') \<and> length idx' = Suc (length idx) \<and>
    match_find_best_key vec (ai_cosine_similarity avx) threshold idx' key = (0, Some (k, s)) \<and> 0.9999 \<le> s"
proof -
  have v: "dot v v = 1" "length v = MATCH_VECTOR_DIM"
  proof -
    have "l2_normalize (pseudo_vector MATCH_VECTOR_DIM (fnv_hash (cstr key))) = Some v"
      using assms(2) by (simp add: vec_def ai_text_to_vector_def MATCH_VECTOR_DIM_def)
    moreover have "length (pseudo_vector n h) = n" for n h
      by (induction n h rule: pseudo_vector.induct) simp_all
    ultimately show "dot v v = 1" "length v = MATCH_VECTOR_DIM"
      using normalized_dot by auto
  qed
  let ?e = "\<lparr>vkey = strncpy_cut MAX_KEY_LEN key, vvector = v, vdim = MATCH_VECTOR_DIM\<rparr>"
  have keep: "keep_build_index vec True idx key = (0, idx @ [?e])"
    using assms(2,3) v(2) by (simp add: keep_build_index_def keep_add_vector_index_def MATCH_VECTOR_DIM_def)
  have "(vkey ?e, 1) \<in> scored (ai_cosine_similarity avx v) (idx @ [?e])"
    using self_similarity [of v avx] v(1) by (auto simp: scored_def intro!: exI [of _ ?e])
  then obtain k s where "best_match (ai_cosine_similarity avx v) (idx @ [?e]) None = Some (k, s)" "0.9999 \<le> s"
    using perfect_match_found by blast
  with assms(2,4) keep show ?thesis
    by (auto simp: match_find_best_key_def)
qed

section \<open>Property\<close>



end
