(* ===== verification/Conn_Events.thy ===== *)
theory Conn_Events
  imports Conn_Ntyco Byte_Pipe
begin

text \<open>
  The two other network layers, selected at compile time: the epoll reactor (\<^verbatim>\<open>reactor.c\<close>) and the io_uring
  proactor (\<^verbatim>\<open>proactor.c\<close>), as handlers of one connection's events. Their parsing loops only stop at
  status 1, which the protocol layer never returns: shown are that they work when the buffer holds
  complete requests only, that a part of a request makes them spin, and that replies
  leave in order through partial sends.
\<close>

section \<open>Parsing\<close>

text \<open>
  The loop both layers have: \<open>None\<close> if it does not return, \<open>Some None\<close> for a fault in a request, otherwise whether the connection
  stays open, the bytes consumed, the send buffer and the server.
\<close>

partial_function (option) event_parse ::
  "(nat \<Rightarrow> nat \<Rightarrow> stream_env) \<Rightarrow> int \<Rightarrow> bytes \<Rightarrow> nat \<Rightarrow> nat \<Rightarrow> nat \<Rightarrow> wbuffer \<Rightarrow> kvs_server \<Rightarrow>
   (bool \<times> nat \<times> wbuffer \<times> kvs_server) option option" where
  "event_parse envs fd buf rlen j tot w s =
     (if rlen > tot then
        (case protocol_process_stream (envs j) (drop tot buf) (rlen - tot) (if conn_roles s fd = CONN_MASTER then None else Some w) fd s of
           None \<Rightarrow> Some None
         | Some (st, parsed, w', s') \<Rightarrow>
             let w1 = (case w' of None \<Rightarrow> w | Some x \<Rightarrow> x)
             in if st = 1 then Some (Some (True, tot, w1, s'))
                else if st < 0 then Some (Some (False, tot, w1, s'))
                else event_parse envs fd buf rlen (Suc j) (tot + parsed) w1 s')
      else Some (Some (True, tot, w, s)))"

text \<open>Growth of the receive buffer: the reactor wants 4096 free bytes and at least 8192, the proactor 65536 and 65536.\<close>

definition grow_buffer :: "nat \<Rightarrow> nat \<Rightarrow> (nat \<Rightarrow> char) option \<Rightarrow> conn \<Rightarrow> conn option" where
  "grow_buffer free least g c =
     (if c_rcapacity c - c_rlength c < free then
        (case g of
           None \<Rightarrow> None
         | Some mem \<Rightarrow> Some (c\<lparr>c_rbuffer := c_rbuffer c @ map mem [c_rcapacity c..<max (c_rcapacity c * 2) least]\<rparr>))
      else Some c)"

section \<open>Reactor\<close>

text \<open>\<open>conn_roles\<close> is all that the server state keeps of a connection.\<close>

definition reactor_close_and_free_connection :: "int \<Rightarrow> kvs_server \<Rightarrow> kvs_server" where
  "reactor_close_and_free_connection fd s = s\<lparr>conn_roles := (conn_roles s)(fd := CONN_CLIENT)\<rparr>"

text \<open>
  The receiving loop of \<open>recv_cb\<close> on the pending input: the connection (\<open>None\<close>: an error or the end of the stream), the input
  left and the number of new bytes; \<open>None\<close> if the outcomes are used up.
\<close>

fun reactor_recv :: "((nat \<Rightarrow> char) option \<times> recv_event) list \<Rightarrow> conn \<Rightarrow> bytes \<Rightarrow> nat \<Rightarrow> (conn option \<times> bytes \<times> nat) option" where
  "reactor_recv [] c inp new = None"
| "reactor_recv ((g, ev) # evs) c inp new =
     (case grow_buffer 4096 8192 g c of
        None \<Rightarrow> Some (None, inp, new)
      | Some c1 \<Rightarrow>
          (case ev of
             R_again \<Rightarrow> Some (Some c1, inp, new)
           | R_closed \<Rightarrow> Some (None, inp, new)
           | R_error \<Rightarrow> Some (None, inp, new)
           | R_data n \<Rightarrow>
               let d = take n (take (c_rcapacity c1 - c_rlength c1) inp)
               in if d = [] then Some (None, inp, new)
                  else reactor_recv evs (client_fill d c1) (drop (length d) inp) (new + length d)))"

text \<open>
  \<open>recv_cb\<close>: \<open>None\<close> if it does not return (or the outcomes are used up), \<open>Some None\<close> for a fault; else the connection (\<open>None\<close> when
  closed), the input left, whether the connection is to be watched for writing, and the server.
\<close>

definition recv_cb ::
  "((nat \<Rightarrow> char) option \<times> recv_event) list \<Rightarrow> (nat \<Rightarrow> nat \<Rightarrow> stream_env) \<Rightarrow> int \<Rightarrow> bytes \<Rightarrow> conn \<Rightarrow> kvs_server \<Rightarrow>
   (conn option \<times> bytes \<times> bool \<times> kvs_server) option option" where
  "recv_cb evs envs fd inp c s =
     (case reactor_recv evs c inp 0 of
        None \<Rightarrow> None
      | Some (None, inp', new) \<Rightarrow> Some (Some (None, inp', False, reactor_close_and_free_connection fd s))
      | Some (Some c1, inp', new) \<Rightarrow>
          if new = 0 \<and> c_rlength c1 = 0 then Some (Some (Some c1, inp', False, s))
          else
            (case event_parse envs fd (c_rbuffer c1) (c_rlength c1) 0 0 (c_wbuffer c1) s of
               None \<Rightarrow> None
             | Some None \<Rightarrow> Some None
             | Some (Some (alive, tot, w, s')) \<Rightarrow>
                 Some (Some (if \<not> alive then (None, inp', False, reactor_close_and_free_connection fd s')
                             else (Some (client_compact tot (c1\<lparr>c_wbuffer := w\<rparr>)), inp',
                                   tot > 0 \<and> conn_roles s' fd = CONN_CLIENT \<and> wdata w \<noteq> [], s')))))"

text \<open>\<open>send_cb\<close>: the bytes sent, the connection (\<open>None\<close> when closed) and whether only reading is watched from now on.\<close>

definition send_cb :: "socket \<Rightarrow> conn \<Rightarrow> bytes \<times> conn option \<times> bool" where
  "send_cb k c =
     (if wdata (c_wbuffer c) = [] then ([], Some c, True)
      else case sock_send k (wdata (c_wbuffer c)) of
        (sent, again, out) \<Rightarrow>
          if sent < 0 then ([], if again then Some c else None, False)
          else (out, Some (c\<lparr>c_wbuffer := (c_wbuffer c)\<lparr>wdata := drop (nat sent) (wdata (c_wbuffer c))\<rparr>\<rparr>),
                nat sent \<ge> length (wdata (c_wbuffer c))))"

text \<open>\<open>accept_cb\<close> for the descriptor \<open>accept\<close> returned: a new connection, or none.\<close>

definition accept_cb :: "int \<Rightarrow> (nat \<Rightarrow> char) option \<Rightarrow> bool \<Rightarrow> kvs_server \<Rightarrow> conn option \<times> kvs_server" where
  "accept_cb clientfd r w s =
     (if clientfd < 0 \<or> clientfd \<ge> CONNECTION_SIZE then (None, s)
      else (client_start r w, s\<lparr>conn_roles := (conn_roles s)(clientfd := CONN_CLIENT)\<rparr>))"

section \<open>Proactor\<close>

text \<open>What is submitted after an event: a receive into the free part of the buffer, a send, or nothing because the connection is closed.\<close>

datatype submission = Recv conn | Send conn | Closed

definition submit_recv :: "(nat \<Rightarrow> char) option \<Rightarrow> conn \<Rightarrow> submission" where
  "submit_recv g c = (case grow_buffer 65536 65536 g c of None \<Rightarrow> Closed | Some c1 \<Rightarrow> Recv c1)"

definition on_recv_completed ::
  "(nat \<Rightarrow> char) option \<Rightarrow> (nat \<Rightarrow> nat \<Rightarrow> stream_env) \<Rightarrow> int \<Rightarrow> int \<Rightarrow> bytes \<Rightarrow> conn \<Rightarrow> kvs_server \<Rightarrow> (submission \<times> kvs_server) option option" where
  "on_recv_completed g envs fd res d c s =
     (if res \<le> 0 then Some (Some (Closed, reactor_close_and_free_connection fd s))
      else
        let c1 = client_fill (take (nat res) d) c
        in (case event_parse envs fd (c_rbuffer c1) (c_rlength c1) 0 0 (c_wbuffer c1) s of
              None \<Rightarrow> None
            | Some None \<Rightarrow> Some None
            | Some (Some (alive, tot, w, s')) \<Rightarrow>
                if \<not> alive then Some (Some (Closed, reactor_close_and_free_connection fd s'))
                else
                  let c2 = client_compact tot (c1\<lparr>c_wbuffer := w\<rparr>);
                      sub = (if wdata w \<noteq> [] then Send c2 else submit_recv g c2)
                  in Some (Some (sub, if sub = Closed then reactor_close_and_free_connection fd s' else s'))))"

definition on_send_completed :: "(nat \<Rightarrow> char) option \<Rightarrow> int \<Rightarrow> int \<Rightarrow> conn \<Rightarrow> kvs_server \<Rightarrow> submission \<times> kvs_server" where
  "on_send_completed g fd res c s =
     (if res < 0 then (Closed, reactor_close_and_free_connection fd s)
      else if wdata (c_wbuffer c) \<noteq> [] \<and> res < int (length (wdata (c_wbuffer c)))
      then (Send (c\<lparr>c_wbuffer := (c_wbuffer c)\<lparr>wdata := drop (nat res) (wdata (c_wbuffer c))\<rparr>\<rparr>), s)
      else
        let sub = submit_recv g (c\<lparr>c_wbuffer := (c_wbuffer c)\<lparr>wdata := []\<rparr>\<rparr>)
        in (sub, if sub = Closed then reactor_close_and_free_connection fd s else s))"

text \<open>
  \<open>on_accept_completed\<close>: whether the listening socket is watched again, what is submitted for the new connection, the server.
\<close>

definition on_accept_completed ::
  "(nat \<Rightarrow> char) option \<Rightarrow> int \<Rightarrow> (nat \<Rightarrow> char) option \<Rightarrow> bool \<Rightarrow> kvs_server \<Rightarrow> bool \<times> submission \<times> kvs_server" where
  "on_accept_completed g clientfd r w s =
     (if clientfd < 0 then (False, Closed, s)
      else if clientfd \<ge> CONNECTION_SIZE then (True, Closed, s)
      else
        let s1 = s\<lparr>conn_roles := (conn_roles s)(clientfd := CONN_CLIENT)\<rparr>
        in (case client_start r w of
              None \<Rightarrow> (True, Closed, reactor_close_and_free_connection clientfd s1)
            | Some c \<Rightarrow>
                (case submit_recv g c of
                   Closed \<Rightarrow> (True, Closed, reactor_close_and_free_connection clientfd s1)
                 | sub \<Rightarrow> (True, sub, s1))))"

section \<open>Complete requests\<close>

lemma event_parse_all:
  assumes "tot < rlen"
    and "protocol_process_stream (envs j) (drop tot buf) (rlen - tot) (if conn_roles s fd = CONN_MASTER then None else Some w) fd s =
      Some (0, rlen - tot, w', s')"
  shows "event_parse envs fd buf rlen j tot w s = Some (Some (True, rlen, case w' of None \<Rightarrow> w | Some x \<Rightarrow> x, s'))"
  using assms by (subst event_parse.simps) (simp add: Let_def event_parse.simps)

text \<open>A buffer of complete requests is served like the requests one by one.\<close>

lemma event_parse_serves:
  assumes "\<forall>a\<in>set as. sized a" and "as \<noteq> []" and "\<And>j. j < length as \<Longrightarrow> vectors_ok (se_args (envs 0 j)) (as ! j)"
    and "conn_roles s fd \<noteq> CONN_MASTER" and "serve (envs 0) fd 0 as stale s = Some (rs, s')"
  shows "event_parse envs fd (requests as @ stale) (length (requests as)) 0 0 w s =
    Some (Some (True, length (requests as), case pack_all (envs 0) 0 rs (Some w) of None \<Rightarrow> w | Some x \<Rightarrow> x, s'))"
proof (rule event_parse_all)
  show "0 < length (requests as)"
    using assms(2) by (cases as) (simp_all add: resp_encode_def)
  have part: "sized [''PING'']" "0 < length (resp_encode [''PING''])"
    by (simp_all add: sized_def resp_encode_def)
  show "protocol_process_stream (envs 0) (drop 0 (requests as @ stale)) (length (requests as) - 0)
      (if conn_roles s fd = CONN_MASTER then None else Some w) fd s =
    Some (0, length (requests as) - 0, pack_all (envs 0) 0 rs (Some w), s')"
    using protocol_process_stream_serve [OF assms(1) part, of "envs 0" stale "Some w" fd s] assms(3-5) by simp
qed

section \<open>A part of a request\<close>

text \<open>The protocol layer consumes nothing and returns 0, so the loop goes on for ever.\<close>

definition half_packet :: "bytes \<Rightarrow> nat \<Rightarrow> bool" where
  "half_packet buf n \<longleftrightarrow> 0 < n \<and> buf ! 0 = CHR ''*'' \<and> has_complete_resp_command buf n = P_incomplete"

lemma half_packet_kept:
  assumes "half_packet buf n"
  shows "protocol_process_stream envs buf n w fd s = Some (0, 0, w, s)"
  using assms process_loop.simps [of envs fd buf n 0 0 w s] by (simp add: half_packet_def protocol_process_stream_def)

lemma event_parse_spins:
  assumes "half_packet (drop tot buf) (rlen - tot)"
  shows "event_parse envs fd buf rlen j tot w s = None"
proof -
  have "\<not> half_packet (drop tot buf) (rlen - tot)" if "event_parse envs fd buf rlen j tot w s = Some r" for r
  proof (rule event_parse.raw_induct [OF _ that, of "\<lambda>envs fd buf rlen j tot w s r. \<not> half_packet (drop tot buf) (rlen - tot)"], goal_cases)
    case (1 parse envs fd buf rlen j tot w s r)
    show ?case
    proof
      assume half: "half_packet (drop tot buf) (rlen - tot)"
      then have "parse envs fd buf rlen (Suc j) (tot + 0) w s = Some r"
        using 1(2) half_packet_kept [OF half] by (auto simp: half_packet_def split: if_splits)
      then show False
        using 1(1) half by fastforce
    qed
  qed
  then show ?thesis
    using assms by (metis not_None_eq)
qed

section \<open>Replies\<close>

text \<open>The send buffer as a pipe: replies are appended, \<open>send_cb\<close> takes what the socket accepts.\<close>

definition reply_put :: "unit \<Rightarrow> bytes \<Rightarrow> conn \<Rightarrow> conn option" where
  "reply_put e d c = Some (c\<lparr>c_wbuffer := (c_wbuffer c)\<lparr>wdata := wdata (c_wbuffer c) @ d\<rparr>\<rparr>)"

definition reply_get :: "socket \<Rightarrow> conn \<Rightarrow> bytes \<times> conn" where
  "reply_get k c = (case send_cb k c of (out, co, idle) \<Rightarrow> (out, case co of None \<Rightarrow> c | Some c' \<Rightarrow> c'))"

interpretation rpl: byte_pipe "\<lambda>c. True" "\<lambda>c. wdata (c_wbuffer c)" reply_put "\<lambda>e d c. True" reply_get
proof (unfold_locales, goal_cases)
  case (2 s g out s')
  then show ?case
    by (cases g) (auto simp: reply_get_def send_cb_def min_def split: if_splits)
qed (simp add: reply_put_def)

lemma replies_in_order:
  "\<exists>i out c'. pipe_run reply_put (\<lambda>e d c. True) reply_get xs c = Some (i, out, c') \<and> wdata (c_wbuffer c) @ i = out @ wdata (c_wbuffer c')"
  using rpl.pipe_in_order [of xs c] by auto

end
