(* ===== verification/Spec2Isabelle.thy ===== *)
theory Spec2Isabelle
  imports Snapshot Relay_Capture Server_Loop Rdma_Connect Ai_Vector Conn_Events
begin

text \<open>
  Verification of the kivo key-value server (C, sources under \<^verbatim>\<open>src/\<close>).

  \<^bold>\<open>The program.\<close> One process holds eight stores: an array, a red-black tree, a skip list and five
  hash tables (plain, semantic cache, contexts, records, keyword index). Clients send RESP requests;
  a coroutine per connection (\<^verbatim>\<open>ntyco.c\<close>) receives bytes, hands them to
  \<open>protocol_process_stream\<close> (\<^verbatim>\<open>resp.c\<close>), which logs and replicates writing commands
  and calls the command table of \<^verbatim>\<open>kvstore.c\<close>. The log (\<^verbatim>\<open>persistence.c\<close>) is written through two
  buffers by io_uring and replayed at the start; \<^verbatim>\<open>snapshot.c\<close> writes and loads binary snapshots. An expire
  thread (\<^verbatim>\<open>expire.c\<close>) orders timers in a heap and hands due ones to the network thread. A master
  sends its backlog of commands to a replica; \<^verbatim>\<open>ebpf_relay.c\<close> is a separate process that forwards
  TCP segments captured by an eBPF program in stream order.

  \<^bold>\<open>Theories and sources.\<close>
  \<^item> \<open>Kvs_Prelude\<close>: bytes, C integers, outcomes of allocations, lemmas on lists and maps.
  \<^item> \<open>Kv_Utils\<close> (\<^verbatim>\<open>kv_utils.c\<close>): binary data blocks with cached hash, comparison, Murmur hash on
    64-bit words. \<open>Kvs_Libc\<close>: \<open>atoi\<close>, \<open>strtoll\<close>, \<open>snprintf\<close> and character classes as the sources use them.
  \<^item> \<open>Kv_Engine\<close>: the contract of a store as a locale (what GET, SET, DEL and the timer deletion do to an
    abstract map); the four engines interpret it: \<open>Kvs_Array\<close>, \<open>Kvs_Hash\<close>, \<open>Kvs_Rbtree\<close>, \<open>Kvs_Skip\<close>
    (\<^verbatim>\<open>kvs_array.c\<close>, \<^verbatim>\<open>kvs_hash.c\<close>, \<^verbatim>\<open>kvs_rbtree.c\<close>, \<^verbatim>\<open>kvs_skiptable.c\<close>). \<open>Kvs_Zset\<close>: sorted sets on the skip list.
    \<open>Kv_Dump\<close>: the contract of an enumeration, interpreted on the \<open>foreach\<close> functions.
  \<^item> \<open>Kvs_Mempool\<close> (\<^verbatim>\<open>mempool.c\<close>): the slab allocator on explicit block addresses.
  \<^item> \<open>Expire_Queue\<close>, \<open>Expire_Heap\<close>, \<open>Expire_System\<close> (\<^verbatim>\<open>expire.c\<close>): the lock-free ring between the threads with every
    atomic access interleaved, the heap, the expire thread as a state machine, the deletions.
  \<^item> \<open>Resp_Parse\<close>, \<open>Resp_Stream\<close>, \<open>Resp_Pipeline\<close> (\<^verbatim>\<open>resp.c\<close>): framing, unpacking, replies; the request loop.
  \<^item> \<open>Aof\<close> (\<^verbatim>\<open>persistence.c\<close>), \<open>Resp_Wal\<close>, \<open>Resp_Recover\<close>: the two-buffer log, what a session logs, what its replay restores.
  \<^item> \<open>Ai_Index\<close>, \<open>Ai_Vector\<close> (\<^verbatim>\<open>ai_chat.c\<close>): the vector index of KEEP and MATCH; how a text becomes a vector and the similarity of
    vectors, in exact reals.
  \<^item> \<open>Kvs_Server\<close>, \<open>Kvs_Command\<close>, \<open>Kvs_Lookup\<close>, \<open>Kvs_Refine\<close> (\<^verbatim>\<open>kvstore.c\<close>): the global state, every command handler,
    the command table with its hashing, and the specification of the commands.
  \<^item> \<open>Snapshot\<close> (\<^verbatim>\<open>snapshot.c\<close>): the file format, saving and loading.
  \<^item> \<open>Conn_Ntyco\<close>, \<open>Repl_Master\<close> (\<^verbatim>\<open>ntyco.c\<close>): a client connection, the replication sender. \<open>Byte_Pipe\<close>: sockets and the
    contract of an ordered pipe, interpreted on the backlog and on the relay's ring.
  \<^item> \<open>Conn_Events\<close> (\<^verbatim>\<open>reactor.c\<close>, \<^verbatim>\<open>proactor.c\<close>): the callbacks of the two alternative network layers.
  \<^item> \<open>Repl_Sync\<close>, \<open>Rdma_Connect\<close>, \<open>Rdma_Sync\<close> (\<^verbatim>\<open>repl.c\<close>): the first synchronisation of a replica, over TCP with
    \<open>sendfile\<close> and \<open>splice\<close>, or over RDMA with its handshake and the transfer in chunks as two concurrent programs.
  \<^item> \<open>Relay_Capture\<close> (\<^verbatim>\<open>sync_filter.bpf.c\<close>), \<open>Relay_Ring\<close>, \<open>Relay_Order\<close> (\<^verbatim>\<open>ebpf_relay.c\<close>): the capturing classifier, the growing
    ring, the reassembly of TCP segments.
  \<^item> \<open>Server_Config\<close>, \<open>Server_Main\<close> (\<^verbatim>\<open>config.c\<close>, \<^verbatim>\<open>server.c\<close>): the configuration file, start and end of the process.
    \<open>Server_Loop\<close>: the running server, all coroutines and the expire thread interleaved.

  \<^bold>\<open>State and effects.\<close> A C structure is a record, an operation a function from the old state to its
  return value and the new state. What the code cannot decide (results of \<open>malloc\<close>, clocks, system
  calls, the socket, seeds) is an argument, usually a function from a counter to an outcome. A
  result \<open>None\<close> stands for behaviour the C code does not define or for a call that never returns; the theory concerned says
  which. Integers are words or integers with the wrap-around of their C type where it can be observed.
  Pointers are explicit in the skip list (a node store with freed nodes) and in the memory pool;
  the red-black tree is a datatype, its parent pointers are the path the loops work on.

  \<^bold>\<open>What is shown.\<close> Each engine computes an abstract map, keeps its structural invariant
  (balance, level lists, table sizes) and never leaves a dangling pointer; every command changes
  exactly what its specification says; a stream of requests cut at arbitrary places is answered like
  the requests one by one; the log contains exactly the writing commands and its replay restores
  all values; a snapshot restores the live entries and a changed byte is detected; timers are
  neither lost nor early; a replica gets a copy of the log file, by TCP or RDMA, and then every
  writing command; the relay delivers a contiguous part of the
  stream; the start of the server ends in a well-formed state and the running server stays in one, its timers deleting
  expired entries only. Some properties record defects: an array
  entry without expiry is deleted by its timer, closing the log can hang, a
  negative length is read outside the buffer; lemmas of the theories record others: MEMTRIM has nothing to release, a part of a
  request makes the reactor spin, a cut acknowledgement is ignored.

  \<^bold>\<open>Bounds and fuel.\<close> Loops are structural recursion or have a termination proof. Fuel is used where
  the code has a bound itself: 64 probes of the 64-slot command table, 64 rounds of \<open>flush_all\<close>, 100
  nodes per round of the replication sender, 500 timer deletions; and in the skip list for the steps of a walk, bounded by the
  number of nodes. Waiting loops take the list of outcomes they meet; that they return is proved
  where the code guarantees it.

  \<^bold>\<open>Not modelled.\<close> The RDMA verbs (\<^verbatim>\<open>rdma.c\<close>: calls of libibverbs; their effect is the delivery of payloads and immediate
  values), libcurl and cJSON (parameters), the coroutine library, thread creation, the loops that dispatch epoll and
  io_uring events, sockets beyond the results of their calls, the rounding of floating-point numbers, the generated
  \<^verbatim>\<open>vmlinux.h\<close>, the stand-alone \<^verbatim>\<open>hash.c\<close> and the test clients: calls to code outside the repository or parts
  of no build. Weak memory is not modelled: the interleavings of the timer ring are sequentially consistent.
\<close>

end
